(* ===== verification/Orengine_Prelude.thy ===== *)
theory Orengine_Prelude
  imports Main "HOL-Library.Word" "HOL-Library.Multiset"
begin

text \<open>
  Shared vocabulary of the development: Rust's panics as values, the two ends of a
  \<open>VecDeque\<close> and of a \<open>Vec\<close> as list operations, \<open>usize\<close> limits, the result of polling a
  future, and what a primitive asks the executor to do with a task it wakes.
\<close>

section \<open>Proof collections\<close>

named_theorems deque_simps \<open>equations of the two ends of a deque\<close>
named_theorems op_defs \<open>definitions of the operations of a component\<close>

section \<open>Panics\<close>

text \<open>
  A Rust function that may panic returns a value of the sum type; \<open>Inl\<close> is the panic.
  \<open>DebugAssert\<close> is a \<open>debug_assert!\<close> (checked only with \<open>debug_assertions\<close>), \<open>Asserted\<close> an
  unconditional \<open>assert!\<close>, \<open>panic!\<close>, \<open>expect\<close> or \<open>unwrap\<close>, \<open>Overflow\<close> an arithmetic overflow
  caught by a build with overflow checks, \<open>Undefined\<close> undefined behaviour: an \<open>unwrap_unchecked\<close> of
  \<open>None\<close> or an access outside live memory.
\<close>

datatype panic = DebugAssert | Asserted | Overflow | Undefined

type_synonym 'a res = "panic + 'a"

fun bindR :: "'a res \<Rightarrow> ('a \<Rightarrow> 'b res) \<Rightarrow> 'b res" where
  "bindR (Inl p) f = Inl p"
| "bindR (Inr a) f = f a"

lemma bindR_Inr_conv: "bindR r f = Inr b \<longleftrightarrow> (\<exists>a. r = Inr a \<and> f a = Inr b)"
  by (cases r) auto

section \<open>usize\<close>

definition usize_max :: nat where
  "usize_max = 2 ^ 64 - 1"

text \<open>\<open>+\<close> and \<open>-\<close> on \<open>usize\<close>: a panic with debug assertions, wrap-around without.\<close>

definition usize_add :: "bool \<Rightarrow> nat \<Rightarrow> nat \<Rightarrow> nat res" where
  "usize_add dbg a b =
     (if a + b \<le> usize_max then Inr (a + b) else if dbg then Inl Overflow else Inr ((a + b) mod (usize_max + 1)))"

definition usize_sub :: "bool \<Rightarrow> nat \<Rightarrow> nat \<Rightarrow> nat res" where
  "usize_sub dbg a b =
     (if b \<le> a then Inr (a - b) else if dbg then Inl Overflow else Inr (a + (usize_max + 1) - b))"

lemma usize_add_Inr [simp]: "a + b \<le> usize_max \<Longrightarrow> usize_add dbg a b = Inr (a + b)"
  by (simp add: usize_add_def)

lemma usize_sub_Inr [simp]: "b \<le> a \<Longrightarrow> usize_sub dbg a b = Inr (a - b)"
  by (simp add: usize_sub_def)

lemma usize_max_pos [simp]: "0 < usize_max"
  by (simp add: usize_max_def)

section \<open>The ends of a deque\<close>

text \<open>
  A \<open>VecDeque\<close> and a \<open>Vec\<close> are lists; \<open>push_back\<close> appends, \<open>push_front\<close> conses. Popping an
  end returns \<open>None\<close> on an empty deque, as Rust does.
\<close>

fun pop_front :: "'a list \<Rightarrow> 'a option \<times> 'a list" where
  "pop_front [] = (None, [])"
| "pop_front (x # xs) = (Some x, xs)"

definition pop_back :: "'a list \<Rightarrow> 'a option \<times> 'a list" where
  "pop_back xs = (if xs = [] then (None, []) else (Some (last xs), butlast xs))"

lemma pop_back_Nil [simp, deque_simps]: "pop_back [] = (None, [])"
  by (simp add: pop_back_def)

lemma pop_back_snoc [simp, deque_simps]: "pop_back (xs @ [x]) = (Some x, xs)"
  by (simp add: pop_back_def)

lemma pop_back_None: "pop_back xs = (None, ys) \<longleftrightarrow> xs = [] \<and> ys = []"
  by (auto simp: pop_back_def)

lemma pop_back_Some: "pop_back xs = (Some x, ys) \<longleftrightarrow> xs = ys @ [x]"
  by (cases xs rule: rev_cases) auto

lemma pop_front_None: "pop_front xs = (None, ys) \<longleftrightarrow> xs = [] \<and> ys = []"
  by (cases xs) auto

lemma pop_front_Some: "pop_front xs = (Some x, ys) \<longleftrightarrow> xs = x # ys"
  by (cases xs) auto

lemmas pop_convs = pop_back_None pop_back_Some pop_front_None pop_front_Some

section \<open>Options as lists\<close>

fun opt_list :: "'a option \<Rightarrow> 'a list" where
  "opt_list None = []"
| "opt_list (Some x) = [x]"

section \<open>Futures and wake-ups\<close>

datatype 'a poll = Ready 'a | Pending

text \<open>
  What a primitive does with a task it wakes: \<open>exec_task\<close> it at once, push it to the
  executor's queue of shared tasks, or to the queue of local tasks.
\<close>

datatype 't wake = ExecTask 't | SpawnSharedTask 't | SpawnLocalTask 't

fun woken :: "'t wake \<Rightarrow> 't" where
  "woken (ExecTask t) = t"
| "woken (SpawnSharedTask t) = t"
| "woken (SpawnLocalTask t) = t"

section \<open>Lists\<close>

lemma mset_butlast_last: "xs \<noteq> [] \<Longrightarrow> add_mset (last xs) (mset (butlast xs)) = mset xs"
  by (cases xs rule: rev_cases) auto

lemma take_append_drop_mset: "mset (take n xs) + mset (drop n xs) = mset xs"
  by (metis append_take_drop_id mset_append)

lemma mset_concat_update:
  "i < length xs \<Longrightarrow> mset (concat (xs[i := ys])) + mset (xs ! i) = mset (concat xs) + mset ys"
  by (induction xs arbitrary: i) (auto simp: nth_Cons split: nat.splits)

lemma in_set_update:
  "p < length xs \<Longrightarrow> x \<noteq> xs ! p \<Longrightarrow> x \<noteq> y \<Longrightarrow> x \<in> set (xs[p := y]) \<longleftrightarrow> x \<in> set xs"
  by (induction xs arbitrary: p) (auto simp: nth_Cons split: nat.splits)

lemma image_disjoint: "f ` A \<inter> B = {} \<longleftrightarrow> (\<forall>x \<in> A. f x \<notin> B)"
  by auto

lemma distinct_map_fst_unique:
  assumes "distinct (map fst xs)" and "(a, b) \<in> set xs" and "(a, c) \<in> set xs"
  shows "b = c"
  using assms by (induction xs) (auto simp: image_iff)

end
