(* ===== verification/Transition_Systems.thy ===== *)
theory Transition_Systems
  imports Orengine_Prelude
begin

text \<open>
  The concurrent primitives are step relations on a global state: one rule per atomic action
  of a thread or of a task. A safety property is an invariant of every state reachable from
  an initial one. The induction is done once, in a locale; each primitive interprets it with
  its own initial states, steps and invariant.
\<close>

section \<open>Reachable states\<close>

inductive reach :: "('s \<Rightarrow> bool) \<Rightarrow> ('s \<Rightarrow> 's \<Rightarrow> bool) \<Rightarrow> 's \<Rightarrow> bool"
  for start :: "'s \<Rightarrow> bool" and step :: "'s \<Rightarrow> 's \<Rightarrow> bool" where
  reach_start: "start s \<Longrightarrow> reach start step s"
| reach_step: "reach start step s \<Longrightarrow> step s t \<Longrightarrow> reach start step t"

lemma reach_steps: "reach start step s \<Longrightarrow> step\<^sup>*\<^sup>* s t \<Longrightarrow> reach start step t"
  by (rotate_tac, induction rule: rtranclp_induct) (auto intro: reach.intros)

locale invariant_system =
  fixes start :: "'s \<Rightarrow> bool" and step :: "'s \<Rightarrow> 's \<Rightarrow> bool" and inv :: "'s \<Rightarrow> bool"
  assumes inv_start: "start s \<Longrightarrow> inv s"
    and inv_step: "inv s \<Longrightarrow> step s t \<Longrightarrow> inv t"
begin

lemma reach_inv: "reach start step s \<Longrightarrow> inv s"
  by (induction rule: reach.induct) (auto intro: inv_start inv_step)

lemma steps_inv: "step\<^sup>*\<^sup>* s t \<Longrightarrow> inv s \<Longrightarrow> inv t"
  by (induction rule: rtranclp_induct) (auto intro: inv_step)

end

section \<open>Sequences of operations\<close>

text \<open>
  A component that runs on one thread, or under its lock, is a function from an operation and
  a state to what the operation reports and the next state. \<open>run_ops\<close> runs a history; \<open>ok\<close> is
  what the caller has to respect at each call, and \<open>oks\<close> says it does along a history.
\<close>

fun run_ops :: "('op \<Rightarrow> 's \<Rightarrow> 'o \<times> 's) \<Rightarrow> 'op list \<Rightarrow> 's \<Rightarrow> 'o list \<times> 's" where
  "run_ops step [] s = ([], s)"
| "run_ops step (p # ps) s =
     (case step p s of (o', s') \<Rightarrow> case run_ops step ps s' of (os, s'') \<Rightarrow> (o' # os, s''))"

fun oks :: "('op \<Rightarrow> 's \<Rightarrow> bool) \<Rightarrow> ('op \<Rightarrow> 's \<Rightarrow> 'o \<times> 's) \<Rightarrow> 'op list \<Rightarrow> 's \<Rightarrow> bool" where
  "oks ok step [] s = True"
| "oks ok step (p # ps) s = (ok p s \<and> oks ok step ps (snd (step p s)))"

lemma run_ops_append:
  "run_ops step (ps @ qs) s =
     (case run_ops step ps s of (os, s') \<Rightarrow> case run_ops step qs s' of (os', s'') \<Rightarrow> (os @ os', s''))"
  by (induction ps arbitrary: s) (auto split: prod.splits)

lemma run_ops_Cons_eq:
  "run_ops step (p # ps) s = (os, s'') \<longleftrightarrow>
     (\<exists>o' s' os'. step p s = (o', s') \<and> run_ops step ps s' = (os', s'') \<and> os = o' # os')"
  by (auto split: prod.splits)

locale op_system =
  fixes step :: "'op \<Rightarrow> 's \<Rightarrow> 'o \<times> 's" and ok :: "'op \<Rightarrow> 's \<Rightarrow> bool" and inv :: "'s \<Rightarrow> bool"
  assumes op_inv: "inv s \<Longrightarrow> ok p s \<Longrightarrow> step p s = (r, s') \<Longrightarrow> inv s'"
begin

lemma run_inv: "inv s \<Longrightarrow> oks ok step ps s \<Longrightarrow> run_ops step ps s = (os, s') \<Longrightarrow> inv s'"
proof (induction ps arbitrary: s os)
  case (Cons p ps)
  then obtain r t os' where "step p s = (r, t)" "run_ops step ps t = (os', s')"
    by (auto simp del: run_ops.simps simp: run_ops_Cons_eq)
  with Cons show ?case by (auto intro: op_inv)
qed simp

lemma run_reports:
  assumes "\<And>s p r s'. inv s \<Longrightarrow> ok p s \<Longrightarrow> step p s = (r, s') \<Longrightarrow> Q r"
  shows "inv s \<Longrightarrow> oks ok step ps s \<Longrightarrow> run_ops step ps s = (os, s') \<Longrightarrow> list_all Q os"
proof (induction ps arbitrary: s os)
  case (Cons p ps)
  then obtain r t os' where "step p s = (r, t)" "run_ops step ps t = (os', s')" "os = r # os'"
    by (auto simp del: run_ops.simps simp: run_ops_Cons_eq)
  with Cons assms show ?case by (auto intro: op_inv)
qed simp

end

subsection \<open>Refinement\<close>

text \<open>
  A component refines a specification when its abstraction follows the specification operation by
  operation; then it does so along every history.
\<close>

locale refinement = op_system step ok inv
  for step :: "'op \<Rightarrow> 's \<Rightarrow> 'o \<times> 's" and ok :: "'op \<Rightarrow> 's \<Rightarrow> bool" and inv :: "'s \<Rightarrow> bool" +
  fixes abs_state :: "'s \<Rightarrow> 'a" and spec :: "'op \<Rightarrow> 'a \<Rightarrow> 'a"
  assumes simulates: "inv s \<Longrightarrow> ok p s \<Longrightarrow> step p s = (r, s') \<Longrightarrow> abs_state s' = spec p (abs_state s)"
begin

lemma run_refines:
  "inv s \<Longrightarrow> oks ok step ps s \<Longrightarrow> run_ops step ps s = (os, s') \<Longrightarrow> abs_state s' = fold spec ps (abs_state s)"
proof (induction ps arbitrary: s os)
  case (Cons p ps)
  then obtain r t os' where r: "step p s = (r, t)" "run_ops step ps t = (os', s')"
    by (auto simp del: run_ops.simps simp: run_ops_Cons_eq)
  with Cons have "abs_state s' = fold spec ps (abs_state t)" by (auto intro: op_inv)
  with Cons.prems r simulates show ?case by auto
qed simp

end

subsection \<open>Suspended tasks\<close>

text \<open>
  A primitive that parks tasks keeps them in its own structures until it resumes them.
  \<open>susp\<close> and \<open>resm\<close> read off a report which tasks the operation parked and which it resumed,
  \<open>waiting\<close> is the multiset the structure holds. The law is a balance per operation; the
  consequence is the balance of a whole history, so no task is lost and none resumed twice.
\<close>

locale parking = op_system step ok inv
  for step :: "'op \<Rightarrow> 's \<Rightarrow> 'o \<times> 's" and ok :: "'op \<Rightarrow> 's \<Rightarrow> bool" and inv :: "'s \<Rightarrow> bool" +
  fixes waiting :: "'s \<Rightarrow> 't multiset" and susp :: "'o \<Rightarrow> 't list" and resm :: "'o \<Rightarrow> 't list"
  assumes balance: "inv s \<Longrightarrow> ok p s \<Longrightarrow> step p s = (r, s') \<Longrightarrow>
      waiting s + mset (susp r) = waiting s' + mset (resm r)"
begin

lemma run_balance:
  "inv s \<Longrightarrow> oks ok step ps s \<Longrightarrow> run_ops step ps s = (os, s') \<Longrightarrow>
   waiting s + mset (concat (map susp os)) = waiting s' + mset (concat (map resm os))"
proof (induction ps arbitrary: s os)
  case (Cons p ps)
  then obtain r t os' where st: "step p s = (r, t)" "run_ops step ps t = (os', s')"
    and os: "os = r # os'"
    by (auto simp del: run_ops.simps simp: run_ops_Cons_eq)
  have "waiting t + mset (concat (map susp os')) = waiting s' + mset (concat (map resm os'))"
    using Cons st by (auto intro: op_inv)
  moreover have "waiting s + mset (susp r) = waiting t + mset (resm r)"
    using Cons.prems st by (auto intro: balance)
  ultimately show ?case by (simp add: os union_assoc[symmetric])
qed simp

lemma run_resumed_once:
  assumes "inv s" and "waiting s = {#}" and "oks ok step ps s" and "run_ops step ps s = (os, s')"
  shows "count (mset (concat (map resm os))) t + count (waiting s') t
         = count (mset (concat (map susp os))) t"
  using run_balance[OF assms(1,3,4)] assms(2) by (simp add: add.commute)

end

end
