(* ===== verification/Channel_Types.thy ===== *)
theory Channel_Types
  imports Transition_Systems
begin

text \<open>
  What the two channels share (\<open>src/src/sync/channels/\<close>: \<open>states.rs\<close>, \<open>pools.rs\<close>,
  \<open>async_trait.rs\<close>): the call states of the waiting futures, the result enums with their
  \<open>unwrap\<close>s, the deques of waiting tasks and their pool, the memory the raw pointers point
  into, and the first-in first-out contract of \<open>AsyncChannel\<close>.
\<close>

section \<open>Results\<close>

datatype 'v send_result = SendOk | SendClosed 'v

datatype 'v try_send_result = TrySendOk | TrySendFull 'v | TrySendLocked 'v | TrySendClosed 'v

datatype recv_in_result = RecvInOk | RecvInClosed

datatype try_recv_in_result = TryRecvInOk | TryRecvInEmpty | TryRecvInLocked | TryRecvInClosed

datatype 'v recv_result = RecvOk 'v | RecvClosed

datatype 'v try_recv_result = TryRecvOk 'v | TryRecvEmpty | TryRecvLocked | TryRecvClosed

fun send_result_unwrap :: "'v send_result \<Rightarrow> unit res" where
  "send_result_unwrap (SendClosed _) = Inl Asserted"
| "send_result_unwrap SendOk = Inr ()"

fun try_send_result_unwrap :: "'v try_send_result \<Rightarrow> unit res" where
  "try_send_result_unwrap TrySendOk = Inr ()"
| "try_send_result_unwrap (TrySendFull _) = Inl Asserted"
| "try_send_result_unwrap (TrySendLocked _) = Inl Asserted"
| "try_send_result_unwrap (TrySendClosed _) = Inl Asserted"

fun recv_in_result_unwrap :: "recv_in_result \<Rightarrow> unit res" where
  "recv_in_result_unwrap RecvInClosed = Inl Asserted"
| "recv_in_result_unwrap RecvInOk = Inr ()"

fun try_recv_in_result_unwrap :: "try_recv_in_result \<Rightarrow> unit res" where
  "try_recv_in_result_unwrap TryRecvInOk = Inr ()"
| "try_recv_in_result_unwrap TryRecvInEmpty = Inl Asserted"
| "try_recv_in_result_unwrap TryRecvInLocked = Inl Asserted"
| "try_recv_in_result_unwrap TryRecvInClosed = Inl Asserted"

fun recv_result_unwrap :: "'v recv_result \<Rightarrow> 'v res" where
  "recv_result_unwrap (RecvOk v) = Inr v"
| "recv_result_unwrap RecvClosed = Inl Asserted"

fun try_recv_result_unwrap :: "'v try_recv_result \<Rightarrow> 'v res" where
  "try_recv_result_unwrap (TryRecvOk v) = Inr v"
| "try_recv_result_unwrap TryRecvEmpty = Inl Asserted"
| "try_recv_result_unwrap TryRecvLocked = Inl Asserted"
| "try_recv_result_unwrap TryRecvClosed = Inl Asserted"

section \<open>Call states and the memory of the futures\<close>

datatype send_call_state = SendFirstCall | SendWokenToReturnReady | SendWokenByClose

datatype recv_call_state = RecvFirstCall | RecvWokenToReturnReady | RecvWokenByClose

text \<open>
  The deques hold raw pointers into the waiting futures. An address is a number; a future at
  address \<open>f\<close> has its \<open>call_state\<close> in \<open>send_state f\<close> or \<open>recv_state f\<close>, and a cell of type
  \<open>T\<close> (the \<open>value\<close> of a send future, the slot of a receiver) is in \<open>mem\<close>, \<open>None\<close> when it is
  uninitialised. Copying a value does not clear its source, as \<open>ptr::read\<close> does not.
\<close>

record 'v cells =
  send_state :: "nat \<Rightarrow> send_call_state"
  recv_state :: "nat \<Rightarrow> recv_call_state"
  mem :: "nat \<Rightarrow> 'v option"

definition set_send_state :: "nat \<Rightarrow> send_call_state \<Rightarrow> 'v cells \<Rightarrow> 'v cells" where
  "set_send_state a s m = m\<lparr>send_state := (send_state m)(a := s)\<rparr>"

definition set_recv_state :: "nat \<Rightarrow> recv_call_state \<Rightarrow> 'v cells \<Rightarrow> 'v cells" where
  "set_recv_state a s m = m\<lparr>recv_state := (recv_state m)(a := s)\<rparr>"

definition write_mem :: "nat \<Rightarrow> 'v option \<Rightarrow> 'v cells \<Rightarrow> 'v cells" where
  "write_mem a v m = m\<lparr>mem := (mem m)(a := v)\<rparr>"

lemma cells_simps [simp]:
  "send_state (set_send_state a s m) = (send_state m)(a := s)"
  "recv_state (set_send_state a s m) = recv_state m"
  "mem (set_send_state a s m) = mem m"
  "send_state (set_recv_state a r m) = send_state m"
  "recv_state (set_recv_state a r m) = (recv_state m)(a := r)"
  "mem (set_recv_state a r m) = mem m"
  "send_state (write_mem a v m) = send_state m"
  "recv_state (write_mem a v m) = recv_state m"
  "mem (write_mem a v m) = (mem m)(a := v)"
  by (simp_all add: set_send_state_def set_recv_state_def write_mem_def)

section \<open>The deques and their pool\<close>

text \<open>A waiter is the task, the pointer to its call state and the pointer to its value or slot.\<close>

datatype 't waiter = Waiter (waiter_task: 't) (waiter_state: nat) (waiter_ptr: nat)

record 't deques =
  senders :: "'t waiter list"
  receivers :: "'t waiter list"

definition deques_new :: "'t deques" where
  "deques_new = \<lparr>senders = [], receivers = []\<rparr>"

text \<open>The pool keeps the deques of dropped channels by the size of the element type.\<close>

type_synonym 't deques_pool = "nat \<Rightarrow> 't deques list"

definition deques_pool_get :: "nat \<Rightarrow> 't deques_pool \<Rightarrow> 't deques \<times> 't deques_pool" where
  "deques_pool_get sz pool =
     (case pop_back (pool sz) of
        (Some d, rest) \<Rightarrow> (d, pool(sz := rest))
      | (None, rest) \<Rightarrow> (deques_new, pool(sz := rest)))"

definition deques_pool_put :: "nat \<Rightarrow> 't deques \<Rightarrow> 't deques_pool \<Rightarrow> 't deques_pool" where
  "deques_pool_put sz d pool = pool(sz := pool sz @ [d])"

text \<open>A pool is clean when every pooled pair of deques is empty.\<close>

definition pool_clean :: "'t deques_pool \<Rightarrow> bool" where
  "pool_clean pool \<longleftrightarrow> (\<forall>sz. \<forall>d \<in> set (pool sz). d = deques_new)"

lemma deques_pool_get_clean:
  "pool_clean pool \<Longrightarrow> deques_pool_get sz pool = (d, pool') \<Longrightarrow>
   d = deques_new \<and> pool_clean pool'"
proof (cases "pool sz" rule: rev_cases)
  case (snoc ds e)
  assume "pool_clean pool" and get: "deques_pool_get sz pool = (d, pool')"
  then have all: "\<And>n x. x \<in> set (pool n) \<Longrightarrow> x = deques_new" by (auto simp: pool_clean_def)
  then have "e = deques_new" "\<forall>x \<in> set ds. x = deques_new"
    using all[of _ sz] snoc by auto
  with all get snoc show ?thesis
    by (auto simp: deques_pool_get_def pool_clean_def split: if_splits)
qed (auto simp: deques_pool_get_def pool_clean_def split: if_splits)

lemma deques_pool_put_clean:
  "pool_clean pool \<Longrightarrow> pool_clean (deques_pool_put sz deques_new pool)"
  by (simp add: deques_pool_put_def pool_clean_def)

section \<open>Inner\<close>

record ('t, 'v) inner =
  storage :: "'v list"
  is_closed :: bool
  capacity :: nat
  deques :: "'t deques"

definition waiting_senders :: "('t, 'v, 'z) inner_scheme \<Rightarrow> 't waiter list" where
  "waiting_senders c = senders (deques c)"

definition waiting_receivers :: "('t, 'v, 'z) inner_scheme \<Rightarrow> 't waiter list" where
  "waiting_receivers c = receivers (deques c)"

definition set_senders :: "'t waiter list \<Rightarrow> ('t, 'v, 'z) inner_scheme \<Rightarrow> ('t, 'v, 'z) inner_scheme" where
  "set_senders ws c = c\<lparr>deques := (deques c)\<lparr>senders := ws\<rparr>\<rparr>"

definition set_receivers :: "'t waiter list \<Rightarrow> ('t, 'v, 'z) inner_scheme \<Rightarrow> ('t, 'v, 'z) inner_scheme" where
  "set_receivers ws c = c\<lparr>deques := (deques c)\<lparr>receivers := ws\<rparr>\<rparr>"

lemma inner_simps [simp]:
  "waiting_senders (set_senders ws c) = ws"
  "waiting_receivers (set_senders ws c) = waiting_receivers c"
  "waiting_senders (set_receivers ws c) = waiting_senders c"
  "waiting_receivers (set_receivers ws c) = ws"
  "waiting_senders (c\<lparr>storage := xs\<rparr>) = waiting_senders c"
  "waiting_receivers (c\<lparr>storage := xs\<rparr>) = waiting_receivers c"
  "waiting_senders (c\<lparr>is_closed := b\<rparr>) = waiting_senders c"
  "waiting_receivers (c\<lparr>is_closed := b\<rparr>) = waiting_receivers c"
  "storage (set_senders ws c) = storage c"
  "storage (set_receivers ws c) = storage c"
  "is_closed (set_senders ws c) = is_closed c"
  "is_closed (set_receivers ws c) = is_closed c"
  "capacity (set_senders ws c) = capacity c"
  "capacity (set_receivers ws c) = capacity c"
  by (simp_all add: waiting_senders_def waiting_receivers_def set_senders_def set_receivers_def)

text \<open>The queue a channel stands for: the stored values, then those of the waiting senders.\<close>

definition queued :: "('t, 'v, 'z) inner_scheme \<Rightarrow> 'v cells \<Rightarrow> 'v list" where
  "queued c m = storage c @ map (\<lambda>w. the (mem m (waiter_ptr w))) (waiting_senders c)"

lemma fold_wake_senders [simp]:
  "mem (fold (\<lambda>w. set_send_state (waiter_state w) x) ws m) = mem m"
  "recv_state (fold (\<lambda>w. set_send_state (waiter_state w) x) ws m) = recv_state m"
  "send_state (fold (\<lambda>w. set_send_state (waiter_state w) x) ws m) a =
     (if a \<in> waiter_state ` set ws then x else send_state m a)"
  by (induction ws arbitrary: m) auto

lemma fold_wake_receivers [simp]:
  "mem (fold (\<lambda>w. set_recv_state (waiter_state w) x) ws m) = mem m"
  "send_state (fold (\<lambda>w. set_recv_state (waiter_state w) x) ws m) = send_state m"
  "recv_state (fold (\<lambda>w. set_recv_state (waiter_state w) x) ws m) a =
     (if a \<in> waiter_state ` set ws then x else recv_state m a)"
  by (induction ws arbitrary: m) auto

section \<open>The well-formed channels\<close>

text \<open>
  A receiver waits only when there is nothing to take, a sender only when there is no room;
  a closed channel has no waiters; the pointers of the waiters are distinct and point to live
  futures that have not been woken.
\<close>

definition chan_shape :: "('t, 'v, 'z) inner_scheme \<Rightarrow> bool" where
  "chan_shape c \<longleftrightarrow>
     (waiting_receivers c \<noteq> [] \<longrightarrow> storage c = [] \<and> waiting_senders c = []) \<and>
     (waiting_senders c \<noteq> [] \<longrightarrow> length (storage c) = capacity c) \<and>
     length (storage c) \<le> capacity c \<and>
     (is_closed c \<longrightarrow> waiting_senders c = [] \<and> waiting_receivers c = [])"

definition waiters_live :: "('t, 'v, 'z) inner_scheme \<Rightarrow> 'v cells \<Rightarrow> bool" where
  "waiters_live c m \<longleftrightarrow>
     distinct (map waiter_state (waiting_senders c)) \<and>
     distinct (map waiter_state (waiting_receivers c)) \<and>
     distinct (map waiter_ptr (waiting_receivers c)) \<and>
     (\<forall>w \<in> set (waiting_senders c). waiter_ptr w = waiter_state w \<and>
        send_state m (waiter_state w) = SendFirstCall \<and> mem m (waiter_state w) \<noteq> None) \<and>
     (\<forall>w \<in> set (waiting_receivers c). recv_state m (waiter_state w) = RecvFirstCall)"

section \<open>Calls and reports\<close>

text \<open>
  \<open>Send\<close> and \<open>RecvIn\<close> create the future and poll it for the first time; \<open>ResumeSend\<close> and
  \<open>ResumeRecv\<close> poll it again, after it was woken.
\<close>

datatype ('t, 'v) chan_op =
    Send 't nat 'v
  | ResumeSend 't nat
  | RecvIn 't nat nat
  | ResumeRecv 't nat nat
  | TrySend 'v
  | TryRecvIn nat
  | Close

datatype 'v chan_result =
    SendRes "'v send_result poll"
  | RecvRes "recv_in_result poll"
  | TrySendRes "'v try_send_result"
  | TryRecvRes try_recv_in_result
  | CloseRes

record ('t, 'v) chan_report =
  result :: "'v chan_result"
  accepted :: "'v list"
  delivered :: "'v list"
  given_back :: "'v list"
  suspended :: "'t list"
  resumed :: "'t list"

text \<open>A send whose value is in the channel, or already with a receiver.\<close>

fun send_accepted :: "'v send_result poll \<Rightarrow> bool" where
  "send_accepted (Ready (SendClosed v)) = False"
| "send_accepted _ = True"

text \<open>What the receivers that an operation took off the deque find in their slots.\<close>

definition handed :: "('t, 'v, 'z) inner_scheme \<Rightarrow> ('t, 'v, 'z) inner_scheme \<Rightarrow> 'v cells \<Rightarrow> 'v list" where
  "handed c c' m' =
     map (\<lambda>w. the (mem m' (waiter_ptr w)))
       (take (length (waiting_receivers c) - length (waiting_receivers c')) (waiting_receivers c))"

text \<open>
  What Rust's borrow rules and the executor guarantee at a call: a new future and an exclusive
  slot do not overlap memory a waiter uses, and a parked future is polled only after it is woken.
\<close>

definition slot_free :: "nat \<Rightarrow> ('t, 'v, 'z) inner_scheme \<Rightarrow> bool" where
  "slot_free p c \<longleftrightarrow>
     p \<notin> waiter_ptr ` set (waiting_senders c) \<and> p \<notin> waiter_ptr ` set (waiting_receivers c)"

fun call_ok :: "('t, 'v) chan_op \<Rightarrow> ('t, 'v, 'z) inner_scheme \<times> 'v cells \<Rightarrow> bool" where
  "call_ok (Send t f v) (c, m) \<longleftrightarrow> slot_free f c"
| "call_ok (ResumeSend t f) (c, m) \<longleftrightarrow> send_state m f \<noteq> SendFirstCall"
| "call_ok (RecvIn t f slot) (c, m) \<longleftrightarrow>
     slot_free slot c \<and> f \<notin> waiter_state ` set (waiting_receivers c)"
| "call_ok (ResumeRecv t f slot) (c, m) \<longleftrightarrow> recv_state m f \<noteq> RecvFirstCall"
| "call_ok (TrySend v) (c, m) \<longleftrightarrow> True"
| "call_ok (TryRecvIn slot) (c, m) \<longleftrightarrow> slot_free slot c"
| "call_ok Close (c, m) \<longleftrightarrow> True"

section \<open>The first-in first-out contract\<close>

text \<open>
  \<open>ins\<close> is what an operation put into the channel, \<open>outs\<close> what it gave to receivers, \<open>dropped\<close>
  what it gave back to the senders it woke by closing. The law is per operation; the client
  lemmas are about every history.
\<close>

locale fifo_channel = op_system step ok inv
  for step :: "'op \<Rightarrow> 's \<Rightarrow> 'o \<times> 's" and ok :: "'op \<Rightarrow> 's \<Rightarrow> bool" and inv :: "'s \<Rightarrow> bool" +
  fixes queue :: "'s \<Rightarrow> 'v list" and closed :: "'s \<Rightarrow> bool"
    and ins :: "'o \<Rightarrow> 'v list" and outs :: "'o \<Rightarrow> 'v list" and dropped :: "'o \<Rightarrow> 'v list"
  assumes fifo: "inv s \<Longrightarrow> ok p s \<Longrightarrow> step p s = (r, s') \<Longrightarrow>
      queue s @ ins r = outs r @ queue s' @ dropped r"
    and closed_quiet: "inv s \<Longrightarrow> ok p s \<Longrightarrow> step p s = (r, s') \<Longrightarrow> closed s \<Longrightarrow>
      closed s' \<and> ins r = [] \<and> outs r = [] \<and> dropped r = []"
    and dropped_closes: "inv s \<Longrightarrow> ok p s \<Longrightarrow> step p s = (r, s') \<Longrightarrow> dropped r \<noteq> [] \<Longrightarrow> closed s'"
begin

lemma run_closed:
  "inv s \<Longrightarrow> closed s \<Longrightarrow> oks ok step ps s \<Longrightarrow> run_ops step ps s = (os, s') \<Longrightarrow>
   closed s' \<and> concat (map ins os) = [] \<and> concat (map outs os) = [] \<and>
   concat (map dropped os) = [] \<and> queue s' = queue s"
proof (induction ps arbitrary: s os)
  case (Cons p ps)
  then obtain r t os' where st: "step p s = (r, t)" "run_ops step ps t = (os', s')"
    and os: "os = r # os'"
    by (auto simp del: run_ops.simps simp: run_ops_Cons_eq)
  have q: "closed t" "ins r = []" "outs r = []" "dropped r = []"
    using closed_quiet[OF _ _ st(1)] Cons.prems by auto
  then have "queue t = queue s"
    using fifo[OF _ _ st(1)] Cons.prems by simp
  moreover have "inv t" "oks ok step ps t" using Cons.prems st by (auto intro: op_inv)
  ultimately show ?case using Cons.IH[of t os'] q st(2) os by simp
qed simp

lemma run_fifo:
  "inv s \<Longrightarrow> oks ok step ps s \<Longrightarrow> run_ops step ps s = (os, s') \<Longrightarrow>
   queue s @ concat (map ins os) =
   concat (map outs os) @ queue s' @ concat (map dropped os)"
proof (induction ps arbitrary: s os)
  case (Cons p ps)
  then obtain r t os' where st: "step p s = (r, t)" "run_ops step ps t = (os', s')"
    and os: "os = r # os'"
    by (auto simp del: run_ops.simps simp: run_ops_Cons_eq)
  have t: "inv t" "oks ok step ps t" using Cons.prems st by (auto intro: op_inv)
  have one: "queue s @ ins r = outs r @ queue t @ dropped r"
    using fifo[OF _ _ st(1)] Cons.prems by simp
  show ?case
  proof (cases "dropped r = []")
    case True
    have "queue s @ ins r @ concat (map ins os') = outs r @ queue t @ concat (map ins os')"
      using one True by (metis append_assoc append_Nil2)
    with Cons.IH[OF t st(2)] True show ?thesis by (simp add: os)
  next
    case False
    then have "closed t" using dropped_closes[OF _ _ st(1)] Cons.prems by simp
    with run_closed[OF t(1) _ t(2) st(2)] one show ?thesis
      by (simp add: os del: concat_eq_Nil_conv)
  qed
qed simp

end

end
