(* ===== verification/Local_Channel.thy ===== *)
theory Local_Channel
  imports Channel_Types
begin

text \<open>
  \<open>LocalChannel\<close> (\<open>src/src/sync/channels/local.rs\<close>): the channel used inside one executor.
  The futures of \<open>send\<close> and \<open>recv\<close>, the \<open>try_\<close> operations and \<open>close\<close>, then the first-in
  first-out law, the balance of parked tasks and the absence of a missed hand-over, for every
  history of calls.
\<close>

section \<open>Construction\<close>

definition local_channel_bounded ::
  "nat \<Rightarrow> nat \<Rightarrow> 't deques_pool \<Rightarrow> ('t, 'v) inner \<times> 't deques_pool" where
  "local_channel_bounded sz cap pool =
     (let (d, pool') = deques_pool_get sz pool
      in (\<lparr>storage = [], is_closed = False, capacity = cap, deques = d\<rparr>, pool'))"

definition local_channel_unbounded ::
  "nat \<Rightarrow> 't deques_pool \<Rightarrow> ('t, 'v) inner \<times> 't deques_pool" where
  "local_channel_unbounded sz pool =
     (let (d, pool') = deques_pool_get sz pool
      in (\<lparr>storage = [], is_closed = False, capacity = usize_max, deques = d\<rparr>, pool'))"

section \<open>The send future\<close>

definition wait_local_send_new :: "nat \<Rightarrow> 'v \<Rightarrow> 'v cells \<Rightarrow> 'v cells" where
  "wait_local_send_new f v m = set_send_state f SendFirstCall (write_mem f (Some v) m)"

text \<open>
  \<open>poll\<close> of the send future at address \<open>f\<close>, run by task \<open>t\<close>. The result carries the tasks the
  poll passes to \<open>exec_task\<close>; each such call is the last action of its branch.
\<close>

definition wait_local_send_poll ::
  "'t \<Rightarrow> nat \<Rightarrow> ('t, 'v) inner \<Rightarrow> 'v cells \<Rightarrow>
   'v send_result poll \<times> 't wake list \<times> ('t, 'v) inner \<times> 'v cells" where
  "wait_local_send_poll t f c m =
     (case send_state m f of
        SendFirstCall \<Rightarrow>
          if is_closed c then (Ready (SendClosed (the (mem m f))), [], c, m)
          else (case waiting_receivers c of
                  Waiter task call_state slot # rest \<Rightarrow>
                    (Ready SendOk, [ExecTask task], set_receivers rest c,
                     set_recv_state call_state RecvWokenToReturnReady
                       (write_mem slot (mem m f) m))
                | [] \<Rightarrow>
                    if capacity c \<le> length (storage c)
                    then (Pending, [], set_senders (waiting_senders c @ [Waiter t f f]) c, m)
                    else (Ready SendOk, [], c\<lparr>storage := storage c @ [the (mem m f)]\<rparr>, m))
      | SendWokenToReturnReady \<Rightarrow> (Ready SendOk, [], c, m)
      | SendWokenByClose \<Rightarrow> (Ready (SendClosed (the (mem m f))), [], c, m))"

section \<open>The receive future\<close>

definition wait_local_recv_new :: "nat \<Rightarrow> 'v cells \<Rightarrow> 'v cells" where
  "wait_local_recv_new f m = set_recv_state f RecvFirstCall m"

definition wait_local_recv_poll ::
  "'t \<Rightarrow> nat \<Rightarrow> nat \<Rightarrow> ('t, 'v) inner \<Rightarrow> 'v cells \<Rightarrow>
   recv_in_result poll \<times> 't wake list \<times> ('t, 'v) inner \<times> 'v cells" where
  "wait_local_recv_poll t f slot c m =
     (case recv_state m f of
        RecvFirstCall \<Rightarrow>
          if is_closed c then (Ready RecvInClosed, [], c, m)
          else (case storage c of
                  [] \<Rightarrow>
                    (case waiting_senders c of
                       Waiter task call_state value_ptr # rest \<Rightarrow>
                         (Ready RecvInOk, [ExecTask task], set_senders rest c,
                          write_mem slot (mem m value_ptr)
                            (set_send_state call_state SendWokenToReturnReady m))
                     | [] \<Rightarrow>
                         (Pending, [], set_receivers (waiting_receivers c @ [Waiter t f slot]) c, m))
                | v # vs \<Rightarrow>
                    (let m' = write_mem slot (Some v) m
                     in case waiting_senders c of
                          Waiter task call_state value_ptr # rest \<Rightarrow>
                            (Ready RecvInOk, [ExecTask task],
                             set_senders rest (c\<lparr>storage := vs @ [the (mem m' value_ptr)]\<rparr>),
                             set_send_state call_state SendWokenToReturnReady m')
                        | [] \<Rightarrow> (Ready RecvInOk, [], c\<lparr>storage := vs\<rparr>, m')))
      | RecvWokenToReturnReady \<Rightarrow> (Ready RecvInOk, [], c, m)
      | RecvWokenByClose \<Rightarrow> (Ready RecvInClosed, [], c, m))"

section \<open>close, try_send and try_recv_in_ptr\<close>

text \<open>
  \<open>close\<close> writes the state of each waiter right before it executes it. A parked task reads its
  state only when it is executed, and every operation of a closed channel leaves it as it is,
  so the writes may be done first.
\<close>

definition local_channel_close ::
  "('t, 'v) inner \<Rightarrow> 'v cells \<Rightarrow> 't wake list \<times> ('t, 'v) inner \<times> 'v cells" where
  "local_channel_close c m =
     (map (\<lambda>w. ExecTask (waiter_task w)) (waiting_senders c) @
      map (\<lambda>w. ExecTask (waiter_task w)) (waiting_receivers c),
      set_receivers [] (set_senders [] (c\<lparr>is_closed := True\<rparr>)),
      fold (\<lambda>w. set_recv_state (waiter_state w) RecvWokenByClose) (waiting_receivers c)
        (fold (\<lambda>w. set_send_state (waiter_state w) SendWokenByClose) (waiting_senders c) m))"

definition local_channel_try_send ::
  "'v \<Rightarrow> ('t, 'v) inner \<Rightarrow> 'v cells \<Rightarrow>
   'v try_send_result \<times> 't wake list \<times> ('t, 'v) inner \<times> 'v cells" where
  "local_channel_try_send v c m =
     (if is_closed c then (TrySendClosed v, [], c, m)
      else (case waiting_receivers c of
              Waiter task call_state slot # rest \<Rightarrow>
                (TrySendOk, [ExecTask task], set_receivers rest c,
                 set_recv_state call_state RecvWokenToReturnReady (write_mem slot (Some v) m))
            | [] \<Rightarrow>
                if capacity c \<le> length (storage c) then (TrySendFull v, [], c, m)
                else (TrySendOk, [], c\<lparr>storage := storage c @ [v]\<rparr>, m)))"

definition local_channel_try_recv_in_ptr ::
  "nat \<Rightarrow> ('t, 'v) inner \<Rightarrow> 'v cells \<Rightarrow>
   try_recv_in_result \<times> 't wake list \<times> ('t, 'v) inner \<times> 'v cells" where
  "local_channel_try_recv_in_ptr slot c m =
     (if is_closed c then (TryRecvInClosed, [], c, m)
      else (case storage c of
              [] \<Rightarrow>
                (case waiting_senders c of
                   Waiter task call_state value_ptr # rest \<Rightarrow>
                     (TryRecvInOk, [ExecTask task], set_senders rest c,
                      write_mem slot (mem m value_ptr)
                        (set_send_state call_state SendWokenToReturnReady m))
                 | [] \<Rightarrow> (TryRecvInEmpty, [], c, m))
            | v # vs \<Rightarrow>
                (let m' = write_mem slot (Some v) m
                 in case waiting_senders c of
                      Waiter task call_state value_ptr # rest \<Rightarrow>
                        (TryRecvInOk, [ExecTask task],
                         set_senders rest (c\<lparr>storage := vs @ [the (mem m' value_ptr)]\<rparr>),
                         set_send_state call_state SendWokenToReturnReady m')
                    | [] \<Rightarrow> (TryRecvInOk, [], c\<lparr>storage := vs\<rparr>, m'))))"

section \<open>Histories of calls\<close>

fun local_channel_step ::
  "('t, 'v) chan_op \<Rightarrow> ('t, 'v) inner \<times> 'v cells \<Rightarrow>
   ('t, 'v) chan_report \<times> ('t, 'v) inner \<times> 'v cells" where
  "local_channel_step (Send t f v) (c, m) =
     (let (r, w, c', m') = wait_local_send_poll t f c (wait_local_send_new f v m)
      in (\<lparr>result = SendRes r, accepted = (if send_accepted r then [v] else []),
           delivered = handed c c' m', given_back = [],
           suspended = (if r = Pending then [t] else []), resumed = map woken w\<rparr>, c', m'))"
| "local_channel_step (ResumeSend t f) (c, m) =
     (let (r, w, c', m') = wait_local_send_poll t f c m
      in (\<lparr>result = SendRes r, accepted = [], delivered = handed c c' m', given_back = [],
           suspended = (if r = Pending then [t] else []), resumed = map woken w\<rparr>, c', m'))"
| "local_channel_step (RecvIn t f slot) (c, m) =
     (let (r, w, c', m') = wait_local_recv_poll t f slot c (wait_local_recv_new f m)
      in (\<lparr>result = RecvRes r, accepted = [],
           delivered = (if r = Ready RecvInOk then [the (mem m' slot)] else []), given_back = [],
           suspended = (if r = Pending then [t] else []), resumed = map woken w\<rparr>, c', m'))"
| "local_channel_step (ResumeRecv t f slot) (c, m) =
     (let (r, w, c', m') = wait_local_recv_poll t f slot c m
      in (\<lparr>result = RecvRes r, accepted = [], delivered = [], given_back = [],
           suspended = (if r = Pending then [t] else []), resumed = map woken w\<rparr>, c', m'))"
| "local_channel_step (TrySend v) (c, m) =
     (let (r, w, c', m') = local_channel_try_send v c m
      in (\<lparr>result = TrySendRes r, accepted = (if r = TrySendOk then [v] else []),
           delivered = handed c c' m', given_back = [],
           suspended = [], resumed = map woken w\<rparr>, c', m'))"
| "local_channel_step (TryRecvIn slot) (c, m) =
     (let (r, w, c', m') = local_channel_try_recv_in_ptr slot c m
      in (\<lparr>result = TryRecvRes r, accepted = [],
           delivered = (if r = TryRecvInOk then [the (mem m' slot)] else []), given_back = [],
           suspended = [], resumed = map woken w\<rparr>, c', m'))"
| "local_channel_step Close (c, m) =
     (let (w, c', m') = local_channel_close c m
      in (\<lparr>result = CloseRes, accepted = [], delivered = [],
           given_back = map (\<lambda>x. the (mem m' (waiter_ptr x))) (waiting_senders c),
           suspended = [], resumed = map woken w\<rparr>, c', m'))"

definition local_channel_inv :: "('t, 'v) inner \<times> 'v cells \<Rightarrow> bool" where
  "local_channel_inv s \<longleftrightarrow> chan_shape (fst s) \<and> waiters_live (fst s) (snd s)"

definition local_waiting :: "('t, 'v) inner \<times> 'v cells \<Rightarrow> 't multiset" where
  "local_waiting s = mset (map waiter_task (waiting_senders (fst s)))
                   + mset (map waiter_task (waiting_receivers (fst s)))"

section \<open>Lemmas on one call\<close>

lemmas local_channel_defs = wait_local_send_new_def wait_local_send_poll_def
  wait_local_recv_new_def wait_local_recv_poll_def local_channel_try_send_def
  local_channel_try_recv_in_ptr_def

lemmas local_channel_splits = send_call_state.splits recv_call_state.splits list.splits
  if_splits prod.splits waiter.splits

lemma local_channel_inv_step:
  assumes "local_channel_inv s" and "call_ok p s" and "local_channel_step p s = (r, s')"
  shows "local_channel_inv s'"
proof (cases s)
  case [simp]: (Pair c m)
  show ?thesis
  proof (cases p)
    case (Send t f v)
    then show ?thesis using assms
      by (auto simp: local_channel_inv_def local_channel_defs chan_shape_def waiters_live_def
            slot_free_def Let_def split: local_channel_splits)
  next
    case (ResumeSend t f)
    then show ?thesis using assms
      by (auto simp: local_channel_defs Let_def split: local_channel_splits)
  next
    case (RecvIn t f slot)
    then show ?thesis using assms
      by (auto simp: local_channel_inv_def local_channel_defs chan_shape_def waiters_live_def
            slot_free_def Let_def split: local_channel_splits)
  next
    case (ResumeRecv t f slot)
    then show ?thesis using assms
      by (auto simp: local_channel_defs Let_def split: local_channel_splits)
  next
    case (TrySend v)
    then show ?thesis using assms
      by (auto simp: local_channel_inv_def local_channel_defs chan_shape_def waiters_live_def
            slot_free_def Let_def split: local_channel_splits)
  next
    case (TryRecvIn slot)
    then show ?thesis using assms
      by (auto simp: local_channel_inv_def local_channel_defs chan_shape_def waiters_live_def
            slot_free_def Let_def split: local_channel_splits)
  next
    case Close
    then show ?thesis using assms
      by (auto simp: local_channel_inv_def local_channel_close_def chan_shape_def waiters_live_def)
  qed
qed

lemma local_channel_fifo_step:
  assumes "local_channel_inv s" and "call_ok p s" and "local_channel_step p s = (r, s')"
  shows "queued (fst s) (snd s) @ accepted r = delivered r @ queued (fst s') (snd s') @ given_back r"
proof (cases s)
  case [simp]: (Pair c m)
  note defs = local_channel_inv_def local_channel_defs chan_shape_def waiters_live_def
    slot_free_def handed_def queued_def Let_def image_iff
  show ?thesis
  proof (cases p)
    case (Send t f v)
    then show ?thesis using assms by (auto simp: defs split: local_channel_splits)
  next
    case (ResumeSend t f)
    then show ?thesis using assms by (auto simp: defs split: local_channel_splits)
  next
    case (RecvIn t f slot)
    then show ?thesis using assms by (auto simp: defs split: local_channel_splits)
  next
    case (ResumeRecv t f slot)
    then show ?thesis using assms by (auto simp: defs split: local_channel_splits)
  next
    case (TrySend v)
    then show ?thesis using assms by (auto simp: defs split: local_channel_splits)
  next
    case (TryRecvIn slot)
    then show ?thesis using assms by (auto simp: defs split: local_channel_splits)
  next
    case Close
    then show ?thesis using assms by (auto simp: local_channel_close_def queued_def)
  qed
qed

lemma local_channel_balance_step:
  assumes "local_channel_inv s" and "call_ok p s" and "local_channel_step p s = (r, s')"
  shows "local_waiting s + mset (suspended r) = local_waiting s' + mset (resumed r)"
proof (cases s)
  case [simp]: (Pair c m)
  show ?thesis
    using assms
    by (cases p) (auto simp: local_channel_defs local_channel_close_def local_waiting_def Let_def
          comp_def split: local_channel_splits)
qed

lemma local_channel_closed_step:
  assumes "local_channel_inv s" and "local_channel_step p s = (r, s')" and "is_closed (fst s)"
  shows "is_closed (fst s') \<and> accepted r = [] \<and> delivered r = [] \<and> given_back r = []"
proof (cases s)
  case [simp]: (Pair c m)
  show ?thesis
    using assms
    by (cases p) (auto simp: local_channel_defs local_channel_close_def local_channel_inv_def
          chan_shape_def handed_def Let_def split: local_channel_splits)
qed

lemma local_channel_given_back_closes:
  "local_channel_step p s = (r, s') \<Longrightarrow> given_back r \<noteq> [] \<Longrightarrow> is_closed (fst s')"
  by (cases s; cases p) (auto simp: local_channel_close_def Let_def split: prod.splits)

section \<open>The channel keeps the contracts\<close>

interpretation lch: fifo_channel local_channel_step call_ok local_channel_inv
  "\<lambda>s. queued (fst s) (snd s)" "\<lambda>s. is_closed (fst s)" accepted delivered given_back
  by unfold_locales
     (blast intro: local_channel_inv_step local_channel_fifo_step local_channel_closed_step
        local_channel_given_back_closes dest: local_channel_closed_step)+

interpretation lpark: parking local_channel_step call_ok local_channel_inv local_waiting
  suspended resumed
  by unfold_locales (rule local_channel_balance_step)

lemma local_channel_bounded_inv:
  assumes "pool_clean pool" and "local_channel_bounded sz cap pool = (c, pool')"
  shows "local_channel_inv (c, m) \<and> queued c m = [] \<and> local_waiting (c, m) = {#} \<and>
    \<not> is_closed c \<and> capacity c = cap \<and> pool_clean pool'"
  using assms deques_pool_get_clean[of pool sz]
  by (auto simp: local_channel_bounded_def local_channel_inv_def chan_shape_def waiters_live_def
        queued_def local_waiting_def waiting_senders_def waiting_receivers_def deques_new_def
        split: prod.splits)

lemma local_channel_unbounded_eq:
  "local_channel_unbounded sz pool = local_channel_bounded sz usize_max pool"
  by (simp add: local_channel_unbounded_def local_channel_bounded_def)

lemma local_channel_step_capacity:
  "local_channel_step p s = (r, s') \<Longrightarrow> capacity (fst s') = capacity (fst s)"
  by (cases s; cases p)
     (auto simp: local_channel_defs local_channel_close_def Let_def split: local_channel_splits)

lemma local_channel_run_capacity:
  "run_ops local_channel_step ps s = (os, s') \<Longrightarrow> capacity (fst s') = capacity (fst s)"
proof (induction ps arbitrary: s os)
  case (Cons p ps)
  then show ?case
    by (auto simp del: run_ops.simps simp: run_ops_Cons_eq dest: local_channel_step_capacity)
qed simp

section \<open>Properties\<close>

text \<open>
  C13. For every history of calls on a new bounded local channel (sends that park, receives that
  park, hand-overs, the try operations and closing), what was accepted, in the order of the
  calls, is what was delivered to receivers in that order, followed by what is still queued,
  followed by what closing gave back to the parked senders: first in, first out, with no value
  lost, duplicated or invented.
\<close>

theorem local_channel_fifo:
  assumes "pool_clean pool" and "local_channel_bounded sz cap pool = (c, pool')"
    and "oks call_ok local_channel_step ps (c, m)"
    and "run_ops local_channel_step ps (c, m) = (os, c', m')"
  shows "concat (map accepted os) =
    concat (map delivered os) @ queued c' m' @ concat (map given_back os)"
  using lch.run_fifo[OF _ assms(3,4)] local_channel_bounded_inv[OF assms(1,2), of m] by simp

text \<open>
  A full channel of capacity one: the second sender parks, a receive moves its value into the
  storage, a receiver parks on the drained channel and gets the value of a later send, and a
  sender parked on the full channel gets its value back on close.
\<close>

definition local_channel_demo :: "(nat, nat) chan_op list" where
  "local_channel_demo =
     [Send 1 10 100, Send 2 20 200, TryRecvIn 90, ResumeSend 2 20, RecvIn 3 30 91,
      RecvIn 4 40 92, TrySend 300, ResumeRecv 4 40 92, Send 5 50 400, Send 6 60 500, Close,
      ResumeSend 6 60, TryRecvIn 93]"

definition cells_empty :: "'v cells" where
  "cells_empty = \<lparr>send_state = (\<lambda>_. SendFirstCall), recv_state = (\<lambda>_. RecvFirstCall),
                  mem = (\<lambda>_. None)\<rparr>"

definition local_channel_demo_chan :: "(nat, nat) inner" where
  "local_channel_demo_chan = fst (local_channel_bounded 8 1 (\<lambda>_. []))"

lemma local_channel_demo_new:
  "pool_clean (\<lambda>_. [] :: nat deques list)"
  "local_channel_bounded 8 1 (\<lambda>_. []) =
     (local_channel_demo_chan, snd (local_channel_bounded 8 1 (\<lambda>_. []) :: (nat, nat) inner \<times> _))"
  by (simp_all add: pool_clean_def local_channel_demo_chan_def)

lemma local_channel_demo_ok:
  "oks call_ok local_channel_step local_channel_demo (local_channel_demo_chan, cells_empty)"
  "oks call_ok local_channel_step (take 10 local_channel_demo) (local_channel_demo_chan, cells_empty)"
  by code_simp+

lemma local_channel_demo_out:
  "concat (map accepted (fst (run_ops local_channel_step local_channel_demo
     (local_channel_demo_chan, cells_empty)))) = [100, 200, 300, 400, 500]"
  "concat (map delivered (fst (run_ops local_channel_step local_channel_demo
     (local_channel_demo_chan, cells_empty)))) = [100, 200, 300]"
  "concat (map suspended (fst (run_ops local_channel_step local_channel_demo
     (local_channel_demo_chan, cells_empty)))) = [2, 4, 6]"
  "waiting_senders (fst (snd (run_ops local_channel_step (take 10 local_channel_demo)
     (local_channel_demo_chan, cells_empty)))) = [Waiter 6 60 60]"
  by code_simp+

theorem local_channel_fifo_witness:
  "\<exists>os c' m'.
     run_ops local_channel_step local_channel_demo (local_channel_demo_chan, cells_empty)
       = (os, c', m') \<and>
     [100, 200, 300, 400, 500] =
       [100, 200, 300] @ queued c' m' @ concat (map given_back os)"
proof -
  obtain os c' m' where r: "run_ops local_channel_step local_channel_demo
      (local_channel_demo_chan, cells_empty) = (os, c', m')"
    using prod_cases3 by blast
  show ?thesis
    using local_channel_fifo[OF local_channel_demo_new local_channel_demo_ok(1) r]
      local_channel_demo_out r by auto
qed

text \<open>
  C14. In every state a bounded local channel can get into, no receiver waits while a value is
  stored or offered by a waiting sender, no sender waits while there is room, at most
  \<open>capacity\<close> values are stored, and a closed channel has no waiters: no hand-over is missed.
\<close>

theorem local_channel_no_missed_handover:
  assumes "pool_clean pool" and "local_channel_bounded sz cap pool = (c, pool')"
    and "oks call_ok local_channel_step ps (c, m)"
    and "run_ops local_channel_step ps (c, m) = (os, c', m')"
  shows "(waiting_receivers c' \<noteq> [] \<longrightarrow> queued c' m' = []) \<and>
    (waiting_senders c' \<noteq> [] \<longrightarrow> length (storage c') = cap) \<and>
    length (storage c') \<le> cap \<and>
    (is_closed c' \<longrightarrow> waiting_senders c' = [] \<and> waiting_receivers c' = [])"
proof -
  have "local_channel_inv (c', m')"
    using lch.run_inv[OF _ assms(3,4)] local_channel_bounded_inv[OF assms(1,2)] by blast
  moreover have "capacity c' = cap"
    using local_channel_run_capacity[OF assms(4)] local_channel_bounded_inv[OF assms(1,2)] by simp
  ultimately show ?thesis
    by (auto simp: local_channel_inv_def chan_shape_def queued_def)
qed

theorem local_channel_no_missed_handover_witness:
  "\<exists>os c' m'.
     run_ops local_channel_step (take 10 local_channel_demo) (local_channel_demo_chan, cells_empty)
       = (os, c', m') \<and>
     waiting_senders c' = [Waiter 6 60 60] \<and> length (storage c') = 1"
proof -
  obtain os c' m' where r: "run_ops local_channel_step (take 10 local_channel_demo)
      (local_channel_demo_chan, cells_empty) = (os, c', m')"
    using prod_cases3 by blast
  show ?thesis
    using local_channel_no_missed_handover[OF local_channel_demo_new local_channel_demo_ok(2) r]
      local_channel_demo_out r by auto
qed

text \<open>
  C15. Every task that parks on a local channel is resumed exactly once or is still in a deque:
  along any history, the number of times a task was parked is the number of times it was
  resumed plus the number of times it is waiting.
\<close>

theorem local_channel_tasks_resumed_once:
  assumes "pool_clean pool" and "local_channel_bounded sz cap pool = (c, pool')"
    and "oks call_ok local_channel_step ps (c, m)"
    and "run_ops local_channel_step ps (c, m) = (os, c', m')"
  shows "count (mset (concat (map resumed os))) t + count (local_waiting (c', m')) t
       = count (mset (concat (map suspended os))) t"
  using lpark.run_resumed_once[OF _ _ assms(3,4)] local_channel_bounded_inv[OF assms(1,2)]
  by blast

theorem local_channel_tasks_resumed_once_witness:
  "\<exists>os c' m'.
     run_ops local_channel_step local_channel_demo (local_channel_demo_chan, cells_empty)
       = (os, c', m') \<and>
     count (mset (concat (map resumed os))) 6 + count (local_waiting (c', m')) 6 = 1"
proof -
  obtain os c' m' where r: "run_ops local_channel_step local_channel_demo
      (local_channel_demo_chan, cells_empty) = (os, c', m')"
    using prod_cases3 by blast
  show ?thesis
    using local_channel_tasks_resumed_once[OF local_channel_demo_new local_channel_demo_ok(1) r, of 6]
      local_channel_demo_out r by auto
qed

end
