(* ===== verification/Shared_Channel.thy ===== *)
theory Shared_Channel
  imports Channel_Types
begin

text \<open>
  \<open>Channel\<close> (\<open>src/src/sync/channels/shared.rs\<close>): the channel shared by executors on several
  threads. Its state is behind a \<open>NaiveMutex\<close>; a hand-over to a waiting task happens after
  the lock is dropped, and a task that parks leaves the lock to the executor, which releases it
  after the poll returned. Those late actions are explicit here and interleave freely.
\<close>

section \<open>The channel and the late actions of a poll\<close>

record ('t, 'v) channel = "('t, 'v) inner" +
  ch_is_locked :: bool

definition channel_bounded ::
  "nat \<Rightarrow> nat \<Rightarrow> 't deques_pool \<Rightarrow> ('t, 'v) channel \<times> 't deques_pool" where
  "channel_bounded sz cap pool =
     (let (d, pool') = deques_pool_get sz pool
      in (\<lparr>storage = [], is_closed = False, capacity = cap, deques = d, ch_is_locked = False\<rparr>, pool'))"

definition channel_unbounded ::
  "nat \<Rightarrow> 't deques_pool \<Rightarrow> ('t, 'v) channel \<times> 't deques_pool" where
  "channel_unbounded sz pool =
     (let (d, pool') = deques_pool_get sz pool
      in (\<lparr>storage = [], is_closed = False, capacity = usize_max, deques = d, ch_is_locked = False\<rparr>,
          pool'))"

text \<open>
  What a call does after its critical section: \<open>copy_nonoverlapping\<close>, \<open>slot.write\<close>, the writes
  of the call states, \<open>exec_task\<close>, and the two calls to the executor.
\<close>

datatype ('t, 'v) post =
    CopyCell nat nat
  | WriteSlot nat 'v
  | SetRecvState nat recv_call_state
  | SetSendState nat send_call_state
  | Exec 't
  | ReleaseAtomicBool
  | PushCurrentTaskAtTheStart

text \<open>\<open>acquire_lock!\<close> and \<open>try_lock\<close>: the weak exchange, which fails when \<open>cas\<close> is false.\<close>

definition channel_try_lock :: "bool \<Rightarrow> ('t, 'v) channel \<Rightarrow> ('t, 'v) channel option" where
  "channel_try_lock cas c =
     (if \<not> ch_is_locked c \<and> cas then Some (c\<lparr>ch_is_locked := True\<rparr>) else None)"

definition channel_unlock :: "('t, 'v) channel \<Rightarrow> ('t, 'v) channel" where
  "channel_unlock c = c\<lparr>ch_is_locked := False\<rparr>"

lemma channel_lock_simps [simp]:
  "waiting_senders (channel_unlock c) = waiting_senders c"
  "waiting_receivers (channel_unlock c) = waiting_receivers c"
  "storage (channel_unlock c) = storage c"
  "is_closed (channel_unlock c) = is_closed c"
  "capacity (channel_unlock c) = capacity c"
  "ch_is_locked (channel_unlock c) = False"
  "waiting_senders (c\<lparr>ch_is_locked := b\<rparr>) = waiting_senders c"
  "waiting_receivers (c\<lparr>ch_is_locked := b\<rparr>) = waiting_receivers c"
  "ch_is_locked (set_senders ws c) = ch_is_locked c"
  "ch_is_locked (set_receivers ws c) = ch_is_locked c"
  by (simp_all add: channel_unlock_def waiting_senders_def waiting_receivers_def set_senders_def
        set_receivers_def)

section \<open>The futures\<close>

definition wait_send_new :: "nat \<Rightarrow> 'v \<Rightarrow> 'v cells \<Rightarrow> 'v cells" where
  "wait_send_new f v m = set_send_state f SendFirstCall (write_mem f (Some v) m)"

text \<open>
  A poll by a local task panics with debug assertions (\<open>panic_if_local_in_future!\<close>); \<open>local\<close>
  says whether the polling task is local.
\<close>

definition wait_send_poll ::
  "bool \<Rightarrow> bool \<Rightarrow> bool \<Rightarrow> 't \<Rightarrow> nat \<Rightarrow> ('t, 'v) channel \<Rightarrow> 'v cells \<Rightarrow>
   ('v send_result poll \<times> ('t, 'v) post list \<times> ('t, 'v) channel \<times> 'v cells) res" where
  "wait_send_poll dbg local cas t f c m =
     (if dbg \<and> local then Inl Asserted
      else case send_state m f of
        SendFirstCall \<Rightarrow>
          (case channel_try_lock cas c of
             None \<Rightarrow> Inr (Pending, [PushCurrentTaskAtTheStart], c, m)
           | Some lc \<Rightarrow>
               if is_closed lc
               then Inr (Ready (SendClosed (the (mem m f))), [], channel_unlock lc, m)
               else (case waiting_receivers lc of
                       Waiter task call_state slot # rest \<Rightarrow>
                         Inr (Ready SendOk,
                              [CopyCell f slot, SetRecvState call_state RecvWokenToReturnReady,
                               Exec task],
                              channel_unlock (set_receivers rest lc), m)
                     | [] \<Rightarrow>
                         if capacity lc \<le> length (storage lc)
                         then Inr (Pending, [ReleaseAtomicBool],
                                   set_senders (waiting_senders lc @ [Waiter t f f]) lc, m)
                         else Inr (Ready SendOk, [],
                                   channel_unlock (lc\<lparr>storage := storage lc @ [the (mem m f)]\<rparr>), m)))
      | SendWokenToReturnReady \<Rightarrow> Inr (Ready SendOk, [], c, m)
      | SendWokenByClose \<Rightarrow> Inr (Ready (SendClosed (the (mem m f))), [], c, m))"

definition wait_recv_new :: "nat \<Rightarrow> 'v cells \<Rightarrow> 'v cells" where
  "wait_recv_new f m = set_recv_state f RecvFirstCall m"

definition wait_recv_poll ::
  "bool \<Rightarrow> bool \<Rightarrow> bool \<Rightarrow> 't \<Rightarrow> nat \<Rightarrow> nat \<Rightarrow> ('t, 'v) channel \<Rightarrow> 'v cells \<Rightarrow>
   (recv_in_result poll \<times> ('t, 'v) post list \<times> ('t, 'v) channel \<times> 'v cells) res" where
  "wait_recv_poll dbg local cas t f slot c m =
     (if dbg \<and> local then Inl Asserted
      else case recv_state m f of
        RecvFirstCall \<Rightarrow>
          (case channel_try_lock cas c of
             None \<Rightarrow> Inr (Pending, [PushCurrentTaskAtTheStart], c, m)
           | Some lc \<Rightarrow>
               if is_closed lc then Inr (Ready RecvInClosed, [], channel_unlock lc, m)
               else (case storage lc of
                       [] \<Rightarrow>
                         (case waiting_senders lc of
                            Waiter task call_state value_ptr # rest \<Rightarrow>
                              Inr (Ready RecvInOk,
                                   [CopyCell value_ptr slot,
                                    SetSendState call_state SendWokenToReturnReady, Exec task],
                                   channel_unlock (set_senders rest lc), m)
                          | [] \<Rightarrow>
                              Inr (Pending, [ReleaseAtomicBool],
                                   set_receivers (waiting_receivers lc @ [Waiter t f slot]) lc, m))
                     | v # vs \<Rightarrow>
                         (let m' = write_mem slot (Some v) m
                          in case waiting_senders lc of
                               Waiter task call_state value_ptr # rest \<Rightarrow>
                                 Inr (Ready RecvInOk,
                                      [SetSendState call_state SendWokenToReturnReady, Exec task],
                                      channel_unlock (set_senders rest
                                        (lc\<lparr>storage := vs @ [the (mem m' value_ptr)]\<rparr>)), m')
                             | [] \<Rightarrow>
                                 Inr (Ready RecvInOk, [], channel_unlock (lc\<lparr>storage := vs\<rparr>), m'))))
      | RecvWokenToReturnReady \<Rightarrow> Inr (Ready RecvInOk, [], c, m)
      | RecvWokenByClose \<Rightarrow> Inr (Ready RecvInClosed, [], c, m))"

section \<open>close, try_send and try_recv_in_ptr\<close>

text \<open>
  The body of \<open>close\<close> once \<open>inner.lock().await\<close> returned; before that, \<open>lock\<close> only retries.
  The woken tasks go to the queue of shared tasks while the lock is held.
\<close>

definition channel_close ::
  "bool \<Rightarrow> ('t, 'v) channel \<Rightarrow> 'v cells \<Rightarrow> 't wake list \<times> ('t, 'v) channel \<times> 'v cells" where
  "channel_close cas c m =
     (case channel_try_lock cas c of
        None \<Rightarrow> ([], c, m)
      | Some lc \<Rightarrow>
          (map (\<lambda>w. SpawnSharedTask (waiter_task w)) (waiting_senders lc) @
           map (\<lambda>w. SpawnSharedTask (waiter_task w)) (waiting_receivers lc),
           channel_unlock (set_receivers [] (set_senders [] (lc\<lparr>is_closed := True\<rparr>))),
           fold (\<lambda>w. set_recv_state (waiter_state w) RecvWokenByClose) (waiting_receivers lc)
             (fold (\<lambda>w. set_send_state (waiter_state w) SendWokenByClose) (waiting_senders lc) m)))"

definition channel_try_send ::
  "bool \<Rightarrow> 'v \<Rightarrow> ('t, 'v) channel \<Rightarrow> 'v cells \<Rightarrow>
   'v try_send_result \<times> ('t, 'v) post list \<times> ('t, 'v) channel \<times> 'v cells" where
  "channel_try_send cas v c m =
     (case channel_try_lock cas c of
        None \<Rightarrow> (TrySendLocked v, [], c, m)
      | Some lc \<Rightarrow>
          if is_closed lc then (TrySendClosed v, [], channel_unlock lc, m)
          else (case waiting_receivers lc of
                  Waiter task call_state slot # rest \<Rightarrow>
                    (TrySendOk,
                     [WriteSlot slot v, SetRecvState call_state RecvWokenToReturnReady, Exec task],
                     channel_unlock (set_receivers rest lc), m)
                | [] \<Rightarrow>
                    if capacity lc \<le> length (storage lc)
                    then (TrySendFull v, [], channel_unlock lc, m)
                    else (TrySendOk, [], channel_unlock (lc\<lparr>storage := storage lc @ [v]\<rparr>), m)))"

definition channel_try_recv_in_ptr ::
  "bool \<Rightarrow> nat \<Rightarrow> ('t, 'v) channel \<Rightarrow> 'v cells \<Rightarrow>
   try_recv_in_result \<times> ('t, 'v) post list \<times> ('t, 'v) channel \<times> 'v cells" where
  "channel_try_recv_in_ptr cas slot c m =
     (case channel_try_lock cas c of
        None \<Rightarrow> (TryRecvInLocked, [], c, m)
      | Some lc \<Rightarrow>
          if is_closed lc then (TryRecvInClosed, [], channel_unlock lc, m)
          else (case storage lc of
                  [] \<Rightarrow>
                    (case waiting_senders lc of
                       Waiter task call_state value_ptr # rest \<Rightarrow>
                         (TryRecvInOk,
                          [CopyCell value_ptr slot,
                           SetSendState call_state SendWokenToReturnReady, Exec task],
                          channel_unlock (set_senders rest lc), m)
                     | [] \<Rightarrow> (TryRecvInEmpty, [], channel_unlock lc, m))
                | v # vs \<Rightarrow>
                    (let m' = write_mem slot (Some v) m
                     in case waiting_senders lc of
                          Waiter task call_state value_ptr # rest \<Rightarrow>
                            (TryRecvInOk,
                             [SetSendState call_state SendWokenToReturnReady, Exec task],
                             channel_unlock (set_senders rest
                               (lc\<lparr>storage := vs @ [the (mem m' value_ptr)]\<rparr>)), m')
                        | [] \<Rightarrow> (TryRecvInOk, [], channel_unlock (lc\<lparr>storage := vs\<rparr>), m'))))"

section \<open>Threads on a channel\<close>

text \<open>
  A world is the channel, the memory, and for each thread the actions it has still to do from
  its last call. \<open>w_owed\<close> is a ghost: the value a thread took from the channel and is about to
  write to a slot.
\<close>

record ('t, 'v) chan_world =
  w_chan :: "('t, 'v) channel"
  w_cells :: "'v cells"
  w_posts :: "('t, 'v) post list list"
  w_owed :: "nat \<Rightarrow> 'v option"

datatype ('t, 'v) world_op = Call nat bool "('t, 'v) chan_op" | Post nat

text \<open>The value a call took and has still to write.\<close>

fun taken :: "('t, 'v) post list \<Rightarrow> 'v cells \<Rightarrow> 'v option" where
  "taken (CopyCell a b # ps) m = mem m a"
| "taken (WriteSlot b v # ps) m = Some v"
| "taken _ m = None"

definition sent :: "send_call_state \<Rightarrow> 'v option \<Rightarrow> 'v send_result poll \<Rightarrow> ('t, 'v) post list \<Rightarrow> 'v list" where
  "sent s v r ps =
     (if s = SendFirstCall \<and> (case r of Ready SendOk \<Rightarrow> True | Ready _ \<Rightarrow> False
                              | Pending \<Rightarrow> ps = [ReleaseAtomicBool])
      then opt_list v else [])"

definition parked :: "'t \<Rightarrow> ('t, 'v) post list \<Rightarrow> 't list" where
  "parked t ps = (if ps = [ReleaseAtomicBool] then [t] else [])"

fun channel_call ::
  "bool \<Rightarrow> ('t, 'v) chan_op \<Rightarrow> ('t, 'v) channel \<times> 'v cells \<Rightarrow>
   ('t, 'v) chan_report \<times> ('t, 'v) post list \<times> ('t, 'v) channel \<times> 'v cells" where
  "channel_call cas (Send t f v) (c, m) =
     (let m1 = wait_send_new f v m
      in case projr (wait_send_poll True False cas t f c m1) of (r, ps, c', m') \<Rightarrow>
        (\<lparr>result = SendRes r, accepted = sent SendFirstCall (Some v) r ps,
          delivered = opt_list (taken ps m'), given_back = [], suspended = parked t ps,
          resumed = []\<rparr>, ps, c', m'))"
| "channel_call cas (ResumeSend t f) (c, m) =
     (case projr (wait_send_poll True False cas t f c m) of (r, ps, c', m') \<Rightarrow>
        (\<lparr>result = SendRes r, accepted = sent (send_state m f) (mem m f) r ps,
          delivered = opt_list (taken ps m'), given_back = [], suspended = parked t ps,
          resumed = []\<rparr>, ps, c', m'))"
| "channel_call cas (RecvIn t f slot) (c, m) =
     (case projr (wait_recv_poll True False cas t f slot c (wait_recv_new f m)) of (r, ps, c', m') \<Rightarrow>
        (\<lparr>result = RecvRes r, accepted = [],
          delivered = (case taken ps m' of Some v \<Rightarrow> [v]
                       | None \<Rightarrow> if r = Ready RecvInOk then [the (mem m' slot)] else []),
          given_back = [], suspended = parked t ps, resumed = []\<rparr>, ps, c', m'))"
| "channel_call cas (ResumeRecv t f slot) (c, m) =
     (case projr (wait_recv_poll True False cas t f slot c m) of (r, ps, c', m') \<Rightarrow>
        (\<lparr>result = RecvRes r, accepted = [],
          delivered = (case taken ps m' of Some v \<Rightarrow> [v]
                       | None \<Rightarrow> if r = Ready RecvInOk \<and> recv_state m f = RecvFirstCall
                                 then [the (mem m' slot)] else []),
          given_back = [], suspended = parked t ps, resumed = []\<rparr>, ps, c', m'))"
| "channel_call cas (TrySend v) (c, m) =
     (case channel_try_send cas v c m of (r, ps, c', m') \<Rightarrow>
        (\<lparr>result = TrySendRes r, accepted = (if r = TrySendOk then [v] else []),
          delivered = opt_list (taken ps m'), given_back = [], suspended = [], resumed = []\<rparr>,
         ps, c', m'))"
| "channel_call cas (TryRecvIn slot) (c, m) =
     (case channel_try_recv_in_ptr cas slot c m of (r, ps, c', m') \<Rightarrow>
        (\<lparr>result = TryRecvRes r, accepted = [],
          delivered = (case taken ps m' of Some v \<Rightarrow> [v]
                       | None \<Rightarrow> if r = TryRecvInOk then [the (mem m' slot)] else []),
          given_back = [], suspended = [], resumed = []\<rparr>, ps, c', m'))"
| "channel_call cas Close (c, m) =
     (case channel_close cas c m of (w, c', m') \<Rightarrow>
        (\<lparr>result = CloseRes, accepted = [], delivered = [],
          given_back = (if is_closed c' then map (\<lambda>x. the (mem m' (waiter_ptr x))) (waiting_senders c)
                        else []),
          suspended = [], resumed = map woken w\<rparr>, [], c', m'))"

text \<open>One late action.\<close>

fun run_post ::
  "('t, 'v) post \<Rightarrow> ('t, 'v) channel \<times> 'v cells \<Rightarrow> 't list \<times> ('t, 'v) channel \<times> 'v cells" where
  "run_post (CopyCell a b) (c, m) = ([], c, write_mem b (mem m a) m)"
| "run_post (WriteSlot b v) (c, m) = ([], c, write_mem b (Some v) m)"
| "run_post (SetRecvState a x) (c, m) = ([], c, set_recv_state a x m)"
| "run_post (SetSendState a x) (c, m) = ([], c, set_send_state a x m)"
| "run_post (Exec t) (c, m) = ([t], c, m)"
| "run_post ReleaseAtomicBool (c, m) = ([], channel_unlock c, m)"
| "run_post PushCurrentTaskAtTheStart (c, m) = ([], c, m)"

definition quiet_report :: "('t, 'v) chan_report" where
  "quiet_report = \<lparr>result = CloseRes, accepted = [], delivered = [], given_back = [],
                   suspended = [], resumed = []\<rparr>"

fun channel_step ::
  "('t, 'v) world_op \<Rightarrow> ('t, 'v) chan_world \<Rightarrow> ('t, 'v) chan_report \<times> ('t, 'v) chan_world" where
  "channel_step (Call p cas q) w =
     (case channel_call cas q (w_chan w, w_cells w) of (r, ps, c', m') \<Rightarrow>
        (r, w\<lparr>w_chan := c', w_cells := m', w_posts := (w_posts w)[p := ps],
              w_owed := (w_owed w)(p := taken ps m')\<rparr>))"
| "channel_step (Post p) w =
     (case w_posts w ! p of
        [] \<Rightarrow> (quiet_report, w)
      | x # ps \<Rightarrow>
          (case run_post x (w_chan w, w_cells w) of (ts, c', m') \<Rightarrow>
             (quiet_report\<lparr>resumed := ts\<rparr>,
              w\<lparr>w_chan := c', w_cells := m', w_posts := (w_posts w)[p := ps]\<rparr>)))"

section \<open>The invariant of a world\<close>

text \<open>Addresses of values, of receive states and of send states that late actions still use.\<close>

fun post_mem :: "('t, 'v) post \<Rightarrow> nat set" where
  "post_mem (CopyCell a b) = {a, b}"
| "post_mem (WriteSlot b v) = {b}"
| "post_mem _ = {}"

fun post_recv :: "('t, 'v) post \<Rightarrow> nat set" where
  "post_recv (SetRecvState a x) = {a}"
| "post_recv _ = {}"

fun post_send :: "('t, 'v) post \<Rightarrow> nat set" where
  "post_send (SetSendState a x) = {a}"
| "post_send _ = {}"

definition posts_mem :: "('t, 'v) post list \<Rightarrow> nat set" where
  "posts_mem ps = (\<Union>x \<in> set ps. post_mem x)"

definition posts_recv :: "('t, 'v) post list \<Rightarrow> nat set" where
  "posts_recv ps = (\<Union>x \<in> set ps. post_recv x)"

definition posts_send :: "('t, 'v) post list \<Rightarrow> nat set" where
  "posts_send ps = (\<Union>x \<in> set ps. post_send x)"

lemma posts_addr_simps [simp]:
  "posts_mem [] = {}" "posts_mem (x # ps) = post_mem x \<union> posts_mem ps"
  "posts_recv [] = {}" "posts_recv (x # ps) = post_recv x \<union> posts_recv ps"
  "posts_send [] = {}" "posts_send (x # ps) = post_send x \<union> posts_send ps"
  by (simp_all add: posts_mem_def posts_recv_def posts_send_def)

text \<open>The forms the rest of a call can have; a task is executed last, after its state is set.\<close>

definition posts_shape :: "('t, 'v) post list \<Rightarrow> bool" where
  "posts_shape ps \<longleftrightarrow>
     ps = [] \<or> ps = [ReleaseAtomicBool] \<or> ps = [PushCurrentTaskAtTheStart] \<or>
     (\<exists>t. ps = [Exec t] \<or>
        (\<exists>s. ps = [SetRecvState s RecvWokenToReturnReady, Exec t] \<or>
             ps = [SetSendState s SendWokenToReturnReady, Exec t] \<or>
             (\<exists>b v. ps = [WriteSlot b v, SetRecvState s RecvWokenToReturnReady, Exec t]) \<or>
             (\<exists>a b. a \<noteq> b \<and>
                (ps = [CopyCell a b, SetRecvState s RecvWokenToReturnReady, Exec t] \<or>
                 ps = [CopyCell a b, SetSendState s SendWokenToReturnReady, Exec t]))))"

lemma posts_shape_simps [simp]:
  "posts_shape []"
  "posts_shape [ReleaseAtomicBool]"
  "posts_shape [PushCurrentTaskAtTheStart]"
  "posts_shape [Exec t]"
  "posts_shape [SetRecvState s RecvWokenToReturnReady, Exec t]"
  "posts_shape [SetSendState s SendWokenToReturnReady, Exec t]"
  "posts_shape [WriteSlot b v, SetRecvState s RecvWokenToReturnReady, Exec t]"
  "posts_shape [CopyCell a b, SetRecvState s RecvWokenToReturnReady, Exec t] \<longleftrightarrow> a \<noteq> b"
  "posts_shape [CopyCell a b, SetSendState s SendWokenToReturnReady, Exec t] \<longleftrightarrow> a \<noteq> b"
  by (auto simp: posts_shape_def)

definition flight_mem :: "('t, 'v) chan_world \<Rightarrow> nat set" where
  "flight_mem w = (\<Union>ps \<in> set (w_posts w). posts_mem ps)"

definition flight_recv :: "('t, 'v) chan_world \<Rightarrow> nat set" where
  "flight_recv w = (\<Union>ps \<in> set (w_posts w). posts_recv ps)"

definition flight_send :: "('t, 'v) chan_world \<Rightarrow> nat set" where
  "flight_send w = (\<Union>ps \<in> set (w_posts w). posts_send ps)"

text \<open>
  What the callers guarantee: a new future and an exclusive slot overlap nothing a waiter or a
  late action uses, and a parked task is polled only after it was executed.
\<close>

fun fresh_call ::
  "nat set \<Rightarrow> nat set \<Rightarrow> nat set \<Rightarrow> ('t, 'v) chan_op \<Rightarrow> ('t, 'v) channel \<Rightarrow> 'v cells \<Rightarrow> bool" where
  "fresh_call Fm Fr Fs (Send t f v) c m \<longleftrightarrow> slot_free f c \<and> f \<notin> Fm \<and> f \<notin> Fs"
| "fresh_call Fm Fr Fs (ResumeSend t f) c m \<longleftrightarrow>
     (send_state m f = SendFirstCall \<longrightarrow> slot_free f c \<and> f \<notin> Fm \<and> f \<notin> Fs \<and> mem m f \<noteq> None)"
| "fresh_call Fm Fr Fs (RecvIn t f slot) c m \<longleftrightarrow>
     slot_free slot c \<and> f \<notin> waiter_state ` set (waiting_receivers c) \<and> slot \<notin> Fm \<and> f \<notin> Fr"
| "fresh_call Fm Fr Fs (ResumeRecv t f slot) c m \<longleftrightarrow>
     (recv_state m f = RecvFirstCall \<longrightarrow>
        slot_free slot c \<and> f \<notin> waiter_state ` set (waiting_receivers c) \<and> slot \<notin> Fm \<and> f \<notin> Fr)"
| "fresh_call Fm Fr Fs (TrySend v) c m \<longleftrightarrow> True"
| "fresh_call Fm Fr Fs (TryRecvIn slot) c m \<longleftrightarrow> slot_free slot c \<and> slot \<notin> Fm"
| "fresh_call Fm Fr Fs Close c m \<longleftrightarrow> True"

fun world_ok :: "('t, 'v) world_op \<Rightarrow> ('t, 'v) chan_world \<Rightarrow> bool" where
  "world_ok (Call p cas q) w \<longleftrightarrow>
     p < length (w_posts w) \<and> w_posts w ! p = [] \<and>
     fresh_call (flight_mem w) (flight_recv w) (flight_send w) q (w_chan w) (w_cells w)"
| "world_ok (Post p) w \<longleftrightarrow> p < length (w_posts w) \<and> w_posts w ! p \<noteq> []"

definition clear_of ::
  "nat set \<Rightarrow> nat set \<Rightarrow> nat set \<Rightarrow> ('t, 'v) channel \<Rightarrow> bool" where
  "clear_of Fm Fr Fs c \<longleftrightarrow>
     (\<forall>w \<in> set (waiting_receivers c). waiter_ptr w \<notin> Fm \<and> waiter_state w \<notin> Fr) \<and>
     (\<forall>w \<in> set (waiting_senders c). waiter_ptr w \<notin> Fm \<and> waiter_state w \<notin> Fs)"

section \<open>The effect of one call\<close>

text \<open>
  Stated relative to any sets of addresses that are in use elsewhere, so that it serves every
  other thread at once.
\<close>

definition call_effect ::
  "nat set \<Rightarrow> nat set \<Rightarrow> nat set \<Rightarrow> ('t, 'v) post list \<Rightarrow>
   ('t, 'v) channel \<Rightarrow> 'v cells \<Rightarrow> ('t, 'v) channel \<Rightarrow> 'v cells \<Rightarrow> bool" where
  "call_effect Fm Fr Fs ps c m c' m' \<longleftrightarrow>
     chan_shape c' \<and> waiters_live c' m' \<and> posts_shape ps \<and>
     clear_of (Fm \<union> posts_mem ps) (Fr \<union> posts_recv ps) (Fs \<union> posts_send ps) c' \<and>
     (\<forall>a \<in> posts_mem ps. a \<notin> Fm) \<and> (\<forall>a \<in> Fm. mem m' a = mem m a) \<and>
     (posts_mem ps \<noteq> {} \<longrightarrow> taken ps m' \<noteq> None) \<and>
     ch_is_locked c' = (ch_is_locked c \<or> ps = [ReleaseAtomicBool]) \<and>
     (ch_is_locked c \<longrightarrow> ps \<noteq> [ReleaseAtomicBool])"

lemmas channel_defs = wait_send_new_def wait_send_poll_def wait_recv_new_def wait_recv_poll_def
  channel_try_send_def channel_try_recv_in_ptr_def channel_try_lock_def sent_def parked_def

lemmas channel_splits = send_call_state.splits recv_call_state.splits list.splits
  if_splits prod.splits waiter.splits option.splits

lemmas effect_defs = call_effect_def clear_of_def chan_shape_def waiters_live_def
  slot_free_def

lemma wait_send_poll_effect:
  assumes "chan_shape c" "waiters_live c m" "clear_of Fm Fr Fs c"
    and "send_state m f = SendFirstCall \<Longrightarrow> slot_free f c \<and> f \<notin> Fm \<and> f \<notin> Fs \<and> mem m f \<noteq> None"
    and "wait_send_poll True False cas t f c m = Inr (r, ps, c', m')"
  shows "call_effect Fm Fr Fs ps c m c' m'"
proof (cases "send_state m f")
  case SendFirstCall
  note fresh = assms(4)[OF this]
  show ?thesis
  proof (cases "\<not> ch_is_locked c \<and> cas \<and> \<not> is_closed c")
    case False
    then show ?thesis using assms(1-3,5) SendFirstCall
      by (auto simp: wait_send_poll_def channel_try_lock_def effect_defs split: if_splits)
  next
    case opn: True
    show ?thesis
    proof (cases "waiting_receivers c")
      case (Cons w ws)
      then show ?thesis using assms(1-3,5) SendFirstCall opn fresh
        by (cases w) (auto simp: wait_send_poll_def channel_try_lock_def effect_defs)
    next
      case Nil
      then show ?thesis using assms(1-3,5) SendFirstCall opn fresh
        by (auto simp: wait_send_poll_def channel_try_lock_def effect_defs split: if_splits)
    qed
  qed
qed (use assms in \<open>auto simp: wait_send_poll_def effect_defs\<close>)

lemma wait_recv_poll_effect:
  assumes "chan_shape c" "waiters_live c m" "clear_of Fm Fr Fs c"
    and "recv_state m f = RecvFirstCall \<Longrightarrow>
      slot_free slot c \<and> f \<notin> waiter_state ` set (waiting_receivers c) \<and> slot \<notin> Fm \<and> f \<notin> Fr"
    and "wait_recv_poll True False cas t f slot c m = Inr (r, ps, c', m')"
  shows "call_effect Fm Fr Fs ps c m c' m'"
proof (cases "recv_state m f")
  case RecvFirstCall
  note fresh = assms(4)[OF this]
  show ?thesis
  proof (cases "\<not> ch_is_locked c \<and> cas \<and> \<not> is_closed c")
    case False
    then show ?thesis using assms(1-3,5) RecvFirstCall
      by (auto simp: wait_recv_poll_def channel_try_lock_def effect_defs split: if_splits)
  next
    case opn: True
    show ?thesis
    proof (cases "storage c"; cases "waiting_senders c")
      assume "storage c = []" "waiting_senders c = []"
      then show ?thesis using assms(1-3,5) RecvFirstCall opn fresh
        by (auto simp: wait_recv_poll_def channel_try_lock_def effect_defs)
    next
      fix w ws
      assume "storage c = []" "waiting_senders c = w # ws"
      then show ?thesis using assms(1-3,5) RecvFirstCall opn fresh
        by (cases w) (auto simp: wait_recv_poll_def channel_try_lock_def effect_defs)
    next
      fix v vs
      assume "storage c = v # vs" "waiting_senders c = []"
      then show ?thesis using assms(1-3,5) RecvFirstCall opn fresh
        by (auto simp: wait_recv_poll_def channel_try_lock_def effect_defs)
    next
      fix v vs w ws
      assume "storage c = v # vs" "waiting_senders c = w # ws"
      then show ?thesis using assms(1-3,5) RecvFirstCall opn fresh
        by (cases w) (auto simp: wait_recv_poll_def channel_try_lock_def effect_defs Let_def)
    qed
  qed
qed (use assms in \<open>auto simp: wait_recv_poll_def effect_defs\<close>)

lemma channel_try_recv_effect:
  assumes "chan_shape c" "waiters_live c m" "clear_of Fm Fr Fs c"
    and "slot_free slot c" "slot \<notin> Fm"
    and "channel_try_recv_in_ptr cas slot c m = (r, ps, c', m')"
  shows "call_effect Fm Fr Fs ps c m c' m'"
  using assms
  by (auto simp: channel_try_recv_in_ptr_def channel_try_lock_def effect_defs Let_def
        split: list.splits if_splits waiter.splits option.splits)

lemma channel_try_send_effect:
  assumes "chan_shape c" "waiters_live c m" "clear_of Fm Fr Fs c"
    and "channel_try_send cas v c m = (r, ps, c', m')"
  shows "call_effect Fm Fr Fs ps c m c' m'"
  using assms
  by (auto simp: channel_try_send_def channel_try_lock_def effect_defs
        split: list.splits if_splits waiter.splits option.splits)

lemma channel_close_effect:
  assumes "chan_shape c" "waiters_live c m" "clear_of Fm Fr Fs c"
    and "channel_close cas c m = (ws, c', m')"
  shows "call_effect Fm Fr Fs [] c m c' m'"
proof (cases "channel_try_lock cas c")
  case None
  with assms show ?thesis by (auto simp: channel_close_def effect_defs)
next
  case (Some lc)
  with assms show ?thesis
    by (auto simp: channel_close_def channel_try_lock_def effect_defs split: if_splits)
qed

lemma wait_poll_total:
  "\<exists>x. wait_send_poll True False cas t f c m = Inr x"
  "\<exists>x. wait_recv_poll True False cas t f slot c m = Inr x"
  by (simp_all add: wait_send_poll_def wait_recv_poll_def Let_def split: send_call_state.splits
        recv_call_state.splits option.splits list.splits waiter.splits)

lemma wait_poll_projr:
  "wait_send_poll True False cas t f c m = Inr (projr (wait_send_poll True False cas t f c m))"
  "wait_recv_poll True False cas t f slot c m = Inr (projr (wait_recv_poll True False cas t f slot c m))"
  using wait_poll_total(1)[of cas t f c m] wait_poll_total(2)[of cas t f slot c m] by auto

lemma waiters_live_new:
  "waiters_live c m \<Longrightarrow> slot_free f c \<Longrightarrow> waiters_live c (wait_send_new f v m)"
  "waiters_live c m \<Longrightarrow> waiters_live c (wait_recv_new f m)"
  by (auto simp: waiters_live_def slot_free_def wait_send_new_def wait_recv_new_def image_iff)

lemma channel_call_effect:
  assumes inv: "chan_shape c" "waiters_live c m" "clear_of Fm Fr Fs c"
    and fresh: "fresh_call Fm Fr Fs q c m"
    and call: "channel_call cas q (c, m) = (r, ps, c', m')"
  shows "call_effect Fm Fr Fs ps c m c' m'"
proof (cases q)
  case (Send t f v)
  then obtain x where "wait_send_poll True False cas t f c (wait_send_new f v m) = Inr (x, ps, c', m')"
    using call wait_poll_projr(1)[of cas t f c "wait_send_new f v m"]
    by (auto simp: Let_def split: prod.splits)
  from wait_send_poll_effect[OF inv(1) waiters_live_new(1)[OF inv(2)] inv(3) _ this] fresh Send
  have "call_effect Fm Fr Fs ps c (wait_send_new f v m) c' m'"
    by (simp add: wait_send_new_def)
  with fresh Send show ?thesis by (auto simp: call_effect_def wait_send_new_def)
next
  case (ResumeSend t f)
  then obtain x where "wait_send_poll True False cas t f c m = Inr (x, ps, c', m')"
    using call wait_poll_projr(1)[of cas t f c m] by (auto split: prod.splits)
  from wait_send_poll_effect[OF inv _ this] fresh ResumeSend show ?thesis by simp
next
  case (RecvIn t f slot)
  then obtain x where "wait_recv_poll True False cas t f slot c (wait_recv_new f m) = Inr (x, ps, c', m')"
    using call wait_poll_projr(2)[of cas t f slot c "wait_recv_new f m"] by (auto split: prod.splits)
  from wait_recv_poll_effect[OF inv(1) waiters_live_new(2)[OF inv(2)] inv(3) _ this] fresh RecvIn
  have "call_effect Fm Fr Fs ps c (wait_recv_new f m) c' m'" by simp
  then show ?thesis by (auto simp: call_effect_def wait_recv_new_def)
next
  case (ResumeRecv t f slot)
  then obtain x where "wait_recv_poll True False cas t f slot c m = Inr (x, ps, c', m')"
    using call wait_poll_projr(2)[of cas t f slot c m] by (auto split: prod.splits)
  from wait_recv_poll_effect[OF inv _ this] fresh ResumeRecv show ?thesis by simp
next
  case (TrySend v)
  with channel_try_send_effect[OF inv, of cas v] call show ?thesis by (auto split: prod.splits)
next
  case (TryRecvIn slot)
  with channel_try_recv_effect[OF inv, of slot cas] fresh call show ?thesis
    by (auto split: prod.splits)
next
  case Close
  with channel_close_effect[OF inv, of cas] call show ?thesis by (auto split: prod.splits)
qed

section \<open>First in, first out, per call\<close>

lemma wait_send_poll_fifo:
  assumes "chan_shape c"
    and "send_state m f = SendFirstCall \<Longrightarrow> mem m f \<noteq> None"
    and "wait_send_poll True False cas t f c m = Inr (r, ps, c', m')"
  shows "queued c m @ sent (send_state m f) (mem m f) r ps = opt_list (taken ps m') @ queued c' m'"
  using assms
  by (auto simp: wait_send_poll_def channel_try_lock_def chan_shape_def queued_def sent_def
        split: send_call_state.splits list.splits if_splits waiter.splits option.splits)

lemma wait_recv_poll_fifo:
  assumes "chan_shape c" "waiters_live c m"
    and "recv_state m f = RecvFirstCall \<Longrightarrow> slot_free slot c"
    and "wait_recv_poll True False cas t f slot c m = Inr (r, ps, c', m')"
  shows "queued c m =
    (case taken ps m' of Some v \<Rightarrow> [v]
     | None \<Rightarrow> if r = Ready RecvInOk \<and> recv_state m f = RecvFirstCall then [the (mem m' slot)] else [])
    @ queued c' m'"
proof (cases "recv_state m f = RecvFirstCall \<and> \<not> ch_is_locked c \<and> cas \<and> \<not> is_closed c")
  case False
  with assms(1,4) show ?thesis
    by (auto simp: wait_recv_poll_def channel_try_lock_def queued_def
          split: recv_call_state.splits if_splits)
next
  case True
  show ?thesis
  proof (cases "storage c"; cases "waiting_senders c")
    fix w ws
    assume "storage c = []" "waiting_senders c = w # ws"
    with assms True show ?thesis
      by (cases w) (auto simp: wait_recv_poll_def channel_try_lock_def queued_def waiters_live_def)
  next
    fix v vs w ws
    assume "storage c = v # vs" "waiting_senders c = w # ws"
    with assms True show ?thesis
      by (cases w) (auto simp: wait_recv_poll_def channel_try_lock_def queued_def waiters_live_def
            slot_free_def)
  qed (use assms True in \<open>auto simp: wait_recv_poll_def channel_try_lock_def queued_def\<close>)
qed

lemma queued_new:
  "slot_free f c \<Longrightarrow> queued c (wait_send_new f v m) = queued c m"
  "queued c (wait_recv_new f m) = queued c m"
  by (auto simp: queued_def slot_free_def wait_send_new_def wait_recv_new_def)

lemma channel_call_fifo:
  assumes inv: "chan_shape c" "waiters_live c m"
    and fresh: "fresh_call Fm Fr Fs q c m"
    and call: "channel_call cas q (c, m) = (r, ps, c', m')"
  shows "queued c m @ accepted r = delivered r @ queued c' m' @ given_back r"
proof (cases q)
  case (Send t f v)
  then obtain x where poll: "wait_send_poll True False cas t f c (wait_send_new f v m) = Inr (x, ps, c', m')"
    using call wait_poll_projr(1)[of cas t f c "wait_send_new f v m"]
    by (auto simp: Let_def split: prod.splits)
  from wait_send_poll_fifo[OF inv(1) _ poll] fresh call Send poll queued_new(1)[of f c v m]
  show ?thesis by (auto simp: Let_def wait_send_new_def)
next
  case (ResumeSend t f)
  then obtain x where poll: "wait_send_poll True False cas t f c m = Inr (x, ps, c', m')"
    using call wait_poll_projr(1)[of cas t f c m] by (auto split: prod.splits)
  from wait_send_poll_fifo[OF inv(1) _ poll] fresh call ResumeSend poll show ?thesis by auto
next
  case (RecvIn t f slot)
  then obtain x where poll: "wait_recv_poll True False cas t f slot c (wait_recv_new f m) = Inr (x, ps, c', m')"
    using call wait_poll_projr(2)[of cas t f slot c "wait_recv_new f m"] by (auto split: prod.splits)
  have "recv_state (wait_recv_new f m) f = RecvFirstCall" by (simp add: wait_recv_new_def)
  with wait_recv_poll_fifo[OF inv(1) waiters_live_new(2)[OF inv(2)] _ poll] fresh call RecvIn poll
  show ?thesis by (auto simp: queued_new)
next
  case (ResumeRecv t f slot)
  then obtain x where poll: "wait_recv_poll True False cas t f slot c m = Inr (x, ps, c', m')"
    using call wait_poll_projr(2)[of cas t f slot c m] by (auto split: prod.splits)
  from wait_recv_poll_fifo[OF inv _ poll] fresh call ResumeRecv poll show ?thesis by auto
next
  case (TrySend v)
  with inv call show ?thesis
    by (auto simp: channel_try_send_def channel_try_lock_def chan_shape_def queued_def
          split: list.splits if_splits waiter.splits option.splits)
next
  case (TryRecvIn slot)
  with inv fresh call show ?thesis
    by (auto simp: channel_try_recv_in_ptr_def channel_try_lock_def waiters_live_def queued_def
          slot_free_def Let_def split: list.splits if_splits waiter.splits option.splits)
next
  case Close
  with inv call show ?thesis
    by (auto simp: channel_close_def channel_try_lock_def chan_shape_def queued_def
          split: if_splits option.splits)
qed

text \<open>The tasks that the late actions of a thread will execute.\<close>

fun exec_of :: "('t, 'v) post \<Rightarrow> 't list" where
  "exec_of (Exec t) = [t]"
| "exec_of _ = []"

definition chan_tasks :: "('t, 'v, 'z) inner_scheme \<Rightarrow> 't multiset" where
  "chan_tasks c = mset (map waiter_task (waiting_senders c)) + mset (map waiter_task (waiting_receivers c))"

lemma chan_tasks_simps [simp]:
  "chan_tasks (channel_unlock c) = chan_tasks c"
  "chan_tasks (c\<lparr>ch_is_locked := b\<rparr>) = chan_tasks c"
  "chan_tasks (c'\<lparr>storage := xs\<rparr>) = chan_tasks c'"
  by (simp_all add: chan_tasks_def)

lemma wait_send_poll_balance:
  "wait_send_poll True False cas t f c m = Inr (r, ps, c', m') \<Longrightarrow>
   chan_tasks c + mset (parked t ps) = chan_tasks c' + mset (concat (map exec_of ps))"
  by (auto simp: wait_send_poll_def channel_try_lock_def chan_tasks_def parked_def
        split: send_call_state.splits list.splits if_splits waiter.splits option.splits)

lemma wait_recv_poll_balance:
  "wait_recv_poll True False cas t f slot c m = Inr (r, ps, c', m') \<Longrightarrow>
   chan_tasks c + mset (parked t ps) = chan_tasks c' + mset (concat (map exec_of ps))"
  by (auto simp: wait_recv_poll_def channel_try_lock_def chan_tasks_def parked_def Let_def
        split: recv_call_state.splits list.splits if_splits waiter.splits option.splits)

lemma channel_call_balance:
  assumes call: "channel_call cas q (c, m) = (r, ps, c', m')"
  shows "chan_tasks c + mset (suspended r) =
    chan_tasks c' + mset (concat (map exec_of ps)) + mset (resumed r)"
proof (cases q)
  case (Send t f v)
  with call wait_poll_projr(1)[of cas t f c "wait_send_new f v m"]
    wait_send_poll_balance[of cas t f c "wait_send_new f v m" _ ps c' m']
  show ?thesis by (auto simp: Let_def split: prod.splits)
next
  case (ResumeSend t f)
  with call wait_poll_projr(1)[of cas t f c m] wait_send_poll_balance[of cas t f c m _ ps c' m']
  show ?thesis by (auto split: prod.splits)
next
  case (RecvIn t f slot)
  with call wait_poll_projr(2)[of cas t f slot c "wait_recv_new f m"]
    wait_recv_poll_balance[of cas t f slot c "wait_recv_new f m" _ ps c' m']
  show ?thesis by (auto split: prod.splits)
next
  case (ResumeRecv t f slot)
  with call wait_poll_projr(2)[of cas t f slot c m]
    wait_recv_poll_balance[of cas t f slot c m _ ps c' m']
  show ?thesis by (auto split: prod.splits)
next
  case (TrySend v)
  with call show ?thesis
    by (auto simp: channel_try_send_def channel_try_lock_def chan_tasks_def
          split: list.splits if_splits waiter.splits option.splits)
next
  case (TryRecvIn slot)
  with call show ?thesis
    by (auto simp: channel_try_recv_in_ptr_def channel_try_lock_def chan_tasks_def Let_def
          split: list.splits if_splits waiter.splits option.splits)
next
  case Close
  with call show ?thesis
    by (auto simp: channel_close_def channel_try_lock_def chan_tasks_def comp_def
          split: if_splits option.splits)
qed

section \<open>The invariant of a world\<close>

definition flights_apart :: "('t, 'v) post list list \<Rightarrow> bool" where
  "flights_apart xs \<longleftrightarrow>
     (\<forall>p < length xs. \<forall>q < length xs. p \<noteq> q \<longrightarrow> (\<forall>a \<in> posts_mem (xs ! p). a \<notin> posts_mem (xs ! q)))"

definition one_release :: "('t, 'v) post list list \<Rightarrow> bool" where
  "one_release xs \<longleftrightarrow>
     (\<forall>p < length xs. \<forall>q < length xs.
        xs ! p = [ReleaseAtomicBool] \<longrightarrow> xs ! q = [ReleaseAtomicBool] \<longrightarrow> p = q)"

definition debts_ok :: "('t, 'v) chan_world \<Rightarrow> bool" where
  "debts_ok w \<longleftrightarrow>
     (\<forall>p < length (w_posts w). posts_mem (w_posts w ! p) \<noteq> {} \<longrightarrow>
        w_owed w p \<noteq> None \<and> taken (w_posts w ! p) (w_cells w) = w_owed w p)"

definition world_inv :: "('t, 'v) chan_world \<Rightarrow> bool" where
  "world_inv w \<longleftrightarrow>
     chan_shape (w_chan w) \<and> waiters_live (w_chan w) (w_cells w) \<and>
     (\<forall>ps \<in> set (w_posts w). posts_shape ps) \<and>
     clear_of (flight_mem w) (flight_recv w) (flight_send w) (w_chan w) \<and>
     flights_apart (w_posts w) \<and> one_release (w_posts w) \<and> debts_ok w \<and>
     (ch_is_locked (w_chan w) \<longleftrightarrow> [ReleaseAtomicBool] \<in> set (w_posts w))"

lemma clear_of_mono:
  "clear_of Fm Fr Fs c \<Longrightarrow> Fm' \<subseteq> Fm \<Longrightarrow> Fr' \<subseteq> Fr \<Longrightarrow> Fs' \<subseteq> Fs \<Longrightarrow> clear_of Fm' Fr' Fs' c"
  unfolding clear_of_def by blast

lemma flights_update:
  "w_posts w' = (w_posts w)[p := ps] \<Longrightarrow> flight_mem w' \<subseteq> flight_mem w \<union> posts_mem ps"
  "w_posts w' = (w_posts w)[p := ps] \<Longrightarrow> flight_recv w' \<subseteq> flight_recv w \<union> posts_recv ps"
  "w_posts w' = (w_posts w)[p := ps] \<Longrightarrow> flight_send w' \<subseteq> flight_send w \<union> posts_send ps"
  using set_update_subset_insert[of "w_posts w" p ps]
  by (auto simp: flight_mem_def flight_recv_def flight_send_def)

lemma posts_mem_flight: "p < length (w_posts w) \<Longrightarrow> a \<in> posts_mem (w_posts w ! p) \<Longrightarrow> a \<in> flight_mem w"
  by (auto simp: flight_mem_def)

lemma flights_apart_update:
  assumes "flights_apart xs" and "p < length xs"
    and "\<forall>i < length xs. i \<noteq> p \<longrightarrow> (\<forall>a \<in> posts_mem ps. a \<notin> posts_mem (xs ! i))"
  shows "flights_apart (xs[p := ps])"
  unfolding flights_apart_def
proof (intro allI impI ballI)
  fix i j a
  assume l: "i < length (xs[p := ps])" "j < length (xs[p := ps])" "i \<noteq> j"
    and a: "a \<in> posts_mem (xs[p := ps] ! i)"
  consider "i \<noteq> p" "j \<noteq> p" | "i = p" "j \<noteq> p" | "i \<noteq> p" "j = p" using l(3) by blast
  then show "a \<notin> posts_mem (xs[p := ps] ! j)"
  proof cases
    case 1
    with l a assms(1) show ?thesis by (simp add: flights_apart_def)
  next
    case 2
    with l a assms(2,3) show ?thesis by simp
  next
    case 3
    with l a assms(2) have "i < length xs" "a \<in> posts_mem (xs ! i)" by simp_all
    with assms(3) 3 have "a \<notin> posts_mem ps" by metis
    with 3 assms(2) show ?thesis by simp
  qed
qed

lemma taken_frame:
  "posts_shape ps \<Longrightarrow> \<forall>a \<in> posts_mem ps. mem m' a = mem m a \<Longrightarrow> taken ps m' = taken ps m"
  by (auto simp: posts_shape_def)

lemma world_inv_call:
  assumes inv: "world_inv w" and ok: "world_ok (Call p cas q) w"
    and step: "channel_step (Call p cas q) w = (r, w')"
  shows "world_inv w'"
proof -
  obtain ps c' m' where call: "channel_call cas q (w_chan w, w_cells w) = (r, ps, c', m')"
    and w': "w' = w\<lparr>w_chan := c', w_cells := m', w_posts := (w_posts w)[p := ps],
              w_owed := (w_owed w)(p := taken ps m')\<rparr>"
    using step by (auto split: prod.splits)
  have p: "p < length (w_posts w)" "w_posts w ! p = []" using ok by auto
  have eff: "call_effect (flight_mem w) (flight_recv w) (flight_send w) ps (w_chan w) (w_cells w) c' m'"
    using inv ok call by (intro channel_call_effect[where q = q and cas = cas and r = r])
      (auto simp: world_inv_def)
  have sub: "set (w_posts w') \<subseteq> insert ps (set (w_posts w))"
    using w' set_update_subset_insert by simp
  have "clear_of (flight_mem w') (flight_recv w') (flight_send w') c'"
    by (rule clear_of_mono[OF _ flights_update[where p = p]]) (use eff w' in \<open>auto simp: call_effect_def\<close>)
  moreover have "flights_apart (w_posts w')"
  proof -
    have "\<forall>i < length (w_posts w). i \<noteq> p \<longrightarrow> (\<forall>a \<in> posts_mem ps. a \<notin> posts_mem (w_posts w ! i))"
      using eff posts_mem_flight[of _ w] by (auto simp: call_effect_def)
    with inv p show ?thesis
      by (simp add: w' flights_apart_update world_inv_def)
  qed
  moreover have "debts_ok w'"
    unfolding debts_ok_def
  proof (intro allI impI)
    fix i assume i: "i < length (w_posts w')" "posts_mem (w_posts w' ! i) \<noteq> {}"
    show "w_owed w' i \<noteq> None \<and> taken (w_posts w' ! i) (w_cells w') = w_owed w' i"
    proof (cases "i = p")
      case True
      with i w' p eff show ?thesis by (auto simp: call_effect_def)
    next
      case False
      with i w' have il: "i < length (w_posts w)" and same: "w_posts w' ! i = w_posts w ! i" by auto
      have "\<forall>a \<in> posts_mem (w_posts w ! i). mem m' a = mem (w_cells w) a"
        using eff posts_mem_flight[OF il] by (auto simp: call_effect_def)
      then have "taken (w_posts w ! i) m' = taken (w_posts w ! i) (w_cells w)"
        using inv il by (intro taken_frame) (auto simp: world_inv_def)
      with inv i il False w' same show ?thesis by (auto simp: world_inv_def debts_ok_def)
    qed
  qed
  moreover have "ch_is_locked c' \<longleftrightarrow> [ReleaseAtomicBool] \<in> set (w_posts w')"
    using inv eff w' p in_set_update[of p "w_posts w" "[ReleaseAtomicBool]" ps]
    by (cases "ps = [ReleaseAtomicBool]") (auto simp: world_inv_def call_effect_def set_update_memI)
  moreover have "one_release (w_posts w')"
  proof (cases "ps = [ReleaseAtomicBool]")
    case True
    then have "[ReleaseAtomicBool] \<notin> set (w_posts w)"
      using inv eff by (auto simp: world_inv_def call_effect_def)
    then have "\<And>i. i < length (w_posts w) \<Longrightarrow> w_posts w ! i \<noteq> [ReleaseAtomicBool]"
      by (metis nth_mem)
    then show ?thesis using w' p by (auto simp: one_release_def nth_list_update split: if_splits)
  next
    case False
    then show ?thesis using inv w' p
      by (auto simp: one_release_def world_inv_def nth_list_update split: if_splits)
  qed
  ultimately show ?thesis
    using inv eff sub w' by (auto simp: world_inv_def call_effect_def)
qed

lemma flight_sub:
  assumes "ps \<in> set (w_posts w)"
  shows "posts_mem ps \<subseteq> flight_mem w" "posts_recv ps \<subseteq> flight_recv w" "posts_send ps \<subseteq> flight_send w"
  using assms by (auto simp: flight_mem_def flight_recv_def flight_send_def)

lemma run_post_chan:
  assumes "chan_shape c" "waiters_live c m" "clear_of Fm Fr Fs c"
    and "post_mem x \<subseteq> Fm" "post_recv x \<subseteq> Fr" "post_send x \<subseteq> Fs"
    and "run_post x (c, m) = (ts, c', m')"
  shows "chan_shape c' \<and> waiters_live c' m' \<and> waiting_senders c' = waiting_senders c \<and>
    waiting_receivers c' = waiting_receivers c \<and> queued c' m' = queued c m \<and>
    ts = exec_of x"
proof (cases x)
  case (CopyCell a b)
  with assms show ?thesis by (auto simp: waiters_live_def clear_of_def queued_def)
next
  case (WriteSlot b v)
  with assms show ?thesis by (auto simp: waiters_live_def clear_of_def queued_def)
next
  case (SetRecvState a r)
  with assms show ?thesis by (auto simp: waiters_live_def clear_of_def queued_def)
next
  case (SetSendState a r)
  with assms show ?thesis by (auto simp: waiters_live_def clear_of_def queued_def)
next
  case ReleaseAtomicBool
  with assms show ?thesis by (auto simp: waiters_live_def chan_shape_def queued_def)
qed (use assms in \<open>auto simp: queued_def\<close>)

lemma world_inv_post:
  assumes inv: "world_inv w" and ok: "world_ok (Post p) w"
    and step: "channel_step (Post p) w = (r, w')"
  shows "world_inv w'"
proof -
  obtain x ps where xs: "w_posts w ! p = x # ps" using ok by (cases "w_posts w ! p") auto
  obtain ts c' m' where run: "run_post x (w_chan w, w_cells w) = (ts, c', m')"
    using prod_cases3 by blast
  have w': "w' = w\<lparr>w_chan := c', w_cells := m', w_posts := (w_posts w)[p := ps]\<rparr>"
    using step xs run by simp
  have p: "p < length (w_posts w)" using ok by simp
  have shape: "posts_shape (x # ps)" using inv xs p nth_mem[of p "w_posts w"]
    by (auto simp: world_inv_def)
  have sub: "posts_mem (x # ps) \<subseteq> flight_mem w" "posts_recv (x # ps) \<subseteq> flight_recv w"
    "posts_send (x # ps) \<subseteq> flight_send w"
    using flight_sub[of "x # ps" w] xs nth_mem[OF p] by auto
  have chan: "chan_shape c' \<and> waiters_live c' m' \<and> waiting_senders c' = waiting_senders (w_chan w) \<and>
    waiting_receivers c' = waiting_receivers (w_chan w) \<and> queued c' m' = queued (w_chan w) (w_cells w) \<and>
    ts = exec_of x"
    by (rule run_post_chan[OF _ _ _ _ _ _ run]) (use inv sub in \<open>auto simp: world_inv_def\<close>)
  have "clear_of (flight_mem w') (flight_recv w') (flight_send w') (w_chan w)"
  proof (rule clear_of_mono)
    show "clear_of (flight_mem w) (flight_recv w) (flight_send w) (w_chan w)"
      using inv by (simp add: world_inv_def)
  qed (use flights_update[of w' w p ps] w' sub in auto)
  then have cl: "clear_of (flight_mem w') (flight_recv w') (flight_send w') c'"
    using chan by (simp add: clear_of_def)
  have "flights_apart (w_posts w')"
  proof -
    have "\<forall>i < length (w_posts w). i \<noteq> p \<longrightarrow> (\<forall>a \<in> posts_mem ps. a \<notin> posts_mem (w_posts w ! i))"
      using inv p xs by (simp add: world_inv_def flights_apart_def)
    with inv p show ?thesis by (simp add: w' flights_apart_update world_inv_def)
  qed
  moreover have "debts_ok w'"
    unfolding debts_ok_def
  proof (intro allI impI)
    fix i assume i: "i < length (w_posts w')" "posts_mem (w_posts w' ! i) \<noteq> {}"
    show "w_owed w' i \<noteq> None \<and> taken (w_posts w' ! i) (w_cells w') = w_owed w' i"
    proof (cases "i = p")
      case True
      with i w' p shape show ?thesis by (auto simp: posts_shape_def)
    next
      case False
      with i w' have il: "i < length (w_posts w)" and same: "w_posts w' ! i = w_posts w ! i" by auto
      have "flights_apart (w_posts w)" using inv by (simp add: world_inv_def)
      then have "\<forall>a \<in> posts_mem (w_posts w ! i). a \<notin> posts_mem (w_posts w ! p)"
        using il p False unfolding flights_apart_def by blast
      with xs have "\<forall>a \<in> posts_mem (w_posts w ! i). a \<notin> posts_mem (x # ps)" by simp
      then have "\<forall>a \<in> posts_mem (w_posts w ! i). mem m' a = mem (w_cells w) a"
        using run by (cases x) auto
      then have "taken (w_posts w ! i) m' = taken (w_posts w ! i) (w_cells w)"
        using inv il by (intro taken_frame) (auto simp: world_inv_def)
      with inv i il False w' same show ?thesis by (auto simp: world_inv_def debts_ok_def)
    qed
  qed
  moreover have "ch_is_locked c' \<longleftrightarrow> [ReleaseAtomicBool] \<in> set (w_posts w')"
  proof (cases "x = ReleaseAtomicBool")
    case True
    then have "ps = []" "w_posts w ! p = [ReleaseAtomicBool]" using shape xs by (auto simp: posts_shape_def)
    then have "[ReleaseAtomicBool] \<notin> set (w_posts w')"
      using inv p w' by (auto simp: world_inv_def one_release_def in_set_conv_nth nth_list_update)
    with True run show ?thesis by auto
  next
    case False
    then have "ps \<noteq> [ReleaseAtomicBool]" "ch_is_locked c' = ch_is_locked (w_chan w)"
      using shape run by (auto simp: posts_shape_def elim: run_post.elims)
    with inv w' p xs False show ?thesis
      using in_set_update[of p "w_posts w" "[ReleaseAtomicBool]" ps] by (simp add: world_inv_def)
  qed
  moreover have "one_release (w_posts w')"
  proof -
    have "ps \<noteq> [ReleaseAtomicBool]" using shape by (auto simp: posts_shape_def)
    with inv p w' show ?thesis
      by (auto simp: world_inv_def one_release_def nth_list_update split: if_splits)
  qed
  moreover have "\<forall>qs \<in> set (w_posts w'). posts_shape qs"
    using inv shape w' set_update_subset_insert[of "w_posts w" p ps]
    by (auto simp: world_inv_def posts_shape_def)
  ultimately show ?thesis
    using chan cl w' by (simp add: world_inv_def)
qed

section \<open>The channel keeps the contracts\<close>

definition posts_tasks :: "('t, 'v) post list \<Rightarrow> 't list" where
  "posts_tasks ps = concat (map exec_of ps)"

definition world_waiting :: "('t, 'v) chan_world \<Rightarrow> 't multiset" where
  "world_waiting w = chan_tasks (w_chan w) + mset (concat (map posts_tasks (w_posts w)))"

lemma posts_tasks_update:
  assumes "p < length xs"
  shows "mset (concat (map posts_tasks (xs[p := ps]))) + mset (posts_tasks (xs ! p)) =
    mset (concat (map posts_tasks xs)) + mset (posts_tasks ps)"
  using mset_concat_update[of p "map posts_tasks xs" "posts_tasks ps"] assms
  by (simp add: map_update)

lemma world_inv_step:
  "world_inv w \<Longrightarrow> world_ok q w \<Longrightarrow> channel_step q w = (r, w') \<Longrightarrow> world_inv w'"
  by (cases q) (auto simp only: intro: world_inv_call world_inv_post)

lemma world_fifo_step:
  assumes inv: "world_inv w" and ok: "world_ok q w" and step: "channel_step q w = (r, w')"
  shows "queued (w_chan w) (w_cells w) @ accepted r =
    delivered r @ queued (w_chan w') (w_cells w') @ given_back r"
proof (cases q)
  case (Call p cas k)
  with step obtain ps c' m' where call: "channel_call cas k (w_chan w, w_cells w) = (r, ps, c', m')"
    and w': "w_chan w' = c'" "w_cells w' = m'" by (auto split: prod.splits)
  from inv ok Call channel_call_fifo[OF _ _ _ call] w' show ?thesis by (auto simp: world_inv_def)
next
  case (Post p)
  with ok obtain x ps where xs: "w_posts w ! p = x # ps" by (cases "w_posts w ! p") auto
  obtain ts c' m' where run: "run_post x (w_chan w, w_cells w) = (ts, c', m')"
    using prod_cases3 by blast
  have "x # ps \<in> set (w_posts w)" using ok Post xs nth_mem[of p "w_posts w"] by simp
  then have "queued c' m' = queued (w_chan w) (w_cells w)"
    using run_post_chan[OF _ _ _ _ _ _ run] inv flight_sub[of "x # ps" w] by (auto simp: world_inv_def)
  with step Post xs run show ?thesis by (auto simp: quiet_report_def)
qed

lemma world_balance_step:
  assumes inv: "world_inv w" and ok: "world_ok q w" and step: "channel_step q w = (r, w')"
  shows "world_waiting w + mset (suspended r) = world_waiting w' + mset (resumed r)"
proof (cases q)
  case (Call p cas k)
  with step obtain ps c' m' where call: "channel_call cas k (w_chan w, w_cells w) = (r, ps, c', m')"
    and w': "w_chan w' = c'" "w_posts w' = (w_posts w)[p := ps]" by (auto split: prod.splits)
  have "mset (concat (map posts_tasks (w_posts w'))) =
      mset (concat (map posts_tasks (w_posts w))) + mset (posts_tasks ps)"
    using posts_tasks_update[of p "w_posts w" ps] ok Call w' by (simp add: posts_tasks_def)
  with channel_call_balance[OF call] w' show ?thesis
    by (simp add: world_waiting_def posts_tasks_def)
next
  case (Post p)
  with ok obtain x ps where xs: "w_posts w ! p = x # ps" by (cases "w_posts w ! p") auto
  obtain ts c' m' where run: "run_post x (w_chan w, w_cells w) = (ts, c', m')"
    using prod_cases3 by blast
  have "chan_tasks c' = chan_tasks (w_chan w)" "ts = exec_of x"
    using run by (cases x; auto)+
  moreover have "mset (concat (map posts_tasks ((w_posts w)[p := ps]))) + mset (exec_of x) =
      mset (concat (map posts_tasks (w_posts w)))"
    using posts_tasks_update[of p "w_posts w" ps] ok Post xs by (simp add: posts_tasks_def)
  ultimately show ?thesis using step Post xs run
    by (auto simp: world_waiting_def quiet_report_def add.assoc)
qed

lemma world_closed_step:
  assumes inv: "world_inv w" and step: "channel_step q w = (r, w')" and cl: "is_closed (w_chan w)"
  shows "is_closed (w_chan w') \<and> accepted r = [] \<and> delivered r = [] \<and> given_back r = []"
proof (cases q)
  case (Call p cas k)
  have "waiting_senders (w_chan w) = []" "waiting_receivers (w_chan w) = []"
    using inv cl by (auto simp: world_inv_def chan_shape_def)
  with Call step cl show ?thesis
    by (cases k) (auto simp: channel_defs channel_close_def Let_def split: channel_splits)
next
  case (Post p)
  with step cl show ?thesis
    by (auto simp: quiet_report_def split: list.splits prod.splits post.splits elim!: run_post.elims)
qed

lemma world_given_back_closes:
  "channel_step q w = (r, w') \<Longrightarrow> given_back r \<noteq> [] \<Longrightarrow> is_closed (w_chan w')"
proof (cases q)
  case (Call p cas k)
  assume "channel_step q w = (r, w')" "given_back r \<noteq> []"
  with Call show ?thesis by (cases k) (auto simp: Let_def split: prod.splits if_splits)
qed (auto simp: quiet_report_def split: list.splits prod.splits)

interpretation sch: fifo_channel channel_step world_ok world_inv
  "\<lambda>w. queued (w_chan w) (w_cells w)" "\<lambda>w. is_closed (w_chan w)" accepted delivered given_back
  by unfold_locales
     (blast intro: world_inv_step world_fifo_step world_given_back_closes dest: world_closed_step)+

interpretation spark: parking channel_step world_ok world_inv world_waiting suspended resumed
  by unfold_locales (rule world_balance_step)

definition world_start :: "nat \<Rightarrow> nat \<Rightarrow> nat \<Rightarrow> 't deques_pool \<Rightarrow> 'v cells \<Rightarrow> ('t, 'v) chan_world" where
  "world_start sz cap n pool m =
     \<lparr>w_chan = fst (channel_bounded sz cap pool), w_cells = m, w_posts = replicate n [],
      w_owed = (\<lambda>_. None)\<rparr>"

lemma world_start_inv:
  assumes "pool_clean pool"
  shows "world_inv (world_start sz cap n pool m) \<and>
    queued (w_chan (world_start sz cap n pool m)) (w_cells (world_start sz cap n pool m)) = [] \<and>
    world_waiting (world_start sz cap n pool m) = {#}"
proof -
  obtain d pool' where d: "deques_pool_get sz pool = (d, pool')" by force
  with deques_pool_get_clean[OF assms d] show ?thesis
    by (auto simp: world_start_def channel_bounded_def world_inv_def chan_shape_def waiters_live_def
          clear_of_def flights_apart_def one_release_def debts_ok_def queued_def world_waiting_def
          chan_tasks_def waiting_senders_def waiting_receivers_def deques_new_def posts_tasks_def
          flight_mem_def flight_recv_def flight_send_def)
qed

section \<open>Properties\<close>

text \<open>
  C1. Whatever the interleaving of the calls of any number of threads and of their late actions,
  the values a shared channel accepted are, in order, those its receivers took, those still
  queued and those given back by closing: first in, first out, nothing lost or duplicated.
\<close>

theorem channel_fifo:
  assumes "pool_clean pool"
    and "oks world_ok channel_step qs (world_start sz cap n pool m)"
    and "run_ops channel_step qs (world_start sz cap n pool m) = (os, w')"
  shows "concat (map accepted os) =
    concat (map delivered os) @ queued (w_chan w') (w_cells w') @ concat (map given_back os)"
  using sch.run_fifo[OF _ assms(2,3)] world_start_inv[OF assms(1), of sz cap n m] by auto

text \<open>
  A receiver parks and leaves the lock to its thread; another thread finds the channel locked,
  then sends: the value is copied after the lock is dropped, while a third thread sends two
  values into the channel of capacity one, the second of which parks; a receive and a close
  follow.
\<close>

definition channel_demo :: "(nat, nat) world_op list" where
  "channel_demo =
     [Call 0 True (RecvIn 1 10 90), Call 1 True (TrySend 7), Post 0, Call 1 True (TrySend 100),
      Call 2 True (Send 3 30 200), Post 1, Call 2 True (Send 4 40 300), Post 1, Post 2, Post 1,
      Call 0 True (ResumeRecv 1 10 90), Call 0 True (TryRecvIn 91), Post 0, Post 0,
      Call 1 True Close, Call 2 True (ResumeSend 4 40)]"

definition channel_demo_start :: "(nat, nat) chan_world" where
  "channel_demo_start = world_start 8 1 3 (\<lambda>_. [])
     \<lparr>send_state = (\<lambda>_. SendFirstCall), recv_state = (\<lambda>_. RecvFirstCall), mem = (\<lambda>_. None)\<rparr>"

lemma channel_demo_clean: "pool_clean (\<lambda>_. [] :: nat deques list)"
  by (simp add: pool_clean_def)

lemma channel_demo_ok:
  "oks world_ok channel_step channel_demo channel_demo_start"
  "oks world_ok channel_step (take 5 channel_demo) channel_demo_start"
  by code_simp+

lemma channel_demo_out:
  "concat (map accepted (fst (run_ops channel_step channel_demo channel_demo_start))) = [100, 200, 300]"
  "concat (map delivered (fst (run_ops channel_step channel_demo channel_demo_start))) = [100, 200]"
  "concat (map suspended (fst (run_ops channel_step channel_demo channel_demo_start))) = [1, 4]"
  "concat (map resumed (fst (run_ops channel_step channel_demo channel_demo_start))) = [1, 4]"
  by code_simp+

theorem channel_fifo_witness:
  "\<exists>os w'. run_ops channel_step channel_demo channel_demo_start = (os, w') \<and>
     [100, 200, 300] =
     [100, 200] @ queued (w_chan w') (w_cells w') @ concat (map given_back os)"
proof -
  obtain os w' where r: "run_ops channel_step channel_demo channel_demo_start = (os, w')"
    by force
  show ?thesis
    using channel_fifo[OF channel_demo_clean channel_demo_ok(1)[unfolded channel_demo_start_def]
        r[unfolded channel_demo_start_def]] channel_demo_out r
    by auto
qed

text \<open>
  C19. In every reachable world the value a thread is about to write to a receiver's slot is the
  value it took from the head of the queue, although the lock has been dropped and other
  threads may have used the channel since, and no waiting task uses that slot.
\<close>

theorem channel_handover_exact:
  assumes "pool_clean pool"
    and "oks world_ok channel_step qs (world_start sz cap n pool m)"
    and "run_ops channel_step qs (world_start sz cap n pool m) = (os, w)"
    and "p < length (w_posts w)"
    and "w_posts w ! p = x # ps" and "x = CopyCell a b \<or> x = WriteSlot b v"
    and "channel_step (Post p) w = (r, w')"
  shows "w_owed w p \<noteq> None \<and> mem (w_cells w') b = w_owed w p \<and>
    b \<notin> waiter_ptr ` set (waiting_receivers (w_chan w)) \<and>
    b \<notin> waiter_ptr ` set (waiting_senders (w_chan w))"
proof -
  have inv: "world_inv w"
    using sch.run_inv[OF _ assms(2,3)] world_start_inv[OF assms(1)] by blast
  have in_set: "x # ps \<in> set (w_posts w)" using assms(4,5) nth_mem by metis
  have "b \<in> flight_mem w" using flight_sub(1)[OF in_set] assms(6) by auto
  then have free: "b \<notin> waiter_ptr ` set (waiting_receivers (w_chan w))"
    "b \<notin> waiter_ptr ` set (waiting_senders (w_chan w))"
    using inv by (auto simp: world_inv_def clear_of_def)
  have "posts_mem (w_posts w ! p) \<noteq> {}" using assms(5,6) by auto
  then have "w_owed w p \<noteq> None" "taken (x # ps) (w_cells w) = w_owed w p"
    using inv assms(4,5) by (auto simp: world_inv_def debts_ok_def)
  with free assms(5-7) show ?thesis by auto
qed

theorem channel_handover_exact_witness:
  "\<exists>os w r w'. run_ops channel_step (take 5 channel_demo) channel_demo_start = (os, w) \<and>
     channel_step (Post 1) w = (r, w') \<and> mem (w_cells w') 90 = Some 100"
proof -
  obtain os w where r: "run_ops channel_step (take 5 channel_demo) channel_demo_start = (os, w)"
    by force
  obtain rp w' where s: "channel_step (Post 1) w = (rp, w')" by force
  have "w_posts (snd (run_ops channel_step (take 5 channel_demo) channel_demo_start)) ! 1 =
      [WriteSlot 90 100, SetRecvState 10 RecvWokenToReturnReady, Exec 1]"
    "length (w_posts (snd (run_ops channel_step (take 5 channel_demo) channel_demo_start))) = 3"
    "w_owed (snd (run_ops channel_step (take 5 channel_demo) channel_demo_start)) 1 = Some 100"
    by code_simp+
  with r have w: "w_posts w ! 1 = [WriteSlot 90 100, SetRecvState 10 RecvWokenToReturnReady, Exec 1]"
    "1 < length (w_posts w)" "w_owed w 1 = Some 100" by simp_all
  show ?thesis
    using channel_handover_exact[OF channel_demo_clean channel_demo_ok(2)[unfolded channel_demo_start_def]
        r[unfolded channel_demo_start_def] w(2,1) _ s] r s w(3)
    by auto
qed

text \<open>
  C2. In every reachable world of a shared channel no receiver waits while a value is stored or
  offered by a waiting sender, no sender waits while there is room, and the channel is locked
  between two actions exactly when one thread, and only one, has still to release it: the lock
  a parking task leaves behind is never lost and never released twice.
\<close>

theorem channel_world_safe:
  assumes "pool_clean pool"
    and "oks world_ok channel_step qs (world_start sz cap n pool m)"
    and "run_ops channel_step qs (world_start sz cap n pool m) = (os, w)"
  shows "chan_shape (w_chan w) \<and>
    (if ch_is_locked (w_chan w)
     then \<exists>!p. p < length (w_posts w) \<and> w_posts w ! p = [ReleaseAtomicBool]
     else \<forall>p < length (w_posts w). ReleaseAtomicBool \<notin> set (w_posts w ! p))"
proof -
  have inv: "world_inv w"
    using sch.run_inv[OF _ assms(2,3)] world_start_inv[OF assms(1)] by blast
  have shape: "posts_shape (w_posts w ! p)" if "p < length (w_posts w)" for p
    using inv that by (simp add: world_inv_def)
  show ?thesis
  proof (cases "ch_is_locked (w_chan w)")
    case True
    with inv obtain p where p: "p < length (w_posts w)" "w_posts w ! p = [ReleaseAtomicBool]"
      by (auto simp: world_inv_def in_set_conv_nth)
    have "\<exists>!p. p < length (w_posts w) \<and> w_posts w ! p = [ReleaseAtomicBool]"
    proof (rule ex1I[of _ p])
      fix q assume "q < length (w_posts w) \<and> w_posts w ! q = [ReleaseAtomicBool]"
      moreover have "one_release (w_posts w)" using inv by (simp add: world_inv_def)
      ultimately show "q = p" using p unfolding one_release_def by blast
    qed (simp add: p)
    with True inv show ?thesis by (simp add: world_inv_def)
  next
    case False
    with inv have no: "[ReleaseAtomicBool] \<notin> set (w_posts w)" by (simp add: world_inv_def)
    have "ReleaseAtomicBool \<notin> set (w_posts w ! p)" if "p < length (w_posts w)" for p
    proof -
      have "w_posts w ! p \<noteq> [ReleaseAtomicBool]" using no that nth_mem by metis
      with shape[OF that] show ?thesis by (auto simp: posts_shape_def)
    qed
    with False inv show ?thesis by (simp add: world_inv_def)
  qed
qed

theorem channel_world_safe_witness:
  "\<exists>os w. run_ops channel_step (take 2 channel_demo) channel_demo_start = (os, w) \<and>
     ch_is_locked (w_chan w) \<and>
     (\<exists>!p. p < length (w_posts w) \<and> w_posts w ! p = [ReleaseAtomicBool])"
proof -
  obtain os w where r: "run_ops channel_step (take 2 channel_demo) channel_demo_start = (os, w)"
    by force
  have ok: "oks world_ok channel_step (take 2 channel_demo) channel_demo_start"
    and "ch_is_locked (w_chan (snd (run_ops channel_step (take 2 channel_demo) channel_demo_start)))"
    by code_simp+
  with r channel_world_safe[OF channel_demo_clean ok[unfolded channel_demo_start_def]
      r[unfolded channel_demo_start_def]]
  show ?thesis by auto
qed

text \<open>
  C20. Every task that parks on a shared channel is resumed exactly once, or it is still in a
  deque, or some thread is about to execute it: the counts add up in every interleaving.
\<close>

theorem channel_tasks_resumed_once:
  assumes "pool_clean pool"
    and "oks world_ok channel_step qs (world_start sz cap n pool m)"
    and "run_ops channel_step qs (world_start sz cap n pool m) = (os, w)"
  shows "count (mset (concat (map resumed os))) t + count (world_waiting w) t
       = count (mset (concat (map suspended os))) t"
  using spark.run_resumed_once[OF _ _ assms(2,3)] world_start_inv[OF assms(1)] by blast

theorem channel_tasks_resumed_once_witness:
  "\<exists>os w. run_ops channel_step channel_demo channel_demo_start = (os, w) \<and>
     count (mset (concat (map resumed os))) 4 + count (world_waiting w) 4 = 1"
proof -
  obtain os w where r: "run_ops channel_step channel_demo channel_demo_start = (os, w)"
    by force
  show ?thesis
    using channel_tasks_resumed_once[OF channel_demo_clean channel_demo_ok(1)[unfolded channel_demo_start_def]
        r[unfolded channel_demo_start_def], of 4] channel_demo_out r
    by auto
qed

end
