(* ===== verification/Spin_Locks.thy ===== *)
theory Spin_Locks
  imports Transition_Systems
begin

text \<open>
  The locks built on one atomic flag: \<open>SpinLock\<close> and \<open>NeverWaitLock\<close> (\<open>src/src/utils/\<close>) and
  \<open>NaiveMutex\<close> (\<open>src/src/sync/mutexes/naive_shared.rs\<close>). They keep one contract, and mutual
  exclusion among any number of threads is proved from the contract.
\<close>

section \<open>SpinLock\<close>

record 'v spin_lock =
  sl_is_locked :: bool
  sl_value :: 'v

definition spin_lock_new :: "'v \<Rightarrow> 'v spin_lock" where
  "spin_lock_new v = \<lparr>sl_is_locked = False, sl_value = v\<rparr>"

text \<open>
  \<open>compare_exchange_weak(false, true)\<close> may fail although the flag is \<open>false\<close>; \<open>cas\<close> is false
  when it does.
\<close>

definition spin_lock_try_lock :: "bool \<Rightarrow> 'v spin_lock \<Rightarrow> bool \<times> 'v spin_lock" where
  "spin_lock_try_lock cas l =
     (if \<not> sl_is_locked l \<and> cas then (True, l\<lparr>sl_is_locked := True\<rparr>) else (False, l))"

text \<open>
  \<open>lock\<close> tries again until it gets the flag. What the other threads do in between is the
  environment: the lock as it is at each attempt, with the outcome of the weak exchange. The
  result is the number of failed attempts and the lock taken.
\<close>

fun spin_lock_lock :: "('v spin_lock \<times> bool) list \<Rightarrow> (nat \<times> 'v spin_lock) option" where
  "spin_lock_lock [] = None"
| "spin_lock_lock ((l, cas) # env) =
     (case spin_lock_try_lock cas l of
        (True, l') \<Rightarrow> Some (0, l')
      | (False, _) \<Rightarrow> map_option (\<lambda>(n, l'). (Suc n, l')) (spin_lock_lock env))"

definition spin_lock_unlock :: "bool \<Rightarrow> 'v spin_lock \<Rightarrow> 'v spin_lock res" where
  "spin_lock_unlock dbg l =
     (if dbg \<and> \<not> sl_is_locked l then Inl DebugAssert else Inr (l\<lparr>sl_is_locked := False\<rparr>))"

definition spin_lock_get_locked :: "bool \<Rightarrow> 'v spin_lock \<Rightarrow> 'v res" where
  "spin_lock_get_locked dbg l =
     (if dbg \<and> \<not> sl_is_locked l then Inl DebugAssert else Inr (sl_value l))"

section \<open>NeverWaitLock\<close>

record 'v never_wait_lock =
  nw_inner :: "'v spin_lock"

definition never_wait_lock_new :: "'v \<Rightarrow> 'v never_wait_lock" where
  "never_wait_lock_new v = \<lparr>nw_inner = spin_lock_new v\<rparr>"

definition never_wait_lock_try_lock :: "bool \<Rightarrow> 'v never_wait_lock \<Rightarrow> bool \<times> 'v never_wait_lock" where
  "never_wait_lock_try_lock cas l =
     (case spin_lock_try_lock cas (nw_inner l) of (ok, i) \<Rightarrow> (ok, l\<lparr>nw_inner := i\<rparr>))"

definition never_wait_lock_unlock :: "bool \<Rightarrow> 'v never_wait_lock \<Rightarrow> 'v never_wait_lock res" where
  "never_wait_lock_unlock dbg l =
     bindR (spin_lock_unlock dbg (nw_inner l)) (\<lambda>i. Inr (l\<lparr>nw_inner := i\<rparr>))"

section \<open>NaiveMutex\<close>

record 'v naive_mutex =
  nm_is_locked :: bool
  nm_value :: 'v

definition naive_mutex_new :: "'v \<Rightarrow> 'v naive_mutex" where
  "naive_mutex_new v = \<lparr>nm_is_locked = False, nm_value = v\<rparr>"

definition naive_mutex_try_lock :: "bool \<Rightarrow> 'v naive_mutex \<Rightarrow> bool \<times> 'v naive_mutex" where
  "naive_mutex_try_lock cas l =
     (if \<not> nm_is_locked l \<and> cas then (True, l\<lparr>nm_is_locked := True\<rparr>) else (False, l))"

definition naive_mutex_unlock :: "bool \<Rightarrow> 'v naive_mutex \<Rightarrow> 'v naive_mutex res" where
  "naive_mutex_unlock dbg l =
     (if dbg \<and> \<not> nm_is_locked l then Inl DebugAssert else Inr (l\<lparr>nm_is_locked := False\<rparr>))"

definition naive_mutex_get_locked :: "bool \<Rightarrow> 'v naive_mutex \<Rightarrow> 'v res" where
  "naive_mutex_get_locked dbg l =
     (if dbg \<and> \<not> nm_is_locked l then Inl DebugAssert else Inr (nm_value l))"

text \<open>
  \<open>leak_to_atomic\<close> forgets the guard, so the flag stays set; the executor clears it later
  with \<open>Call::ReleaseAtomicBool\<close>.
\<close>

definition naive_mutex_leak_to_atomic :: "bool \<Rightarrow> 'v naive_mutex \<Rightarrow> 'v naive_mutex res" where
  "naive_mutex_leak_to_atomic dbg l =
     (if dbg \<and> \<not> nm_is_locked l then Inl DebugAssert else Inr l)"

text \<open>
  One round of \<open>lock\<close>: up to seven attempts, with \<open>2 ^ step\<close> spins after each failure, then a
  yield to the executor. The environment is as for the spin lock. The result is the lock if
  taken, the number of spins, and the rest of the environment.
\<close>

fun naive_mutex_lock_round ::
  "nat \<Rightarrow> nat \<Rightarrow> ('v naive_mutex \<times> bool) list \<Rightarrow>
   ('v naive_mutex option \<times> nat \<times> ('v naive_mutex \<times> bool) list)" where
  "naive_mutex_lock_round 0 step env = (None, 0, env)"
| "naive_mutex_lock_round (Suc n) step [] = (None, 0, [])"
| "naive_mutex_lock_round (Suc n) step ((l, cas) # env) =
     (case naive_mutex_try_lock cas l of
        (True, l') \<Rightarrow> (Some l', 0, env)
      | (False, _) \<Rightarrow>
          (case naive_mutex_lock_round n (Suc step) env of
             (r, spins, env') \<Rightarrow> (r, 2 ^ step + spins, env')))"

lemma naive_mutex_lock_round_rest:
  "naive_mutex_lock_round n step env = (r, spins, env') \<Longrightarrow> 0 < n \<Longrightarrow> env \<noteq> [] \<Longrightarrow>
   length env' < length env"
proof (induction n step env arbitrary: r spins env' rule: naive_mutex_lock_round.induct)
  case (3 n step l cas env)
  show ?case
  proof (cases "naive_mutex_try_lock cas l")
    case (Pair ok l')
    show ?thesis
    proof (cases ok)
      case False
      with Pair 3 obtain r' s' where rec: "naive_mutex_lock_round n (Suc step) env = (r', s', env')"
        by (auto split: prod.splits)
      show ?thesis
      proof (cases "n = 0 \<or> env = []")
        case True
        with rec show ?thesis by (cases n; cases env) auto
      next
        case False
        then show ?thesis using "3.IH"[of ok l'] rec Pair \<open>\<not> ok\<close> by fastforce
      qed
    qed (use Pair 3 in auto)
  qed
qed auto

text \<open>\<open>lock\<close>: rounds of seven attempts, a \<open>yield_now\<close> between two rounds; it reports the yields.\<close>

function naive_mutex_lock ::
  "('v naive_mutex \<times> bool) list \<Rightarrow> (nat \<times> 'v naive_mutex) option" where
  "naive_mutex_lock env =
     (if env = [] then None
      else case naive_mutex_lock_round 7 0 env of
             (Some l, _, _) \<Rightarrow> Some (0, l)
           | (None, _, env') \<Rightarrow> map_option (\<lambda>(n, l). (Suc n, l)) (naive_mutex_lock env'))"
  by auto

termination
  by (relation "measure length") (auto dest: naive_mutex_lock_round_rest[OF sym])

declare naive_mutex_lock.simps [simp del]

section \<open>Threads on a lock\<close>

text \<open>
  A lock and the threads that have a guard. A thread without a guard may try; a thread with
  one may drop it.
\<close>

type_synonym ('l, 'p) lock_world = "'l \<times> 'p set"

inductive lock_step ::
  "(bool \<Rightarrow> 'l \<Rightarrow> bool \<times> 'l) \<Rightarrow> (bool \<Rightarrow> 'l \<Rightarrow> 'l res) \<Rightarrow>
   ('l, 'p) lock_world \<Rightarrow> ('l, 'p) lock_world \<Rightarrow> bool"
  for tryl :: "bool \<Rightarrow> 'l \<Rightarrow> bool \<times> 'l" and unl :: "bool \<Rightarrow> 'l \<Rightarrow> 'l res" where
  lock_acquire: "tryl cas l = (True, l') \<Longrightarrow> lock_step tryl unl (l, H) (l', insert p H)"
| lock_miss: "tryl cas l = (False, l') \<Longrightarrow> lock_step tryl unl (l, H) (l', H)"
| lock_release: "p \<in> H \<Longrightarrow> unl dbg l = Inr l' \<Longrightarrow> lock_step tryl unl (l, H) (l', H - {p})"

definition lock_start :: "('l \<Rightarrow> bool) \<Rightarrow> ('l, 'p) lock_world \<Rightarrow> bool" where
  "lock_start fresh w \<longleftrightarrow> fresh (fst w) \<and> snd w = {}"

definition lock_inv :: "('l \<Rightarrow> bool) \<Rightarrow> ('l, 'p) lock_world \<Rightarrow> bool" where
  "lock_inv locked w \<longleftrightarrow>
     (locked (fst w) \<longleftrightarrow> snd w \<noteq> {}) \<and> (\<forall>p \<in> snd w. \<forall>q \<in> snd w. p = q)"

locale flag_lock =
  fixes tryl :: "bool \<Rightarrow> 'l \<Rightarrow> bool \<times> 'l" and unl :: "bool \<Rightarrow> 'l \<Rightarrow> 'l res"
    and locked :: "'l \<Rightarrow> bool" and fresh :: "'l \<Rightarrow> bool"
  assumes fresh_free: "fresh l \<Longrightarrow> \<not> locked l"
    and try_ok: "tryl cas l = (True, l') \<Longrightarrow> \<not> locked l \<and> locked l'"
    and try_fail: "tryl cas l = (False, l') \<Longrightarrow> l' = l"
    and try_free: "\<not> locked l \<Longrightarrow> fst (tryl True l)"
    and unlock_ok: "locked l \<Longrightarrow> \<exists>l'. unl dbg l = Inr l' \<and> \<not> locked l'"
begin

lemma step_inv:
  assumes inv: "lock_inv locked w" and step: "lock_step tryl unl w w'"
  shows "lock_inv locked w'"
  using step
proof (cases rule: lock_step.cases)
  case (lock_acquire cas l l' H p)
  with inv try_ok[of cas l l'] show ?thesis by (simp add: lock_inv_def)
next
  case (lock_miss cas l l' H)
  with inv try_fail[of cas l l'] show ?thesis by simp
next
  case (lock_release p H dbg l l')
  with inv unlock_ok[of l dbg] show ?thesis by (auto simp: lock_inv_def)
qed

end

sublocale flag_lock \<subseteq> invariant_system "lock_start fresh" "lock_step tryl unl" "lock_inv locked"
proof unfold_locales
  fix w
  assume "lock_start fresh w"
  then show "lock_inv locked w" by (simp add: lock_start_def lock_inv_def fresh_free)
qed (rule step_inv)

context flag_lock
begin

lemma exclusive:
  "reach (lock_start fresh) (lock_step tryl unl) (l, H) \<Longrightarrow> p \<in> H \<Longrightarrow> q \<in> H \<Longrightarrow> p = q"
  by (drule reach_inv) (auto simp: lock_inv_def)

lemma holder_unlocks:
  "reach (lock_start fresh) (lock_step tryl unl) (l, H) \<Longrightarrow> p \<in> H \<Longrightarrow>
   \<exists>l'. unl dbg l = Inr l' \<and> \<not> locked l'"
  by (drule reach_inv) (auto simp: lock_inv_def intro: unlock_ok)

lemma free_is_taken:
  "reach (lock_start fresh) (lock_step tryl unl) (l, {}) \<Longrightarrow> fst (tryl True l)"
  by (drule reach_inv) (auto simp: lock_inv_def intro: try_free)

end

definition spin_lock_fresh :: "'v spin_lock \<Rightarrow> bool" where
  "spin_lock_fresh l \<longleftrightarrow> (\<exists>v. l = spin_lock_new v)"

definition never_wait_lock_fresh :: "'v never_wait_lock \<Rightarrow> bool" where
  "never_wait_lock_fresh l \<longleftrightarrow> (\<exists>v. l = never_wait_lock_new v)"

definition naive_mutex_fresh :: "'v naive_mutex \<Rightarrow> bool" where
  "naive_mutex_fresh l \<longleftrightarrow> (\<exists>v. l = naive_mutex_new v)"

interpretation spin: flag_lock spin_lock_try_lock spin_lock_unlock sl_is_locked spin_lock_fresh
  by unfold_locales
     (auto simp: spin_lock_try_lock_def spin_lock_unlock_def spin_lock_fresh_def spin_lock_new_def
        split: if_splits)

interpretation neverwait: flag_lock never_wait_lock_try_lock never_wait_lock_unlock
  "\<lambda>l. sl_is_locked (nw_inner l)" never_wait_lock_fresh
  by unfold_locales
     (auto simp: never_wait_lock_try_lock_def never_wait_lock_unlock_def never_wait_lock_fresh_def
        never_wait_lock_new_def spin_lock_try_lock_def spin_lock_unlock_def spin_lock_new_def
        split: if_splits)

interpretation naive: flag_lock naive_mutex_try_lock naive_mutex_unlock nm_is_locked naive_mutex_fresh
  by unfold_locales
     (auto simp: naive_mutex_try_lock_def naive_mutex_unlock_def naive_mutex_fresh_def
        naive_mutex_new_def split: if_splits)

section \<open>Spinning\<close>

text \<open>A round of \<open>n\<close> attempts from \<open>step\<close> spins less than \<open>2 ^ (step + n)\<close> times.\<close>

lemma naive_mutex_lock_round_spins:
  "naive_mutex_lock_round n step env = (r, spins, env') \<Longrightarrow> spins + 2 ^ step \<le> 2 ^ (step + n)"
proof (induction n step env arbitrary: r spins env' rule: naive_mutex_lock_round.induct)
  case (2 n step)
  have "(2 :: nat) ^ step \<le> 2 ^ (step + Suc n)" by (rule power_increasing) simp_all
  with 2 show ?case by simp
next
  case (3 n step l cas env)
  have "(2 :: nat) ^ step \<le> 2 ^ (step + Suc n)" by (rule power_increasing) simp_all
  moreover have "spins' + 2 ^ Suc step \<le> 2 ^ (Suc step + n)"
    if "naive_mutex_lock_round n (Suc step) env = (r', spins', env')" "\<not> fst (naive_mutex_try_lock cas l)"
    for r' spins' env'
    using "3.IH"[of False "snd (naive_mutex_try_lock cas l)" r' spins' env'] that
    by (cases "naive_mutex_try_lock cas l") auto
  ultimately show ?case using "3.prems" by (auto split: prod.splits bool.splits)
qed simp_all

lemma naive_mutex_lock_round_takes:
  "(l, True) \<in> set (take n env) \<Longrightarrow> \<not> nm_is_locked l \<Longrightarrow>
   fst (naive_mutex_lock_round n step env) \<noteq> None"
  by (induction n step env rule: naive_mutex_lock_round.induct)
     (auto simp: naive_mutex_try_lock_def split: prod.splits bool.splits if_splits)

lemma naive_mutex_lock_round_locked:
  "naive_mutex_lock_round n step env = (Some l, spins, env') \<Longrightarrow> nm_is_locked l"
  by (induction n step env arbitrary: spins env' rule: naive_mutex_lock_round.induct)
     (auto simp: naive_mutex_try_lock_def split: prod.splits bool.splits if_splits)

section \<open>Properties\<close>

text \<open>
  Whatever any number of threads do, at most one of them has the guard of a \<open>NaiveMutex\<close>,
  and the thread that has it can drop it without a panic, which leaves the mutex unlocked.
\<close>

theorem naive_mutex_exclusive:
  assumes "reach (lock_start naive_mutex_fresh) (lock_step naive_mutex_try_lock naive_mutex_unlock) (l, H)"
    and "p \<in> H"
  shows "H = {p} \<and> nm_is_locked l \<and>
    naive_mutex_unlock dbg l = Inr (l\<lparr>nm_is_locked := False\<rparr>)"
  using naive.reach_inv[OF assms(1)] naive.exclusive[OF assms(1)] assms(2)
  by (auto simp: lock_inv_def naive_mutex_unlock_def)

theorem naive_mutex_exclusive_witness:
  "\<exists>l. reach (lock_start naive_mutex_fresh) (lock_step naive_mutex_try_lock naive_mutex_unlock)
     (l, {3 :: nat}) \<and> nm_is_locked l \<and> nm_value l = (7 :: nat)"
proof -
  let ?l = "naive_mutex_new (7 :: nat)"
  have "reach (lock_start naive_mutex_fresh) (lock_step naive_mutex_try_lock naive_mutex_unlock)
     (?l, {} :: nat set)"
    by (rule reach_start) (auto simp: lock_start_def naive_mutex_fresh_def)
  moreover have "lock_step naive_mutex_try_lock naive_mutex_unlock (?l, {} :: nat set)
     (?l\<lparr>nm_is_locked := True\<rparr>, insert 3 {})"
    by (rule lock_acquire[where cas = True]) (simp add: naive_mutex_try_lock_def naive_mutex_new_def)
  ultimately have r: "reach (lock_start naive_mutex_fresh)
     (lock_step naive_mutex_try_lock naive_mutex_unlock) (?l\<lparr>nm_is_locked := True\<rparr>, {3 :: nat})"
    by (auto intro: reach_step)
  show ?thesis
    using naive_mutex_exclusive[OF r, of 3 True] r by (auto simp: naive_mutex_new_def)
qed

text \<open>
  A round of \<open>NaiveMutex::lock\<close> spins at most 127 times before the task yields to the
  executor, and it takes the mutex if the mutex is free at any of the seven attempts (and the
  weak exchange does not fail there); the mutex it returns is locked.
\<close>

theorem naive_mutex_lock_round_bounded:
  assumes "naive_mutex_lock_round 7 0 env = (r, spins, env')"
  shows "spins \<le> 127 \<and> ((\<exists>l. (l, True) \<in> set (take 7 env) \<and> \<not> nm_is_locked l) \<longrightarrow> r \<noteq> None) \<and>
    (\<forall>l. r = Some l \<longrightarrow> nm_is_locked l)"
  using naive_mutex_lock_round_spins[OF assms] naive_mutex_lock_round_takes[of _ 7 env 0]
    naive_mutex_lock_round_locked[of 7 0 env] assms
  by auto

theorem naive_mutex_lock_round_bounded_witness:
  "\<exists>r spins env'. naive_mutex_lock_round 7 0
     [(\<lparr>nm_is_locked = True, nm_value = ()\<rparr>, True), (naive_mutex_new (), False),
      (naive_mutex_new (), True)] = (r, spins, env') \<and> spins = 3 \<and> r \<noteq> None"
proof -
  let ?env = "[(\<lparr>nm_is_locked = True, nm_value = ()\<rparr>, True), (naive_mutex_new (), False),
      (naive_mutex_new (), True)]"
  obtain r spins env' where e: "naive_mutex_lock_round 7 0 ?env = (r, spins, env')"
    using prod_cases3 by blast
  have "fst (snd (naive_mutex_lock_round 7 0 ?env)) = 3" by code_simp
  then show ?thesis
    using naive_mutex_lock_round_bounded[OF e] e by (auto simp: naive_mutex_new_def)
qed

end
