(* ===== verification/Task_Lists.thy ===== *)
theory Task_Lists
  imports Spin_Locks
begin

text \<open>
  \<open>SyncTaskList\<close> (\<open>src/src/sync_task_queue.rs\<close>), the list of parked shared tasks that the
  shared primitives use, and the thread-local pools the lists come from
  (\<open>src/src/local_pool.rs\<close>, \<open>src/src/utils/task_structures_pool.rs\<close>). Every operation of the
  list takes the spin lock for its whole body, so it is one atomic action.
\<close>

section \<open>SyncTaskList\<close>

record 't sync_task_list =
  stl_inner :: "'t list spin_lock"

definition sync_task_list_new :: "'t sync_task_list" where
  "sync_task_list_new = \<lparr>stl_inner = spin_lock_new []\<rparr>"

definition sync_tasks :: "'t sync_task_list \<Rightarrow> 't list" where
  "sync_tasks l = sl_value (stl_inner l)"

definition set_sync_tasks :: "'t list \<Rightarrow> 't sync_task_list \<Rightarrow> 't sync_task_list" where
  "set_sync_tasks xs l = l\<lparr>stl_inner := (stl_inner l)\<lparr>sl_value := xs\<rparr>\<rparr>"

definition sync_task_list_len :: "'t sync_task_list \<Rightarrow> nat" where
  "sync_task_list_len l = length (sync_tasks l)"

definition sync_task_list_is_empty :: "'t sync_task_list \<Rightarrow> bool" where
  "sync_task_list_is_empty l \<longleftrightarrow> sync_tasks l = []"

definition sync_task_list_push ::
  "bool \<Rightarrow> ('t \<Rightarrow> bool) \<Rightarrow> 't \<Rightarrow> 't sync_task_list \<Rightarrow> 't sync_task_list res" where
  "sync_task_list_push dbg is_local t l =
     (if dbg \<and> is_local t then Inl Asserted else Inr (set_sync_tasks (sync_tasks l @ [t]) l))"

definition sync_task_list_pop :: "'t sync_task_list \<Rightarrow> 't option \<times> 't sync_task_list" where
  "sync_task_list_pop l =
     (case pop_back (sync_tasks l) of (r, xs) \<Rightarrow> (r, set_sync_tasks xs l))"

definition sync_task_list_pop_all_in ::
  "'t list \<Rightarrow> 't sync_task_list \<Rightarrow> 't list \<times> 't sync_task_list" where
  "sync_task_list_pop_all_in tasks l = (tasks @ sync_tasks l, set_sync_tasks [] l)"

definition sync_task_list_pop_all_in_deque ::
  "'t list \<Rightarrow> 't sync_task_list \<Rightarrow> 't list \<times> 't sync_task_list" where
  "sync_task_list_pop_all_in_deque other l =
     (fold (\<lambda>elem other. other @ [elem]) (sync_tasks l) other, set_sync_tasks [] l)"

section \<open>Pools of reusable objects\<close>

text \<open>
  \<open>new_local_pool!\<close>: a stack of objects. \<open>acquire\<close> pops one or makes a new one; dropping the
  guard pushes the object back.
\<close>

type_synonym 'a local_pool = "'a list"

definition local_pool_acquire :: "(unit \<Rightarrow> 'a) \<Rightarrow> 'a local_pool \<Rightarrow> 'a \<times> 'a local_pool" where
  "local_pool_acquire new pool =
     (case pop_back pool of (Some x, rest) \<Rightarrow> (x, rest) | (None, rest) \<Rightarrow> (new (), rest))"

definition local_pool_put :: "'a \<Rightarrow> 'a local_pool \<Rightarrow> 'a local_pool" where
  "local_pool_put x pool = pool @ [x]"

text \<open>
  The wrapper of a pooled list: on drop it shrinks the capacity to two when the list still has
  128 elements or more, then the guard puts the list back. Shrinking changes the capacity of a
  vector, never its elements.
\<close>

definition control_cap_shrinks :: "'t list \<Rightarrow> bool" where
  "control_cap_shrinks xs \<longleftrightarrow> \<not> length xs < 128"

section \<open>Laws\<close>

lemma sync_tasks_simps [simp]:
  "sync_tasks (set_sync_tasks xs l) = xs"
  "sync_tasks sync_task_list_new = []"
  by (simp_all add: sync_tasks_def set_sync_tasks_def sync_task_list_new_def spin_lock_new_def)

lemma set_sync_tasks_same [simp]: "set_sync_tasks (sync_tasks l) l = l"
  by (simp add: sync_tasks_def set_sync_tasks_def)

lemma sync_task_list_pop_push:
  assumes "sync_task_list_push dbg is_local t l = Inr l'"
  shows "sync_task_list_pop l' = (Some t, l)"
proof -
  from assms have "l' = set_sync_tasks (sync_tasks l @ [t]) l"
    by (simp add: sync_task_list_push_def split: if_splits)
  then show ?thesis
    by (simp add: sync_task_list_pop_def) (simp add: sync_tasks_def set_sync_tasks_def)
qed

lemma sync_task_list_pop_mset:
  "sync_task_list_pop l = (r, l') \<Longrightarrow> mset (sync_tasks l) = mset (opt_list r) + mset (sync_tasks l')"
  by (cases "sync_tasks l" rule: rev_cases) (auto simp: sync_task_list_pop_def)

lemma fold_snoc: "fold (\<lambda>x ys. ys @ [x]) xs ys = ys @ xs"
  by (induction xs arbitrary: ys) auto

lemma sync_task_list_pop_all_agree:
  "sync_task_list_pop_all_in_deque ts l = sync_task_list_pop_all_in ts l"
  by (simp add: sync_task_list_pop_all_in_deque_def sync_task_list_pop_all_in_def fold_snoc)

text \<open>The stack contract of a list of parked tasks.\<close>

locale task_stack =
  fixes put :: "'t \<Rightarrow> 'l \<Rightarrow> 'l" and get :: "'l \<Rightarrow> 't option \<times> 'l" and tasks :: "'l \<Rightarrow> 't list"
  assumes put_tasks: "tasks (put t l) = tasks l @ [t]"
    and get_none: "tasks l = [] \<Longrightarrow> get l = (None, l)"
    and get_some: "tasks l = xs @ [t] \<Longrightarrow> fst (get l) = Some t \<and> tasks (snd (get l)) = xs"
begin

lemma get_put: "fst (get (put t l)) = Some t \<and> tasks (snd (get (put t l))) = tasks l"
  by (rule get_some) (rule put_tasks)

lemma get_mset: "mset (tasks l) = mset (opt_list (fst (get l))) + mset (tasks (snd (get l)))"
  using get_none[of l] get_some[of l] by (cases "tasks l" rule: rev_cases) auto

lemma get_none_iff: "fst (get l) = None \<longleftrightarrow> tasks l = []"
  using get_none[of l] get_some[of l] by (cases "tasks l" rule: rev_cases) auto

end

definition sync_task_list_put :: "'t \<Rightarrow> 't sync_task_list \<Rightarrow> 't sync_task_list" where
  "sync_task_list_put t l = set_sync_tasks (sync_tasks l @ [t]) l"

lemma sync_task_list_push_eq:
  "sync_task_list_push dbg is_local t l =
     (if dbg \<and> is_local t then Inl Asserted else Inr (sync_task_list_put t l))"
  by (simp add: sync_task_list_push_def sync_task_list_put_def)

interpretation stl: task_stack sync_task_list_put sync_task_list_pop sync_tasks
proof unfold_locales
  fix t and l :: "'a sync_task_list"
  show "sync_tasks (sync_task_list_put t l) = sync_tasks l @ [t]"
    by (simp add: sync_task_list_put_def)
next
  fix l :: "'a sync_task_list"
  assume "sync_tasks l = []"
  then show "sync_task_list_pop l = (None, l)"
    using set_sync_tasks_same[of l] by (simp add: sync_task_list_pop_def)
next
  fix l :: "'a sync_task_list" and xs t
  assume "sync_tasks l = xs @ [t]"
  then show "fst (sync_task_list_pop l) = Some t \<and> sync_tasks (snd (sync_task_list_pop l)) = xs"
    by (simp add: sync_task_list_pop_def)
qed

text \<open>A vector of parked tasks (\<open>TaskVecFromPool\<close>) keeps the same contract.\<close>

interpretation tvec: task_stack "\<lambda>t xs. xs @ [t]" pop_back "\<lambda>xs. xs"
  by unfold_locales auto

text \<open>The contract of a pool: what it gives was put into it, or is new.\<close>

lemma local_pool_acquire_put: "local_pool_acquire new (local_pool_put x pool) = (x, pool)"
  by (simp add: local_pool_acquire_def local_pool_put_def)

lemma local_pool_acquire_clean:
  assumes "\<forall>x \<in> set pool. P x" and "P (new ())" and "local_pool_acquire new pool = (x, pool')"
  shows "P x \<and> (\<forall>y \<in> set pool'. P y)"
  using assms by (cases pool rule: rev_cases) (auto simp: local_pool_acquire_def)

end
