(* ===== verification/Async_Mutex.thy ===== *)
theory Async_Mutex
  imports Task_Lists
begin

text \<open>
  The interface of the mutexes a condition variable works with, \<open>AsyncSubscribableMutex\<close>
  (\<open>src/src/sync/mutexes/async_trait.rs\<close>, \<open>subscribable_trait.rs\<close>), as a locale, and the
  future \<open>WaitLockOfSubscribableMutex\<close> written over it. The local mutex and the shared mutex
  interpret the locale.
\<close>

section \<open>WaitLockOfSubscribableMutex\<close>

text \<open>
  \<open>poll\<close> of the future with flag \<open>was_called\<close>: the first poll subscribes the task, the second
  takes the guard that \<open>unlock\<close> passed on.
\<close>

definition wait_lock_poll ::
  "('t \<Rightarrow> 'm \<Rightarrow> 'm res) \<Rightarrow> ('m \<Rightarrow> unit res) \<Rightarrow> bool \<Rightarrow> 't \<Rightarrow> 'm \<Rightarrow> (unit poll \<times> bool \<times> 'm) res" where
  "wait_lock_poll low_level_subscribe get_locked was_called t m =
     (if \<not> was_called
      then bindR (low_level_subscribe t m) (\<lambda>m'. Inr (Pending, True, m'))
      else bindR (get_locked m) (\<lambda>_. Inr (Ready (), was_called, m)))"

section \<open>The contract\<close>

text \<open>
  \<open>held\<close> says that a guard exists, \<open>waits\<close> lists the tasks that wait for one. An unlock either
  frees the mutex, when nobody waits, or passes it on to exactly one waiting task, which it
  executes; the mutex is never free while a task waits. \<open>room\<close> says that one more task can wait.
\<close>

locale subscribable_mutex =
  fixes wf :: "'m \<Rightarrow> bool" and held :: "'m \<Rightarrow> bool" and waits :: "'m \<Rightarrow> 't list"
    and try_lock :: "'m \<Rightarrow> bool \<times> 'm"
    and subscribe :: "'t \<Rightarrow> 'm \<Rightarrow> 'm res"
    and get_locked :: "'m \<Rightarrow> unit res"
    and unlock :: "'m \<Rightarrow> ('t wake list \<times> 'm) res"
    and room :: "'m \<Rightarrow> bool"
  assumes try_lock_free: "wf m \<Longrightarrow> \<not> held m \<Longrightarrow>
        \<exists>m'. try_lock m = (True, m') \<and> wf m' \<and> held m' \<and> waits m' = waits m"
    and try_lock_held: "wf m \<Longrightarrow> held m \<Longrightarrow> try_lock m = (False, m)"
    and subscribe_waits: "wf m \<Longrightarrow> held m \<Longrightarrow> room m \<Longrightarrow> subscribe t m = Inr m' \<Longrightarrow>
        wf m' \<and> held m' \<and> mset (waits m') = add_mset t (mset (waits m))"
    and get_locked_held: "wf m \<Longrightarrow> held m \<Longrightarrow> get_locked m = Inr ()"
    and unlock_free: "wf m \<Longrightarrow> held m \<Longrightarrow> waits m = [] \<Longrightarrow>
        \<exists>m'. unlock m = Inr ([], m') \<and> wf m' \<and> \<not> held m' \<and> waits m' = []"
    and unlock_pass: "wf m \<Longrightarrow> held m \<Longrightarrow> waits m \<noteq> [] \<Longrightarrow> unlock m = Inr (ws, m') \<Longrightarrow>
        \<exists>t. ws = [ExecTask t] \<and> wf m' \<and> held m' \<and> mset (waits m) = add_mset t (mset (waits m'))"
    and free_no_waits: "wf m \<Longrightarrow> \<not> held m \<Longrightarrow> waits m = []"
begin

lemma unlock_balance:
  assumes "wf m" and "held m" and "unlock m = Inr (ws, m')"
  shows "wf m' \<and> mset (waits m) = mset (map woken ws) + mset (waits m') \<and> (held m' \<longleftrightarrow> ws \<noteq> [])"
proof (cases "waits m = []")
  case True
  from unlock_free[OF assms(1,2) True] assms(3) show ?thesis using True by force
next
  case False
  from unlock_pass[OF assms(1,2) False assms(3)] show ?thesis by force
qed

lemma wait_lock_first:
  assumes "wf m" and "held m" and "room m"
    and "wait_lock_poll subscribe get_locked False t m = Inr (r, called, m')"
  shows "r = Pending \<and> called \<and> wf m' \<and> held m' \<and> mset (waits m') = add_mset t (mset (waits m))"
proof -
  from assms(4) obtain m1 where "subscribe t m = Inr m1" "r = Pending" "called" "m' = m1"
    by (auto simp: wait_lock_poll_def bindR_Inr_conv)
  with subscribe_waits[OF assms(1-3), of t m1] show ?thesis by simp
qed

lemma wait_lock_second:
  assumes "wf m" and "held m"
  shows "wait_lock_poll subscribe get_locked True t m = Inr (Ready (), True, m)"
  using get_locked_held[OF assms] by (simp add: wait_lock_poll_def)

lemma try_lock_cases:
  assumes "wf m" and "try_lock m = (ok, m')"
  shows "wf m' \<and> held m' \<and> waits m' = waits m \<and> (ok \<longleftrightarrow> \<not> held m) \<and> (\<not> ok \<longrightarrow> m' = m)"
proof (cases "held m")
  case True
  from try_lock_held[OF assms(1) True] assms show ?thesis using True by simp
next
  case False
  from try_lock_free[OF assms(1) False] assms(2) show ?thesis using False by force
qed

end

end
