(* ===== verification/Local_Mutex.thy ===== *)
theory Local_Mutex
  imports Async_Mutex
begin

text \<open>
  \<open>LocalMutex\<close> (\<open>src/src/sync/mutexes/local.rs\<close>): the mutex of one executor. It keeps the
  contract of \<open>AsyncSubscribableMutex\<close>, and in every history of calls at most one task has the
  guard, no task waits on a free mutex and every parked task is passed the guard once.
\<close>

section \<open>The mutex\<close>

record ('t, 'v) local_mutex =
  lm_is_locked :: bool
  lm_wait_queue :: "'t list"
  lm_value :: 'v

definition local_mutex_new :: "'v \<Rightarrow> ('t, 'v) local_mutex" where
  "local_mutex_new v = \<lparr>lm_is_locked = False, lm_wait_queue = [], lm_value = v\<rparr>"

definition local_mutex_is_locked :: "('t, 'v) local_mutex \<Rightarrow> bool" where
  "local_mutex_is_locked m = lm_is_locked m"

text \<open>\<open>LocalMutexWait::poll\<close>\<close>

definition local_mutex_wait_poll ::
  "bool \<Rightarrow> 't \<Rightarrow> ('t, 'v) local_mutex \<Rightarrow> unit poll \<times> bool \<times> ('t, 'v) local_mutex" where
  "local_mutex_wait_poll was_called t m =
     (if \<not> was_called then (Pending, True, m\<lparr>lm_wait_queue := lm_wait_queue m @ [t]\<rparr>)
      else (Ready (), was_called, m))"

text \<open>The first poll of \<open>lock\<close>; later polls are those of the wait future.\<close>

definition local_mutex_lock ::
  "'t \<Rightarrow> ('t, 'v) local_mutex \<Rightarrow> unit poll \<times> bool \<times> ('t, 'v) local_mutex" where
  "local_mutex_lock t m =
     (if \<not> lm_is_locked m then (Ready (), False, m\<lparr>lm_is_locked := True\<rparr>)
      else local_mutex_wait_poll False t m)"

definition local_mutex_try_lock :: "('t, 'v) local_mutex \<Rightarrow> bool \<times> ('t, 'v) local_mutex" where
  "local_mutex_try_lock m =
     (if \<not> lm_is_locked m then (True, m\<lparr>lm_is_locked := True\<rparr>) else (False, m))"

definition local_mutex_unlock ::
  "bool \<Rightarrow> ('t, 'v) local_mutex \<Rightarrow> ('t wake list \<times> ('t, 'v) local_mutex) res" where
  "local_mutex_unlock dbg m =
     (if dbg \<and> \<not> lm_is_locked m then Inl DebugAssert
      else case pop_back (lm_wait_queue m) of
             (Some next, rest) \<Rightarrow> Inr ([ExecTask next], m\<lparr>lm_wait_queue := rest\<rparr>)
           | (None, _) \<Rightarrow> Inr ([], m\<lparr>lm_is_locked := False\<rparr>))"

definition local_mutex_get_locked :: "bool \<Rightarrow> ('t, 'v) local_mutex \<Rightarrow> unit res" where
  "local_mutex_get_locked dbg m = (if dbg \<and> \<not> lm_is_locked m then Inl DebugAssert else Inr ())"

definition local_mutex_low_level_subscribe ::
  "'t \<Rightarrow> ('t, 'v) local_mutex \<Rightarrow> ('t, 'v) local_mutex res" where
  "local_mutex_low_level_subscribe t m = Inr (m\<lparr>lm_wait_queue := lm_wait_queue m @ [t]\<rparr>)"

section \<open>Histories\<close>

text \<open>
  The world is the mutex and the tasks that have its guard or were passed it. \<open>LockCall\<close> is the
  first poll of \<open>lock\<close>; \<open>DropGuard\<close> the drop of a guard by a task that has it.
\<close>

datatype 't mutex_op = LockCall 't | TryLockCall 't | SubscribeCall 't | DropGuard 't

record 't mutex_report =
  mr_got :: bool
  mr_suspended :: "'t list"
  mr_resumed :: "'t list"

fun local_mutex_step ::
  "'t mutex_op \<Rightarrow> ('t, 'v) local_mutex \<times> 't list \<Rightarrow> 't mutex_report \<times> ('t, 'v) local_mutex \<times> 't list" where
  "local_mutex_step (LockCall t) (m, H) =
     (case local_mutex_lock t m of
        (Ready _, _, m') \<Rightarrow> (\<lparr>mr_got = True, mr_suspended = [], mr_resumed = []\<rparr>, m', t # H)
      | (Pending, _, m') \<Rightarrow> (\<lparr>mr_got = False, mr_suspended = [t], mr_resumed = []\<rparr>, m', H))"
| "local_mutex_step (TryLockCall t) (m, H) =
     (case local_mutex_try_lock m of
        (ok, m') \<Rightarrow> (\<lparr>mr_got = ok, mr_suspended = [], mr_resumed = []\<rparr>, m', if ok then t # H else H))"
| "local_mutex_step (SubscribeCall t) (m, H) =
     (case local_mutex_low_level_subscribe t m of
        Inr m' \<Rightarrow> (\<lparr>mr_got = False, mr_suspended = [t], mr_resumed = []\<rparr>, m', H)
      | Inl _ \<Rightarrow> (\<lparr>mr_got = False, mr_suspended = [], mr_resumed = []\<rparr>, m, H))"
| "local_mutex_step (DropGuard t) (m, H) =
     (case local_mutex_unlock True m of
        Inr (ws, m') \<Rightarrow> (\<lparr>mr_got = False, mr_suspended = [], mr_resumed = map woken ws\<rparr>, m',
                        map woken ws @ remove1 t H)
      | Inl _ \<Rightarrow> (\<lparr>mr_got = False, mr_suspended = [], mr_resumed = []\<rparr>, m, H))"

text \<open>A task subscribes only when the mutex is locked, as the condition variable does.\<close>

fun local_mutex_ok :: "'t mutex_op \<Rightarrow> ('t, 'v) local_mutex \<times> 't list \<Rightarrow> bool" where
  "local_mutex_ok (LockCall t) (m, H) \<longleftrightarrow> True"
| "local_mutex_ok (TryLockCall t) (m, H) \<longleftrightarrow> True"
| "local_mutex_ok (SubscribeCall t) (m, H) \<longleftrightarrow> lm_is_locked m"
| "local_mutex_ok (DropGuard t) (m, H) \<longleftrightarrow> t \<in> set H"

definition local_mutex_wf :: "('t, 'v) local_mutex \<Rightarrow> bool" where
  "local_mutex_wf m \<longleftrightarrow> (\<not> lm_is_locked m \<longrightarrow> lm_wait_queue m = [])"

definition local_mutex_inv :: "('t, 'v) local_mutex \<times> 't list \<Rightarrow> bool" where
  "local_mutex_inv s \<longleftrightarrow>
     local_mutex_wf (fst s) \<and> length (snd s) = (if lm_is_locked (fst s) then 1 else 0)"

lemmas local_mutex_defs = local_mutex_lock_def local_mutex_wait_poll_def local_mutex_try_lock_def
  local_mutex_unlock_def local_mutex_low_level_subscribe_def local_mutex_get_locked_def

section \<open>The contracts\<close>

interpretation lmx: subscribable_mutex local_mutex_wf lm_is_locked lm_wait_queue local_mutex_try_lock
  local_mutex_low_level_subscribe "local_mutex_get_locked dbg" "local_mutex_unlock dbg" "\<lambda>_. True"
  by unfold_locales
     (auto simp: local_mutex_defs local_mutex_wf_def pop_convs split: option.splits prod.splits)

lemma local_mutex_inv_step:
  assumes "local_mutex_inv s" and "local_mutex_ok p s" and "local_mutex_step p s = (r, s')"
  shows "local_mutex_inv s'"
proof (cases s)
  case [simp]: (Pair m H)
  show ?thesis
    using assms
    by (cases p) (auto simp: local_mutex_inv_def local_mutex_wf_def local_mutex_defs pop_convs
          length_Suc_conv split: option.splits prod.splits if_splits)
qed

lemma local_mutex_balance_step:
  assumes "local_mutex_inv s" and "local_mutex_ok p s" and "local_mutex_step p s = (r, s')"
  shows "mset (lm_wait_queue (fst s)) + mset (mr_suspended r) =
    mset (lm_wait_queue (fst s')) + mset (mr_resumed r)"
proof (cases s)
  case [simp]: (Pair m H)
  show ?thesis
    using assms
    by (cases p) (auto simp: local_mutex_defs pop_convs split: option.splits prod.splits if_splits)
qed

interpretation lmpark: parking local_mutex_step local_mutex_ok local_mutex_inv
  "\<lambda>s. mset (lm_wait_queue (fst s))" mr_suspended mr_resumed
  by unfold_locales (blast intro: local_mutex_inv_step local_mutex_balance_step)+

section \<open>Properties\<close>

text \<open>
  C21. In every history of calls on a new \<open>LocalMutex\<close> (locks that wait, try-locks,
  subscriptions of a condition variable, guard drops), at most one task has the guard or was
  passed it; the mutex is locked exactly when some task has; no task waits while the mutex is
  free; and every task that parked was resumed once or is still in the queue.
\<close>

theorem local_mutex_exclusive:
  assumes "oks local_mutex_ok local_mutex_step ps (local_mutex_new v, [])"
    and "run_ops local_mutex_step ps (local_mutex_new v, []) = (os, m, H)"
  shows "length H = (if lm_is_locked m then 1 else 0) \<and>
    (\<not> lm_is_locked m \<longrightarrow> lm_wait_queue m = []) \<and>
    count (mset (concat (map mr_resumed os))) t + count (mset (lm_wait_queue m)) t =
    count (mset (concat (map mr_suspended os))) t"
proof -
  have start: "local_mutex_inv (local_mutex_new v, [])"
    by (simp add: local_mutex_inv_def local_mutex_wf_def local_mutex_new_def)
  have "local_mutex_inv (m, H)" by (rule lmpark.run_inv[OF start assms])
  moreover have "count (mset (concat (map mr_resumed os))) t + count (mset (lm_wait_queue m)) t =
    count (mset (concat (map mr_suspended os))) t"
    using lmpark.run_resumed_once[OF start _ assms] by (simp add: local_mutex_new_def)
  ultimately show ?thesis by (simp add: local_mutex_inv_def local_mutex_wf_def)
qed

definition local_mutex_demo :: "nat mutex_op list" where
  "local_mutex_demo = [LockCall 1, LockCall 2, SubscribeCall 3, TryLockCall 4, DropGuard 1, DropGuard 3]"

theorem local_mutex_exclusive_witness:
  "\<exists>os m. run_ops local_mutex_step local_mutex_demo (local_mutex_new (0 :: nat), []) = (os, m, [2]) \<and>
     lm_is_locked m \<and> length [2 :: nat] = (if lm_is_locked m then 1 else 0)"
proof -
  obtain os m H where r:
    "run_ops local_mutex_step local_mutex_demo (local_mutex_new (0 :: nat), []) = (os, m, H)"
    using prod_cases3 by blast
  have ok: "oks local_mutex_ok local_mutex_step local_mutex_demo (local_mutex_new (0 :: nat), [])"
    and "snd (snd (run_ops local_mutex_step local_mutex_demo (local_mutex_new (0 :: nat), []))) = [2]"
    by code_simp+
  with r have "H = [2]" by simp
  with local_mutex_exclusive[OF ok r, of 2] r show ?thesis
    by (auto split: if_splits)
qed

end
