(* ===== verification/Smart_Mutex.thy ===== *)
theory Smart_Mutex
  imports Async_Mutex
begin

text \<open>
  \<open>Mutex\<close> (\<open>src/src/sync/mutexes/smart_shared.rs\<close>): the mutex shared by executors. A counter
  says how many tasks have the mutex or want it, and \<open>expected_count\<close>, a cell without synchronisation,
  says how many of them were served, so that \<open>unlock\<close> frees the mutex with one exchange
  when nobody waits. The first part is the code as functions; the second is the same code cut at
  its accesses of shared memory, as a step relation for any number of tasks on any number of threads.
\<close>

section \<open>The mutex\<close>

record 't mutex =
  mx_counter :: "64 word"
  mx_wait_queue :: "'t sync_task_list"
  mx_expected_count :: "64 word"

definition mutex_new :: "'t mutex" where
  "mutex_new = \<lparr>mx_counter = 0, mx_wait_queue = sync_task_list_new, mx_expected_count = 1\<rparr>"

definition mutex_is_locked :: "'t mutex \<Rightarrow> bool" where
  "mutex_is_locked m \<longleftrightarrow> mx_counter m \<noteq> 0"

definition mutex_waits :: "'t mutex \<Rightarrow> 't list" where
  "mutex_waits m = sync_tasks (mx_wait_queue m)"

definition mutex_try_lock :: "'t mutex \<Rightarrow> bool \<times> 't mutex" where
  "mutex_try_lock m = (if mx_counter m = 0 then (True, m\<lparr>mx_counter := 1\<rparr>) else (False, m))"

text \<open>
  Up to seven attempts, spinning \<open>2 ^ step\<close> times after a failure while the mutex has a holder
  and nobody waits. The environment is the mutex at each attempt. The result is the mutex if it
  was taken, and the number of spins.
\<close>

fun mutex_try_lock_with_spinning :: "nat \<Rightarrow> nat \<Rightarrow> 't mutex list \<Rightarrow> 't mutex option \<times> nat" where
  "mutex_try_lock_with_spinning 0 step env = (None, 0)"
| "mutex_try_lock_with_spinning (Suc n) step [] = (None, 0)"
| "mutex_try_lock_with_spinning (Suc n) step (m # env) =
     (if mx_counter m = 0 then (Some (m\<lparr>mx_counter := 1\<rparr>), 0)
      else if mx_counter m = 1
      then (case mutex_try_lock_with_spinning n (Suc step) env of (r, spins) \<Rightarrow> (r, 2 ^ step + spins))
      else (None, 0))"

text \<open>
  \<open>MutexWait::poll\<close>: \<open>env\<close> is the mutex during the spinning, \<open>m\<close> at the increment. The third
  component says that the executor is asked to push the task to the wait queue
  (\<open>Call::PushCurrentTaskTo\<close>) after the poll returned.
\<close>

definition mutex_wait_poll ::
  "bool \<Rightarrow> bool \<Rightarrow> bool \<Rightarrow> 't mutex list \<Rightarrow> 't mutex \<Rightarrow> (unit poll \<times> bool \<times> bool \<times> 't mutex) res" where
  "mutex_wait_poll dbg local was_called env m =
     (if dbg \<and> local then Inl Asserted
      else if \<not> was_called
      then (case mutex_try_lock_with_spinning 7 0 env of
              (Some m', _) \<Rightarrow> Inr (Ready (), was_called, False, m')
            | (None, _) \<Rightarrow>
                (let m' = m\<lparr>mx_counter := mx_counter m + 1\<rparr>
                 in if mx_counter m = 0 then Inr (Ready (), was_called, False, m')
                    else Inr (Pending, True, True, m')))
      else Inr (Ready (), was_called, False, m))"

text \<open>
  The loop of \<open>unlock\<close> that waits for a task that has incremented the counter and is not yet
  in the queue: the environment is the mutex at each attempt.
\<close>

fun mutex_pop_spin :: "'t mutex list \<Rightarrow> ('t \<times> 't mutex) option" where
  "mutex_pop_spin [] = None"
| "mutex_pop_spin (m # env) =
     (case sync_task_list_pop (mx_wait_queue m) of
        (Some t, q) \<Rightarrow> Some (t, m\<lparr>mx_wait_queue := q\<rparr>)
      | (None, _) \<Rightarrow> mutex_pop_spin env)"

text \<open>\<open>unlock\<close>; \<open>None\<close> is a call that still spins at the end of the environment.\<close>

definition mutex_unlock ::
  "bool \<Rightarrow> 't mutex list \<Rightarrow> 't mutex \<Rightarrow> ('t wake list \<times> 't mutex) option res" where
  "mutex_unlock dbg env m =
     (if dbg \<and> mx_counter m = 0 then Inl DebugAssert
      else if mx_counter m = mx_expected_count m
      then Inr (Some ([], m\<lparr>mx_counter := 0, mx_expected_count := 1\<rparr>))
      else if dbg \<and> mx_expected_count m = - 1 then Inl Overflow
      else let m1 = m\<lparr>mx_expected_count := mx_expected_count m + 1\<rparr>
           in Inr (map_option (\<lambda>(t, m'). ([ExecTask t], m')) (mutex_pop_spin (m1 # env))))"

definition mutex_get_locked :: "bool \<Rightarrow> 't mutex \<Rightarrow> unit res" where
  "mutex_get_locked dbg m = (if dbg \<and> mx_counter m = 0 then Inl DebugAssert else Inr ())"

text \<open>
  \<open>low_level_subscribe\<close> subtracts one from \<open>expected_count\<close>, with an overflow check in a debug
  build, and pushes the task, which has to be shared.
\<close>

definition mutex_low_level_subscribe ::
  "bool \<Rightarrow> ('t \<Rightarrow> bool) \<Rightarrow> 't \<Rightarrow> 't mutex \<Rightarrow> 't mutex res" where
  "mutex_low_level_subscribe dbg is_local t m =
     (if dbg \<and> mx_expected_count m = 0 then Inl Overflow
      else bindR (sync_task_list_push dbg is_local t (mx_wait_queue m))
             (\<lambda>q. Inr (m\<lparr>mx_expected_count := mx_expected_count m - 1, mx_wait_queue := q\<rparr>)))"

section \<open>The contract of a subscribable mutex\<close>

text \<open>
  Between calls, with no task on its way to the queue, the counter is the expected count plus
  the number of waiting tasks, modulo \<open>2 ^ 64\<close>.
\<close>

definition mutex_wf :: "'t mutex \<Rightarrow> bool" where
  "mutex_wf m \<longleftrightarrow>
     length (mutex_waits m) < 2 ^ 64 - 1 \<and>
     (if mx_counter m = 0 then mx_expected_count m = 1 \<and> mutex_waits m = []
      else mx_counter m = mx_expected_count m + of_nat (length (mutex_waits m)))"

text \<open>\<open>unlock\<close> as one call that other threads do not disturb.\<close>

definition mutex_unlock_alone :: "bool \<Rightarrow> 't mutex \<Rightarrow> ('t wake list \<times> 't mutex) res" where
  "mutex_unlock_alone dbg m =
     (case mutex_unlock dbg [] m of
        Inl p \<Rightarrow> Inl p
      | Inr None \<Rightarrow> Inl Asserted
      | Inr (Some r) \<Rightarrow> Inr r)"

lemma of_nat_word_eq_0:
  assumes "n < 2 ^ 64"
  shows "(of_nat n :: 64 word) = 0 \<longleftrightarrow> n = 0"
  using assms by (auto simp: word_of_nat_eq_0_iff dest: nat_dvd_not_less)

lemma mutex_waits_simps [simp]:
  "mutex_waits (m\<lparr>mx_counter := c\<rparr>) = mutex_waits m"
  "mutex_waits (m\<lparr>mx_expected_count := e\<rparr>) = mutex_waits m"
  "mutex_waits (m\<lparr>mx_wait_queue := q\<rparr>) = sync_tasks q"
  by (simp_all add: mutex_waits_def)

lemma mutex_pop_spin_snoc:
  assumes "mutex_waits m = xs @ [t]"
  shows "\<exists>q. mutex_pop_spin (m # env) = Some (t, m\<lparr>mx_wait_queue := q\<rparr>) \<and> sync_tasks q = xs"
  using assms stl.get_some[of "mx_wait_queue m" xs t]
  by (cases "sync_task_list_pop (mx_wait_queue m)") (auto simp: mutex_waits_def)

lemma mutex_wf_free_iff:
  assumes "mutex_wf m" and "mx_counter m \<noteq> 0"
  shows "mx_counter m = mx_expected_count m \<longleftrightarrow> mutex_waits m = []"
  using assms of_nat_word_eq_0[of "length (mutex_waits m)"] by (simp add: mutex_wf_def)

lemma mutex_unlock_pass:
  assumes wf: "mutex_wf m" "mx_counter m \<noteq> 0" "mutex_waits m \<noteq> []"
    and un: "mutex_unlock_alone dbg m = Inr (ws, m')"
  shows "\<exists>t. ws = [ExecTask t] \<and> mutex_wf m' \<and> mx_counter m' \<noteq> 0 \<and>
    mutex_waits m = mutex_waits m' @ [t]"
proof -
  obtain xs t where xs: "mutex_waits m = xs @ [t]" using wf(3) by (cases "mutex_waits m" rule: rev_cases) auto
  let ?m1 = "m\<lparr>mx_expected_count := mx_expected_count m + 1\<rparr>"
  obtain q where q: "mutex_pop_spin [?m1] = Some (t, ?m1\<lparr>mx_wait_queue := q\<rparr>)" "sync_tasks q = xs"
    using mutex_pop_spin_snoc[of ?m1 xs t "[]"] xs by auto
  have "mx_counter m \<noteq> mx_expected_count m" using mutex_wf_free_iff[OF wf(1,2)] wf(3) by blast
  with un q wf(2) have r: "ws = [ExecTask t]" "m' = ?m1\<lparr>mx_wait_queue := q\<rparr>"
    by (auto simp: mutex_unlock_alone_def mutex_unlock_def Let_def split: if_splits)
  with wf q xs show ?thesis by (simp add: mutex_wf_def)
qed

lemma mutex_subscribe_waits:
  assumes "mutex_wf m" "mx_counter m \<noteq> 0" "length (mutex_waits m) + 1 < 2 ^ 64 - 1"
    and "mutex_low_level_subscribe dbg is_local t m = Inr m'"
  shows "mutex_wf m' \<and> mx_counter m' \<noteq> 0 \<and> mutex_waits m' = mutex_waits m @ [t]"
  using assms
  by (auto simp: mutex_low_level_subscribe_def mutex_wf_def sync_task_list_push_def bindR_Inr_conv
        mutex_waits_def split: if_splits)

interpretation smx: subscribable_mutex mutex_wf mutex_is_locked mutex_waits mutex_try_lock
  "mutex_low_level_subscribe dbg is_local" "mutex_get_locked dbg" "mutex_unlock_alone dbg"
  "\<lambda>m. length (mutex_waits m) + 1 < 2 ^ 64 - 1"
proof unfold_locales
  fix m :: "'a mutex"
  assume "mutex_wf m" "\<not> mutex_is_locked m"
  then show "\<exists>m'. mutex_try_lock m = (True, m') \<and> mutex_wf m' \<and> mutex_is_locked m' \<and> mutex_waits m' = mutex_waits m"
    by (simp add: mutex_try_lock_def mutex_is_locked_def mutex_wf_def)
next
  fix m :: "'a mutex"
  assume "mutex_is_locked m"
  then show "mutex_try_lock m = (False, m)" "mutex_get_locked dbg m = Inr ()"
    by (simp_all add: mutex_try_lock_def mutex_is_locked_def mutex_get_locked_def)
next
  fix m m' :: "'a mutex" and t
  assume "mutex_wf m" "mutex_is_locked m" "length (mutex_waits m) + 1 < 2 ^ 64 - 1"
    "mutex_low_level_subscribe dbg is_local t m = Inr m'"
  then show "mutex_wf m' \<and> mutex_is_locked m' \<and> mset (mutex_waits m') = add_mset t (mset (mutex_waits m))"
    using mutex_subscribe_waits[of m dbg is_local t m'] by (simp add: mutex_is_locked_def)
next
  fix m :: "'a mutex"
  assume "mutex_wf m" "mutex_is_locked m" "mutex_waits m = []"
  then show "\<exists>m'. mutex_unlock_alone dbg m = Inr ([], m') \<and> mutex_wf m' \<and> \<not> mutex_is_locked m' \<and> mutex_waits m' = []"
    using mutex_wf_free_iff[of m]
    by (simp add: mutex_unlock_alone_def mutex_unlock_def mutex_is_locked_def mutex_wf_def)
next
  fix m m' :: "'a mutex" and ws
  assume "mutex_wf m" "mutex_is_locked m" "mutex_waits m \<noteq> []" "mutex_unlock_alone dbg m = Inr (ws, m')"
  then show "\<exists>t. ws = [ExecTask t] \<and> mutex_wf m' \<and> mutex_is_locked m' \<and> mset (mutex_waits m) = add_mset t (mset (mutex_waits m'))"
    using mutex_unlock_pass[of m dbg ws m'] by (auto simp: mutex_is_locked_def)
next
  fix m :: "'a mutex"
  assume "mutex_wf m" "\<not> mutex_is_locked m"
  then show "mutex_waits m = []" by (simp add: mutex_is_locked_def mutex_wf_def)
qed

section \<open>Tasks on a mutex\<close>

text \<open>
  Where a task is in the code of the mutex, with the values that it has read of the cell \<open>expected_count\<close>, whose accesses are not atomic:
  every read and every write of it is a step of its own. \<open>Spinning k\<close> is before attempt \<open>k\<close> of \<open>try_lock_with_spinning\<close>; \<open>Adding\<close> before the
  increment; \<open>Counted\<close> after it, while the executor has not yet pushed the task. \<open>unlock\<close> is \<open>Exchanging e\<close> after it has read the expected
  count, then \<open>Resetting\<close> between the exchange that frees the mutex and the write of the count, or \<open>Missed\<close> when the exchange has failed,
  \<open>Bumping e\<close> after the second read, and \<open>Waking\<close> with a task to resume. \<open>low_level_subscribe\<close> is \<open>Subscribing e\<close> after its read and
  \<open>Subscribed\<close> after its write, before the push.
\<close>

datatype mutex_pc =
    Idle | Spinning nat | Adding | Counted | Queued | Holding
  | Exchanging "64 word" | Resetting | Missed | Bumping "64 word" | Waking
  | Subscribing "64 word" | Subscribed

record 't mutex_world =
  mw_mutex :: "'t mutex"
  mw_pc :: "'t \<Rightarrow> mutex_pc"

definition mutex_at :: "'t \<Rightarrow> mutex_pc \<Rightarrow> 't mutex \<Rightarrow> 't mutex_world \<Rightarrow> 't mutex_world" where
  "mutex_at t p m s = s\<lparr>mw_mutex := m, mw_pc := (mw_pc s)(t := p)\<rparr>"

definition mutex_push :: "'t \<Rightarrow> 't mutex \<Rightarrow> 't mutex" where
  "mutex_push t m = m\<lparr>mx_wait_queue := sync_task_list_put t (mx_wait_queue m)\<rparr>"

text \<open>
  One rule per access of shared memory, in a release build. The increment is assumed not to wrap: that needs \<open>2 ^ 64\<close>
  contended acquisitions with no free moment in between.
\<close>

inductive mutex_step :: "'t mutex_world \<Rightarrow> 't mutex_world \<Rightarrow> bool" where
  spin_start: "mw_pc s t = Idle \<Longrightarrow> mutex_step s (mutex_at t (Spinning 0) (mw_mutex s) s)"
| spin_hit: "mw_pc s t = Spinning k \<Longrightarrow> k \<le> 6 \<Longrightarrow> mutex_try_lock (mw_mutex s) = (True, m') \<Longrightarrow>
    mutex_step s (mutex_at t Holding m' s)"
| spin_again: "mw_pc s t = Spinning k \<Longrightarrow> k \<le> 6 \<Longrightarrow> mx_counter (mw_mutex s) = 1 \<Longrightarrow>
    mutex_step s (mutex_at t (Spinning (Suc k)) (mw_mutex s) s)"
| spin_stop: "mw_pc s t = Spinning k \<Longrightarrow> 6 < k \<or> mx_counter (mw_mutex s) \<notin> {0, 1} \<Longrightarrow>
    mutex_step s (mutex_at t Adding (mw_mutex s) s)"
| add_hit: "mw_pc s t = Adding \<Longrightarrow> mx_counter (mw_mutex s) = 0 \<Longrightarrow>
    mutex_step s (mutex_at t Holding ((mw_mutex s)\<lparr>mx_counter := mx_counter (mw_mutex s) + 1\<rparr>) s)"
| add_wait: "mw_pc s t = Adding \<Longrightarrow> mx_counter (mw_mutex s) \<noteq> 0 \<Longrightarrow> mx_counter (mw_mutex s) \<noteq> - 1 \<Longrightarrow>
    mutex_step s (mutex_at t Counted ((mw_mutex s)\<lparr>mx_counter := mx_counter (mw_mutex s) + 1\<rparr>) s)"
| push: "mw_pc s t = Counted \<Longrightarrow> mutex_step s (mutex_at t Queued (mutex_push t (mw_mutex s)) s)"
| try_hit: "mw_pc s t = Idle \<Longrightarrow> mutex_try_lock (mw_mutex s) = (True, m') \<Longrightarrow>
    mutex_step s (mutex_at t Holding m' s)"
| subscribe_read: "mw_pc s t = Idle \<Longrightarrow>
    mutex_step s (mutex_at t (Subscribing (mx_expected_count (mw_mutex s))) (mw_mutex s) s)"
| subscribe_write: "mw_pc s t = Subscribing e \<Longrightarrow>
    mutex_step s (mutex_at t Subscribed ((mw_mutex s)\<lparr>mx_expected_count := e - 1\<rparr>) s)"
| subscribe_push: "mw_pc s t = Subscribed \<Longrightarrow> mutex_step s (mutex_at t Queued (mutex_push t (mw_mutex s)) s)"
| unlock_read: "mw_pc s t = Holding \<Longrightarrow>
    mutex_step s (mutex_at t (Exchanging (mx_expected_count (mw_mutex s))) (mw_mutex s) s)"
| unlock_swap: "mw_pc s t = Exchanging e \<Longrightarrow> mx_counter (mw_mutex s) = e \<Longrightarrow>
    mutex_step s (mutex_at t Resetting ((mw_mutex s)\<lparr>mx_counter := 0\<rparr>) s)"
| unlock_miss: "mw_pc s t = Exchanging e \<Longrightarrow> mx_counter (mw_mutex s) \<noteq> e \<Longrightarrow>
    mutex_step s (mutex_at t Missed (mw_mutex s) s)"
| reset: "mw_pc s t = Resetting \<Longrightarrow>
    mutex_step s (mutex_at t Idle ((mw_mutex s)\<lparr>mx_expected_count := 1\<rparr>) s)"
| bump_read: "mw_pc s t = Missed \<Longrightarrow>
    mutex_step s (mutex_at t (Bumping (mx_expected_count (mw_mutex s))) (mw_mutex s) s)"
| bump_write: "mw_pc s t = Bumping e \<Longrightarrow>
    mutex_step s (mutex_at t Waking ((mw_mutex s)\<lparr>mx_expected_count := e + 1\<rparr>) s)"
| wake: "mw_pc s t = Waking \<Longrightarrow> mutex_pop_spin [mw_mutex s] = Some (u, m') \<Longrightarrow>
    mutex_step s (mutex_at u Holding m' (mutex_at t Idle m' s))"

definition mutex_start :: "'t mutex_world \<Rightarrow> bool" where
  "mutex_start s \<longleftrightarrow> mw_mutex s = mutex_new \<and> mw_pc s = (\<lambda>_. Idle)"

fun owner_pc :: "mutex_pc \<Rightarrow> bool" where
  "owner_pc Holding = True"
| "owner_pc (Exchanging e) = True"
| "owner_pc Missed = True"
| "owner_pc (Bumping e) = True"
| "owner_pc Waking = True"
| "owner_pc _ = False"

definition mutex_owners :: "'t mutex_world \<Rightarrow> 't set" where
  "mutex_owners s = {t. owner_pc (mw_pc s t)}"

definition mutex_waiters :: "'t mutex_world \<Rightarrow> 't set" where
  "mutex_waiters s = {t. mw_pc s t \<in> {Counted, Subscribed, Queued}}"

definition mutex_queued :: "'t mutex_world \<Rightarrow> 't set" where
  "mutex_queued s = {t. mw_pc s t = Queued}"

definition mutex_excl :: "'t mutex_world \<Rightarrow> bool" where
  "mutex_excl s \<longleftrightarrow>
     (mx_counter (mw_mutex s) = 0 \<longleftrightarrow> mutex_owners s = {}) \<and>
     (\<forall>t \<in> mutex_owners s. \<forall>u \<in> mutex_owners s. t = u) \<and>
     distinct (mutex_waits (mw_mutex s)) \<and>
     set (mutex_waits (mw_mutex s)) = mutex_queued s"

lemma mutex_at_simps [simp]:
  "mw_mutex (mutex_at t p m s) = m"
  "mw_pc (mutex_at t p m s) = (mw_pc s)(t := p)"
  by (simp_all add: mutex_at_def)

lemma mutex_push_simps [simp]:
  "mx_counter (mutex_push t m) = mx_counter m"
  "mx_expected_count (mutex_push t m) = mx_expected_count m"
  "mutex_waits (mutex_push t m) = mutex_waits m @ [t]"
  by (simp_all add: mutex_push_def mutex_waits_def stl.put_tasks)

lemma mutex_try_lock_True:
  "mutex_try_lock m = (True, m') \<longleftrightarrow> mx_counter m = 0 \<and> m' = m\<lparr>mx_counter := 1\<rparr>"
  by (auto simp: mutex_try_lock_def)

text \<open>The three steps of a subscription that nobody disturbs are the function.\<close>

lemma mutex_subscribe_eq:
  "mutex_low_level_subscribe False (\<lambda>_. False) t m = Inr m' \<longleftrightarrow>
   m' = mutex_push t (m\<lparr>mx_expected_count := mx_expected_count m - 1\<rparr>)"
  by (auto simp: mutex_low_level_subscribe_def sync_task_list_push_eq mutex_push_def)

lemma mutex_subscribe_steps:
  assumes "mw_pc s t = Idle" and "mutex_low_level_subscribe False (\<lambda>_. False) t (mw_mutex s) = Inr m'"
  shows "mutex_step\<^sup>*\<^sup>* s (mutex_at t Queued m' s)"
proof -
  let ?e = "mx_expected_count (mw_mutex s)"
  let ?s1 = "mutex_at t (Subscribing ?e) (mw_mutex s) s" and ?m = "(mw_mutex s)\<lparr>mx_expected_count := ?e - 1\<rparr>"
  have "mutex_step s ?s1" using assms(1) by (rule mutex_step.subscribe_read)
  moreover have "mutex_step ?s1 (mutex_at t Subscribed ?m s)"
    using mutex_step.subscribe_write[of ?s1 t ?e] by (simp add: mutex_at_def)
  moreover have "mutex_step (mutex_at t Subscribed ?m s) (mutex_at t Queued m' s)"
    using mutex_step.subscribe_push[of "mutex_at t Subscribed ?m s" t] assms(2) by (simp add: mutex_subscribe_eq mutex_at_def)
  ultimately show ?thesis by (meson rtranclp.rtrancl_into_rtrancl rtranclp.rtrancl_refl)
qed

lemma mutex_pop_spin_one:
  "mutex_pop_spin [m] = Some (u, m') \<Longrightarrow>
   mutex_waits m = mutex_waits m' @ [u] \<and> mx_counter m' = mx_counter m \<and>
   mx_expected_count m' = mx_expected_count m"
  using stl.get_some[of "mx_wait_queue m"] stl.get_none[of "mx_wait_queue m"]
  by (cases "sync_tasks (mx_wait_queue m)" rule: rev_cases;
      cases "sync_task_list_pop (mx_wait_queue m)") (auto simp: mutex_waits_def)

lemma mutex_set_mem:
  "t \<in> mutex_owners s \<longleftrightarrow> owner_pc (mw_pc s t)"
  "t \<in> mutex_queued s \<longleftrightarrow> mw_pc s t = Queued"
  "t \<in> mutex_waiters s \<longleftrightarrow> mw_pc s t \<in> {Counted, Subscribed, Queued}"
  by (simp_all add: mutex_owners_def mutex_queued_def mutex_waiters_def)

lemma mutex_set_at:
  "mutex_owners (mutex_at t p m s) =
     (if owner_pc p then insert t (mutex_owners s) else mutex_owners s - {t})"
  "mutex_queued (mutex_at t p m s) =
     (if p = Queued then insert t (mutex_queued s) else mutex_queued s - {t})"
  "mutex_waiters (mutex_at t p m s) =
     (if p \<in> {Counted, Subscribed, Queued} then insert t (mutex_waiters s) else mutex_waiters s - {t})"
  by (auto simp: mutex_owners_def mutex_queued_def mutex_waiters_def)

lemma mutex_excl_owner: "mutex_excl s \<Longrightarrow> owner_pc (mw_pc s t) \<Longrightarrow> mutex_owners s = {t}"
  by (auto simp: mutex_excl_def mutex_owners_def)

lemma mutex_excl_locked: "mutex_excl s \<Longrightarrow> owner_pc (mw_pc s t) \<Longrightarrow> mx_counter (mw_mutex s) \<noteq> 0"
  by (auto simp: mutex_excl_def mutex_owners_def)

text \<open>A step of a task that is neither an owner nor queued, and does not become either.\<close>

lemma mutex_excl_idle:
  assumes "mutex_excl s" and "\<not> owner_pc (mw_pc s t)" "mw_pc s t \<noteq> Queued" and "\<not> owner_pc p" "p \<noteq> Queued"
    and "mx_counter m = 0 \<longleftrightarrow> mx_counter (mw_mutex s) = 0" and "mutex_waits m = mutex_waits (mw_mutex s)"
  shows "mutex_excl (mutex_at t p m s)"
proof -
  have "mutex_owners (mutex_at t p m s) = mutex_owners s" "mutex_queued (mutex_at t p m s) = mutex_queued s"
    using assms(2-5) by (auto simp: mutex_set_at mutex_set_mem)
  with assms(1,6,7) show ?thesis by (simp add: mutex_excl_def)
qed

lemma mutex_excl_take:
  assumes "mutex_excl s" and "mx_counter (mw_mutex s) = 0" and "mw_pc s t \<noteq> Queued"
    and "mx_counter m \<noteq> 0" and "mutex_waits m = mutex_waits (mw_mutex s)"
  shows "mutex_excl (mutex_at t Holding m s)"
proof -
  have "mutex_owners s = {}" using assms(1,2) by (simp add: mutex_excl_def)
  then have "mutex_owners (mutex_at t Holding m s) = {t}" "mutex_queued (mutex_at t Holding m s) = mutex_queued s"
    using assms(3) by (auto simp: mutex_set_at mutex_set_mem)
  with assms(1,4,5) show ?thesis by (simp add: mutex_excl_def)
qed

lemma mutex_excl_enqueue:
  assumes "mutex_excl s" and "mw_pc s t = Subscribed \<or> mw_pc s t = Counted"
    and "mx_counter m = mx_counter (mw_mutex s)" and "mutex_waits m = mutex_waits (mw_mutex s) @ [t]"
  shows "mutex_excl (mutex_at t Queued m s)"
proof -
  have "mutex_owners (mutex_at t Queued m s) = mutex_owners s" "t \<notin> mutex_queued s"
    using assms(2) by (auto simp: mutex_set_at mutex_set_mem)
  with assms show ?thesis by (simp add: mutex_excl_def mutex_set_at)
qed

text \<open>A step of the owner: it keeps the mutex with the same counter, or frees it.\<close>

lemma mutex_excl_owner_step:
  assumes "mutex_excl s" and "owner_pc (mw_pc s t)" and "mutex_waits m = mutex_waits (mw_mutex s)"
    and "(owner_pc p \<and> mx_counter m = mx_counter (mw_mutex s)) \<or> (p = Resetting \<and> mx_counter m = 0)"
  shows "mutex_excl (mutex_at t p m s)"
proof -
  have own: "mutex_owners s = {t}" by (rule mutex_excl_owner[OF assms(1,2)])
  have q: "p \<noteq> Queued" "mw_pc s t \<noteq> Queued" using assms(2,4) by (cases p; cases "mw_pc s t"; simp)+
  have "mutex_owners (mutex_at t p m s) = (if owner_pc p then {t} else {})" using own by (auto simp: mutex_set_at)
  moreover have "mutex_queued (mutex_at t p m s) = mutex_queued s" using q by (auto simp: mutex_set_at mutex_set_mem)
  moreover have "mx_counter m = 0 \<longleftrightarrow> \<not> owner_pc p"
    using mutex_excl_locked[OF assms(1,2)] assms(4) by (elim disjE conjE) simp_all
  ultimately show ?thesis using assms(1,3) by (cases "owner_pc p") (simp_all add: mutex_excl_def)
qed

lemma mutex_excl_wake:
  assumes excl: "mutex_excl s" and t: "mw_pc s t = Waking" and pop: "mutex_pop_spin [mw_mutex s] = Some (u, m')"
  shows "mutex_excl (mutex_at u Holding m' (mutex_at t Idle m' s)) \<and> mw_pc s u = Queued"
proof -
  note p = mutex_pop_spin_one[OF pop]
  have "u \<in> mutex_queued s" using p excl by (auto simp: mutex_excl_def)
  then have u: "mw_pc s u = Queued" by (simp add: mutex_set_mem)
  have own: "mutex_owners s = {t}" by (rule mutex_excl_owner[OF excl]) (simp add: t)
  have "mutex_owners (mutex_at u Holding m' (mutex_at t Idle m' s)) = {u}" using own by (simp add: mutex_set_at)
  moreover have "mutex_queued (mutex_at u Holding m' (mutex_at t Idle m' s)) = mutex_queued s - {u}"
    using t by (auto simp: mutex_set_at mutex_set_mem)
  moreover have "distinct (mutex_waits m')" "set (mutex_waits m') = mutex_queued s - {u}"
    using p excl by (auto simp: mutex_excl_def)
  moreover have "mx_counter m' \<noteq> 0" using p mutex_excl_locked[OF excl, of t] t by simp
  ultimately show ?thesis using u by (simp add: mutex_excl_def)
qed

lemma mutex_excl_step:
  assumes excl: "mutex_excl s" and step: "mutex_step s s'"
  shows "mutex_excl s'"
  using step
proof (cases rule: mutex_step.cases)
  case (add_wait t)
  have "mx_counter (mw_mutex s) + 1 \<noteq> 0" using add_wait(4) by (metis add_eq_0_iff2)
  with add_wait excl mutex_excl_idle[of s t Counted "(mw_mutex s)\<lparr>mx_counter := mx_counter (mw_mutex s) + 1\<rparr>"] show ?thesis by simp
next
  case (wake t u m')
  with mutex_excl_wake[OF excl] show ?thesis by simp
next
  case (spin_hit t k m')
  with excl mutex_excl_take[of s t m'] show ?thesis by (simp add: mutex_try_lock_True)
next
  case (try_hit t m')
  with excl mutex_excl_take[of s t m'] show ?thesis by (simp add: mutex_try_lock_True)
next
  case (add_hit t)
  with excl mutex_excl_take[of s t "(mw_mutex s)\<lparr>mx_counter := mx_counter (mw_mutex s) + 1\<rparr>"] show ?thesis by simp
next
  case (spin_start t)
  with excl mutex_excl_idle[of s t "Spinning 0" "mw_mutex s"] show ?thesis by simp
next
  case (spin_again t k)
  with excl mutex_excl_idle[of s t "Spinning (Suc k)" "mw_mutex s"] show ?thesis by simp
next
  case (spin_stop t k)
  with excl mutex_excl_idle[of s t Adding "mw_mutex s"] show ?thesis by simp
next
  case (push t)
  with excl mutex_excl_enqueue[of s t "mutex_push t (mw_mutex s)"] show ?thesis by simp
next
  case (subscribe_read t)
  with excl mutex_excl_idle[of s t "Subscribing (mx_expected_count (mw_mutex s))" "mw_mutex s"] show ?thesis by simp
next
  case (subscribe_write t e)
  with excl mutex_excl_idle[of s t Subscribed "(mw_mutex s)\<lparr>mx_expected_count := e - 1\<rparr>"] show ?thesis by simp
next
  case (subscribe_push t)
  with excl mutex_excl_enqueue[of s t "mutex_push t (mw_mutex s)"] show ?thesis by simp
next
  case (unlock_read t)
  with excl mutex_excl_owner_step[of s t "mw_mutex s" "Exchanging (mx_expected_count (mw_mutex s))"] show ?thesis by simp
next
  case (unlock_swap t e)
  with excl mutex_excl_owner_step[of s t "(mw_mutex s)\<lparr>mx_counter := 0\<rparr>" Resetting] show ?thesis by simp
next
  case (unlock_miss t e)
  with excl mutex_excl_owner_step[of s t "mw_mutex s" Missed] show ?thesis by simp
next
  case (reset t)
  with excl mutex_excl_idle[of s t Idle "(mw_mutex s)\<lparr>mx_expected_count := 1\<rparr>"] show ?thesis by simp
next
  case (bump_read t)
  with excl mutex_excl_owner_step[of s t "mw_mutex s" "Bumping (mx_expected_count (mw_mutex s))"] show ?thesis by simp
next
  case (bump_write t e)
  with excl mutex_excl_owner_step[of s t "(mw_mutex s)\<lparr>mx_expected_count := e + 1\<rparr>" Waking] show ?thesis by simp
qed

interpretation mxw: invariant_system mutex_start mutex_step mutex_excl
proof unfold_locales
  fix s :: "'t mutex_world"
  assume "mutex_start s"
  then show "mutex_excl s"
    by (simp add: mutex_start_def mutex_excl_def mutex_new_def mutex_owners_def mutex_queued_def
          mutex_waits_def)
qed (rule mutex_excl_step)

section \<open>No waiter is left behind\<close>

text \<open>
  The accounting of \<open>unlock\<close>. The cell \<open>expected_count\<close> is not synchronised, so it holds for runs without a data race on it: at most one task
  is within a sequence of accesses that starts with a read, from the read of \<open>unlock\<close> to the exchange and the reset, from the second read to
  its write, and from the read of \<open>low_level_subscribe\<close> to its write. Besides, a task subscribes only while the mutex is held, and fewer
  than \<open>2 ^ 64\<close> tasks wait. Taking the mutex, waiting for it and passing it on interleave freely with all this.
\<close>

fun in_cell :: "mutex_pc \<Rightarrow> bool" where
  "in_cell (Exchanging e) = True"
| "in_cell Resetting = True"
| "in_cell (Bumping e) = True"
| "in_cell (Subscribing e) = True"
| "in_cell _ = False"

definition race_free :: "'t mutex_world \<Rightarrow> bool" where
  "race_free s \<longleftrightarrow> (\<forall>t u. in_cell (mw_pc s t) \<and> in_cell (mw_pc s u) \<longrightarrow> t = u)"

definition race_free_step :: "'t mutex_world \<Rightarrow> 't mutex_world \<Rightarrow> bool" where
  "race_free_step s s' \<longleftrightarrow> mutex_step s s' \<and> card (mutex_waiters s') < 2 ^ 64 \<and> race_free s' \<and>
     (\<forall>t e. mw_pc s t = Idle \<and> mw_pc s' t = Subscribing e \<longrightarrow> mx_counter (mw_mutex s) \<noteq> 0)"

text \<open>
  What a task at a place of the code knows. \<open>c\<close> and \<open>e\<close> are the two counts, \<open>n\<close> the number of waiting tasks, and \<open>r\<close> says that some task has
  freed the mutex and not yet reset the expected count, which is then taken for 1.
\<close>

fun pc_knows :: "64 word \<Rightarrow> 64 word \<Rightarrow> nat \<Rightarrow> bool \<Rightarrow> mutex_pc \<Rightarrow> bool" where
  "pc_knows c e n r Holding = (c = (if r then 1 else e) + of_nat n)"
| "pc_knows c e n r (Exchanging e') = (\<not> r \<and> e' = e \<and> c = e + of_nat n)"
| "pc_knows c e n r Missed = (\<not> r \<and> c = e + of_nat n \<and> n \<noteq> 0)"
| "pc_knows c e n r (Bumping e') = (\<not> r \<and> e' = e \<and> c = e + of_nat n \<and> n \<noteq> 0)"
| "pc_knows c e n r Waking = (\<not> r \<and> c + 1 = e + of_nat n \<and> n \<noteq> 0)"
| "pc_knows c e n r (Subscribing e') = (\<not> r \<and> e' = e \<and> c \<noteq> 0)"
| "pc_knows c e n r _ = True"

definition resetting :: "'t mutex_world \<Rightarrow> bool" where
  "resetting s \<longleftrightarrow> (\<exists>t. mw_pc s t = Resetting)"

definition mutex_knows :: "'t mutex_world \<Rightarrow> mutex_pc \<Rightarrow> bool" where
  "mutex_knows s =
     pc_knows (mx_counter (mw_mutex s)) (mx_expected_count (mw_mutex s)) (card (mutex_waiters s)) (resetting s)"

definition mutex_counts :: "'t mutex_world \<Rightarrow> bool" where
  "mutex_counts s \<longleftrightarrow> mutex_excl s \<and> race_free s \<and> finite (mutex_waiters s) \<and> card (mutex_waiters s) < 2 ^ 64 \<and>
     (\<forall>t. mutex_knows s (mw_pc s t)) \<and>
     (mx_counter (mw_mutex s) = 0 \<longrightarrow> card (mutex_waiters s) = 0 \<and> (\<not> resetting s \<longrightarrow> mx_expected_count (mw_mutex s) = 1))"

lemma mutex_countsD:
  assumes "mutex_counts s"
  shows "mutex_excl s" and "race_free s" and "finite (mutex_waiters s)" and "card (mutex_waiters s) < 2 ^ 64"
    and "mutex_knows s (mw_pc s t)"
    and "mx_counter (mw_mutex s) = 0 \<Longrightarrow> card (mutex_waiters s) = 0"
    and "mx_counter (mw_mutex s) = 0 \<Longrightarrow> \<not> resetting s \<Longrightarrow> mx_expected_count (mw_mutex s) = 1"
  using assms by (auto simp: mutex_counts_def)

lemma resetting_at:
  "resetting (mutex_at t p m s) \<longleftrightarrow> p = Resetting \<or> (\<exists>u. u \<noteq> t \<and> mw_pc s u = Resetting)"
  by (auto simp: resetting_def)

lemma resetting_at_same: "p \<noteq> Resetting \<Longrightarrow> mw_pc s t \<noteq> Resetting \<Longrightarrow> resetting (mutex_at t p m s) \<longleftrightarrow> resetting s"
  by (auto simp: resetting_def)

text \<open>Within the cell no other task resets.\<close>

lemma in_cell_alone: "race_free s \<Longrightarrow> in_cell (mw_pc s t) \<Longrightarrow> mw_pc s t \<noteq> Resetting \<Longrightarrow> \<not> resetting s"
  by (metis in_cell.simps(2) race_free_def resetting_def)

text \<open>
  A step of one task: the others still know what they knew, and the new place of the task is right.
\<close>

lemma mutex_countsI:
  assumes cnt: "mutex_counts s" and step: "race_free_step s (mutex_at t p m s)"
    and w: "mutex_waiters (mutex_at t p m s) = W" "finite W"
    and others: "\<And>u. u \<noteq> t \<Longrightarrow> mutex_knows s (mw_pc s u) \<Longrightarrow> mutex_knows (mutex_at t p m s) (mw_pc s u)"
    and own: "mutex_knows (mutex_at t p m s) p"
    and free: "mx_counter m = 0 \<Longrightarrow> card W = 0 \<and> (\<not> resetting (mutex_at t p m s) \<longrightarrow> mx_expected_count m = 1)"
  shows "mutex_counts (mutex_at t p m s)"
proof -
  have "mutex_excl (mutex_at t p m s)" using mutex_excl_step[OF mutex_countsD(1)[OF cnt]] step by (simp add: race_free_step_def)
  moreover have "mutex_knows (mutex_at t p m s) (mw_pc (mutex_at t p m s) u)" for u
    using own others[of u] mutex_countsD(5)[OF cnt, of u] by simp
  ultimately show ?thesis using step w free by (simp add: mutex_counts_def race_free_step_def)
qed

text \<open>Steps that change neither a count nor who waits.\<close>

lemma mutex_counts_move:
  assumes cnt: "mutex_counts s" and step: "race_free_step s (mutex_at t p m s)"
    and m: "mx_counter m = mx_counter (mw_mutex s)" "mx_expected_count m = mx_expected_count (mw_mutex s)"
    and p: "p \<noteq> Resetting" "mw_pc s t \<noteq> Resetting"
    and w: "p \<in> {Counted, Subscribed, Queued} \<longleftrightarrow> mw_pc s t \<in> {Counted, Subscribed, Queued}"
    and own: "mutex_knows s p"
  shows "mutex_counts (mutex_at t p m s)"
proof -
  have W: "mutex_waiters (mutex_at t p m s) = mutex_waiters s" using w by (auto simp: mutex_set_at mutex_set_mem)
  have k: "mutex_knows (mutex_at t p m s) = mutex_knows s"
    using m W resetting_at_same[OF p, of m] by (simp add: mutex_knows_def fun_eq_iff)
  show ?thesis
    by (rule mutex_countsI[OF cnt step W])
       (use mutex_countsD[OF cnt] m own k resetting_at_same[OF p, of m] in simp_all)
qed

text \<open>A task that neither has the mutex nor is within the cell knows nothing.\<close>

lemma pc_knows_outside: "\<not> owner_pc p \<Longrightarrow> \<not> in_cell p \<Longrightarrow> pc_knows c e n r p"
  by (cases p) simp_all

lemma pc_knows_Resetting: "pc_knows c e n r Resetting"
  by simp

lemma mutex_counts_take:
  assumes cnt: "mutex_counts s" and free: "mx_counter (mw_mutex s) = 0" and t: "mw_pc s t \<notin> {Counted, Subscribed, Queued, Resetting}"
    and m: "mx_counter m = 1" "mx_expected_count m = mx_expected_count (mw_mutex s)"
    and step: "race_free_step s (mutex_at t Holding m s)"
  shows "mutex_counts (mutex_at t Holding m s)"
proof (rule mutex_countsI[OF cnt step])
  have W: "card (mutex_waiters s) = 0" by (rule mutex_countsD(6)[OF cnt free])
  then have none: "mutex_waiters s = {}" using mutex_countsD(3)[OF cnt] by simp
  then show W': "mutex_waiters (mutex_at t Holding m s) = {}" by (simp add: mutex_set_at)
  have "mutex_owners s = {}" using mutex_countsD(1)[OF cnt] free by (simp add: mutex_excl_def)
  then have no: "\<not> owner_pc (mw_pc s u)" for u by (auto simp: mutex_owners_def)
  have r: "resetting (mutex_at t Holding m s) \<longleftrightarrow> resetting s" by (rule resetting_at_same) (use t in auto)
  show "mutex_knows (mutex_at t Holding m s) (mw_pc s u)" if "u \<noteq> t" "mutex_knows s (mw_pc s u)" for u
    using that(2) no[of u] free by (cases "mw_pc s u") (simp_all add: mutex_knows_def)
  show "mutex_knows (mutex_at t Holding m s) Holding"
    using mutex_countsD(7)[OF cnt free] m W' r by (simp add: mutex_knows_def)
qed (use m in simp_all)

text \<open>One more waiting task.\<close>

lemma mutex_waiters_more:
  assumes "mutex_counts s" and "mw_pc s t \<notin> {Counted, Subscribed, Queued}" and "p \<in> {Counted, Subscribed, Queued}"
  shows "mutex_waiters (mutex_at t p m s) = insert t (mutex_waiters s)" and "finite (insert t (mutex_waiters s))"
    and "card (insert t (mutex_waiters s)) = card (mutex_waiters s) + 1"
  using assms(2,3) mutex_countsD(3)[OF assms(1)] mutex_set_mem(3)[of t s] by (auto simp: mutex_set_at)

lemma mutex_counts_add:
  assumes cnt: "mutex_counts s" and t: "mw_pc s t = Adding" and c: "mx_counter (mw_mutex s) + 1 \<noteq> 0"
    and m: "m = (mw_mutex s)\<lparr>mx_counter := mx_counter (mw_mutex s) + 1\<rparr>"
    and step: "race_free_step s (mutex_at t Counted m s)"
  shows "mutex_counts (mutex_at t Counted m s)"
proof -
  have "mw_pc s t \<notin> {Counted, Subscribed, Queued}" "Counted \<in> {Counted, Subscribed, Queued}" using t by simp_all
  note w = mutex_waiters_more[OF cnt this]
  have r: "resetting (mutex_at t Counted m s) \<longleftrightarrow> resetting s" by (rule resetting_at_same) (use t in auto)
  show ?thesis
  proof (rule mutex_countsI[OF cnt step w(1,2)])
    show "mutex_knows (mutex_at t Counted m s) (mw_pc s u)" if "u \<noteq> t" "mutex_knows s (mw_pc s u)" for u
      using that(2) w(3) r m c by (cases "mw_pc s u") (simp_all add: mutex_knows_def w(1) algebra_simps)
  qed (use m c in \<open>simp_all add: mutex_knows_def\<close>)
qed

lemma mutex_counts_subscribe:
  assumes cnt: "mutex_counts s" and t: "mw_pc s t = Subscribing e"
    and m: "m = (mw_mutex s)\<lparr>mx_expected_count := e - 1\<rparr>" and step: "race_free_step s (mutex_at t Subscribed m s)"
  shows "mutex_counts (mutex_at t Subscribed m s)"
proof -
  have "mw_pc s t \<notin> {Counted, Subscribed, Queued}" "Subscribed \<in> {Counted, Subscribed, Queued}" using t by simp_all
  note w = mutex_waiters_more[OF cnt this]
  have k: "\<not> resetting s" "e = mx_expected_count (mw_mutex s)" "mx_counter (mw_mutex s) \<noteq> 0"
    using mutex_countsD(5)[OF cnt, of t] t by (simp_all add: mutex_knows_def)
  have r: "\<not> resetting (mutex_at t Subscribed m s)" using k(1) by (auto simp: resetting_def)
  have out: "\<not> in_cell (mw_pc s u)" if "u \<noteq> t" for u
    using mutex_countsD(2)[OF cnt] t that unfolding race_free_def by (metis in_cell.simps(4))
  show ?thesis
  proof (rule mutex_countsI[OF cnt step w(1,2)])
    show "mutex_knows (mutex_at t Subscribed m s) (mw_pc s u)" if "u \<noteq> t" "mutex_knows s (mw_pc s u)" for u
      using that(2) out[OF that(1)] w(3) r m k by (cases "mw_pc s u") (simp_all add: mutex_knows_def w(1) algebra_simps)
  qed (use m k(3) in \<open>simp_all add: mutex_knows_def\<close>)
qed

text \<open>Steps of the owner within the cell: no other task has the mutex or is within the cell.\<close>

lemma mutex_counts_others:
  assumes cnt: "mutex_counts s" and t: "owner_pc (mw_pc s t)" "in_cell (mw_pc s t)" and u: "u \<noteq> t"
  shows "pc_knows c e n r (mw_pc s u)"
proof (rule pc_knows_outside)
  have "mutex_owners s = {t}" by (rule mutex_excl_owner[OF mutex_countsD(1)[OF cnt] t(1)])
  then show "\<not> owner_pc (mw_pc s u)" using u by (auto simp: mutex_owners_def)
  show "\<not> in_cell (mw_pc s u)" using mutex_countsD(2)[OF cnt] t(2) u by (auto simp: race_free_def)
qed

lemma mutex_counts_swap:
  assumes cnt: "mutex_counts s" and t: "mw_pc s t = Exchanging e" and eq: "mx_counter (mw_mutex s) = e"
    and step: "race_free_step s (mutex_at t Resetting ((mw_mutex s)\<lparr>mx_counter := 0\<rparr>) s)"
  shows "mutex_counts (mutex_at t Resetting ((mw_mutex s)\<lparr>mx_counter := 0\<rparr>) s)"
proof (rule mutex_countsI[OF cnt step])
  have "e = e + of_nat (card (mutex_waiters s))" using mutex_countsD(5)[OF cnt, of t] t eq by (auto simp: mutex_knows_def)
  then have "(of_nat (card (mutex_waiters s)) :: 64 word) = 0" by simp
  then have "card (mutex_waiters s) = 0" using of_nat_word_eq_0[OF mutex_countsD(4)[OF cnt]] by simp
  then have "mutex_waiters s = {}" using mutex_countsD(3)[OF cnt] by simp
  then show "mutex_waiters (mutex_at t Resetting ((mw_mutex s)\<lparr>mx_counter := 0\<rparr>) s) = {}" by (simp add: mutex_set_at)
qed (use t mutex_counts_others[OF cnt, of t] in \<open>simp_all add: mutex_knows_def resetting_at\<close>)

lemma mutex_counts_bump:
  assumes cnt: "mutex_counts s" and t: "mw_pc s t = Bumping e"
    and step: "race_free_step s (mutex_at t Waking ((mw_mutex s)\<lparr>mx_expected_count := e + 1\<rparr>) s)"
  shows "mutex_counts (mutex_at t Waking ((mw_mutex s)\<lparr>mx_expected_count := e + 1\<rparr>) s)"
proof (rule mutex_countsI[OF cnt step])
  show W: "mutex_waiters (mutex_at t Waking ((mw_mutex s)\<lparr>mx_expected_count := e + 1\<rparr>) s) = mutex_waiters s"
    using t by (auto simp: mutex_set_at mutex_set_mem)
  have k: "\<not> resetting s" "e = mx_expected_count (mw_mutex s)" "mx_counter (mw_mutex s) = e + of_nat (card (mutex_waiters s))"
    "card (mutex_waiters s) \<noteq> 0" using mutex_countsD(5)[OF cnt, of t] t by (simp_all add: mutex_knows_def)
  then show "mutex_knows (mutex_at t Waking ((mw_mutex s)\<lparr>mx_expected_count := e + 1\<rparr>) s) Waking"
    using W by (auto simp: mutex_knows_def resetting_def)
  show "finite (mutex_waiters s)" by (rule mutex_countsD(3)[OF cnt])
qed (use t mutex_counts_others[OF cnt, of t] mutex_excl_locked[OF mutex_countsD(1)[OF cnt], of t] in \<open>simp_all add: mutex_knows_def\<close>)

lemma mutex_counts_reset:
  assumes cnt: "mutex_counts s" and t: "mw_pc s t = Resetting"
    and step: "race_free_step s (mutex_at t Idle ((mw_mutex s)\<lparr>mx_expected_count := 1\<rparr>) s)"
  shows "mutex_counts (mutex_at t Idle ((mw_mutex s)\<lparr>mx_expected_count := 1\<rparr>) s)"
proof (rule mutex_countsI[OF cnt step])
  let ?s = "mutex_at t Idle ((mw_mutex s)\<lparr>mx_expected_count := 1\<rparr>) s"
  show W: "mutex_waiters ?s = mutex_waiters s" using t by (auto simp: mutex_set_at mutex_set_mem)
  have out: "\<not> in_cell (mw_pc s u)" if "u \<noteq> t" for u
    using mutex_countsD(2)[OF cnt] t that unfolding race_free_def by (metis in_cell.simps(2))
  have r: "resetting s" "\<not> resetting ?s" using t out unfolding resetting_def by (force, simp, metis in_cell.simps(2))
  show "mutex_knows ?s (mw_pc s u)" if "u \<noteq> t" "mutex_knows s (mw_pc s u)" for u
    using that(2) out[OF that(1)] r W by (cases "mw_pc s u") (simp_all add: mutex_knows_def)
  show "finite (mutex_waiters s)" by (rule mutex_countsD(3)[OF cnt])
qed (use mutex_countsD(6)[OF cnt] in \<open>simp_all add: mutex_knows_def\<close>)

lemma mutex_counts_wake:
  assumes cnt: "mutex_counts s" and t: "mw_pc s t = Waking" and pop: "mutex_pop_spin [mw_mutex s] = Some (u, m')"
    and step: "race_free_step s (mutex_at u Holding m' (mutex_at t Idle m' s))"
  shows "mutex_counts (mutex_at u Holding m' (mutex_at t Idle m' s))"
proof -
  let ?s = "mutex_at u Holding m' (mutex_at t Idle m' s)"
  note ex = mutex_countsD(1)[OF cnt] and p = mutex_pop_spin_one[OF pop]
  note e = mutex_excl_wake[OF ex t pop]
  have w: "mutex_waiters ?s = mutex_waiters s - {u}" using t by (auto simp: mutex_set_at mutex_set_mem)
  have uin: "u \<in> mutex_waiters s" using e by (simp add: mutex_set_mem)
  note card = card_Suc_Diff1[OF mutex_countsD(3)[OF cnt] uin]
  have k: "\<not> resetting s" "mx_counter (mw_mutex s) + 1 = mx_expected_count (mw_mutex s) + of_nat (card (mutex_waiters s))"
    using mutex_countsD(5)[OF cnt, of t] t by (simp_all add: mutex_knows_def)
  have r: "\<not> resetting ?s" using k(1) by (auto simp: resetting_def)
  have c: "mx_counter m' = mx_expected_count m' + of_nat (card (mutex_waiters s - {u}))"
  proof -
    have "(of_nat (card (mutex_waiters s)) :: 64 word) = of_nat (card (mutex_waiters s - {u})) + 1"
      unfolding card[symmetric] by (simp only: of_nat_Suc add.commute)
    then show ?thesis using k(2) p by (simp only: add.assoc[symmetric] add_right_cancel)
  qed
  have pos: "mx_counter m' \<noteq> 0" using mutex_excl_locked[OF ex, of t] t p by simp
  have "mutex_knows ?s (mw_pc ?s x)" for x
  proof (cases "x = t \<or> x = u")
    case True
    then show ?thesis using c r w by (auto simp: mutex_knows_def)
  next
    case False
    have "mutex_owners s = {t}" by (rule mutex_excl_owner[OF ex]) (simp add: t)
    then have "\<not> owner_pc (mw_pc s x)" using False by (auto simp: mutex_owners_def)
    then show ?thesis using False mutex_countsD(5)[OF cnt, of x] r p pos by (cases "mw_pc s x") (simp_all add: mutex_knows_def)
  qed
  then show ?thesis using e step pos w mutex_countsD(3)[OF cnt] by (simp add: mutex_counts_def race_free_step_def)
qed

lemma mutex_counts_step:
  assumes cnt: "mutex_counts s" and step: "race_free_step s s'"
  shows "mutex_counts s'"
proof -
  note know = mutex_countsD(5)[OF cnt, unfolded mutex_knows_def]
  note move = mutex_counts_move[OF cnt, unfolded mutex_knows_def]
  have ms: "mutex_step s s'" and rf: "race_free s'"
    and subs: "\<And>t e. mw_pc s t = Idle \<Longrightarrow> mw_pc s' t = Subscribing e \<Longrightarrow> mx_counter (mw_mutex s) \<noteq> 0"
    using step by (auto simp: race_free_step_def)
  have alone: "\<not> resetting s" if "s' = mutex_at t p m s" "in_cell p" "p \<noteq> Resetting" "mw_pc s t \<noteq> Resetting" for t p m
    using in_cell_alone[OF rf, of t] that resetting_at_same[of p s t m] by simp
  from ms show ?thesis
  proof (cases rule: mutex_step.cases)
    case (spin_start t)
    with move[of t "Spinning 0" "mw_mutex s"] step show ?thesis by simp
  next
    case (spin_hit t k m')
    with mutex_counts_take[OF cnt, of t m'] step show ?thesis by (simp add: mutex_try_lock_True)
  next
    case (spin_again t k)
    with move[of t "Spinning (Suc k)" "mw_mutex s"] step show ?thesis by simp
  next
    case (spin_stop t k)
    with move[of t Adding "mw_mutex s"] step show ?thesis by simp
  next
    case (add_hit t)
    with mutex_counts_take[OF cnt, of t "(mw_mutex s)\<lparr>mx_counter := 1\<rparr>"] step show ?thesis by simp
  next
    case (add_wait t)
    have "mx_counter (mw_mutex s) + 1 \<noteq> 0" using add_wait(4) by (metis add_eq_0_iff2)
    with add_wait mutex_counts_add[OF cnt, of t] step show ?thesis by simp
  next
    case (push t)
    with move[of t Queued "mutex_push t (mw_mutex s)"] step show ?thesis by simp
  next
    case (try_hit t m')
    with mutex_counts_take[OF cnt, of t m'] step show ?thesis by (simp add: mutex_try_lock_True)
  next
    case (subscribe_read t)
    let ?p = "Subscribing (mx_expected_count (mw_mutex s))"
    have "\<not> resetting s" "mx_counter (mw_mutex s) \<noteq> 0" using alone[of t ?p "mw_mutex s"] subs[of t] subscribe_read by simp_all
    with subscribe_read move[of t ?p "mw_mutex s"] step show ?thesis by simp
  next
    case (subscribe_write t e)
    with mutex_counts_subscribe[OF cnt, of t e] step show ?thesis by simp
  next
    case (subscribe_push t)
    with move[of t Queued "mutex_push t (mw_mutex s)"] step show ?thesis by simp
  next
    case (unlock_read t)
    let ?p = "Exchanging (mx_expected_count (mw_mutex s))"
    have "\<not> resetting s" using alone[of t ?p "mw_mutex s"] unlock_read by simp
    with unlock_read move[of t ?p "mw_mutex s"] know[of t] step show ?thesis by simp
  next
    case (unlock_swap t e)
    with mutex_counts_swap[OF cnt, of t e] step show ?thesis by simp
  next
    case (unlock_miss t e)
    then have k: "\<not> resetting s" "mx_counter (mw_mutex s) = mx_expected_count (mw_mutex s) + of_nat (card (mutex_waiters s))"
      "mx_counter (mw_mutex s) \<noteq> mx_expected_count (mw_mutex s)" using know[of t] by auto
    then have "card (mutex_waiters s) \<noteq> 0" by (cases "card (mutex_waiters s) = 0") simp_all
    with k unlock_miss move[of t Missed "mw_mutex s"] step show ?thesis by simp
  next
    case (reset t)
    with mutex_counts_reset[OF cnt, of t] step show ?thesis by simp
  next
    case (bump_read t)
    let ?p = "Bumping (mx_expected_count (mw_mutex s))"
    have "\<not> resetting s" using alone[of t ?p "mw_mutex s"] bump_read by simp
    with bump_read move[of t ?p "mw_mutex s"] know[of t] step show ?thesis by simp
  next
    case (bump_write t e)
    with mutex_counts_bump[OF cnt, of t e] step show ?thesis by simp
  next
    case (wake t u m')
    with mutex_counts_wake[OF cnt, of t u m'] step show ?thesis by simp
  qed
qed

interpretation mxq: invariant_system mutex_start race_free_step mutex_counts
proof unfold_locales
  fix s :: "'t mutex_world"
  assume "mutex_start s"
  then show "mutex_counts s"
    using mxw.inv_start[of s]
    by (simp add: mutex_counts_def mutex_start_def mutex_new_def mutex_waiters_def mutex_knows_def race_free_def)
qed (rule mutex_counts_step)

section \<open>Properties\<close>

text \<open>
  C3. Mutual exclusion of the shared \<open>Mutex\<close>: in every state that any interleaving of the accesses of shared memory by any number of tasks
  can reach, with try-locks, spinning locks, subscriptions and unlocks, races on the expected count included, at most one task has the mutex
  or is passing it on, and the counter is then not zero.
\<close>

theorem mutex_exclusive:
  assumes "reach mutex_start mutex_step s"
    and "t \<in> mutex_owners s" and "u \<in> mutex_owners s"
  shows "t = u \<and> mutex_is_locked (mw_mutex s)"
  using mxw.reach_inv[OF assms(1)] assms(2,3) by (auto simp: mutex_excl_def mutex_is_locked_def)

definition mutex_demo_start :: "nat mutex_world" where
  "mutex_demo_start = \<lparr>mw_mutex = mutex_new, mw_pc = (\<lambda>_. Idle)\<rparr>"

lemma mutex_at_again [simp]: "mutex_at t p m (mutex_at t q n s) = mutex_at t p m s"
  by (simp add: mutex_at_def)

lemma mutex_demo_reach: "reach mutex_start mutex_step mutex_demo_start"
  by (rule reach_start) (simp add: mutex_start_def mutex_demo_start_def)

lemma mutex_demo_lock:
  "reach mutex_start mutex_step (mutex_at 1 Holding (mutex_new\<lparr>mx_counter := 1\<rparr>) mutex_demo_start)"
  by (rule reach_step[OF mutex_demo_reach])
     (rule mutex_step.try_hit; simp add: mutex_demo_start_def mutex_try_lock_def mutex_new_def)

theorem mutex_exclusive_witness:
  "\<exists>s. reach mutex_start mutex_step s \<and> (1 :: nat) \<in> mutex_owners s \<and> mutex_is_locked (mw_mutex s)"
  using mutex_exclusive[OF mutex_demo_lock, of 1 1] mutex_demo_lock
  by (auto simp: mutex_owners_def)

text \<open>
  C4. In the runs without a data race on the expected count, whose read-and-write sequences of different tasks do not overlap, and in
  which subscriptions are made only while the mutex is held and fewer than \<open>2 ^ 64\<close> tasks wait, a mutex is free only when no task waits for it, and an \<open>unlock\<close> that
  looks for a task to resume finds one in the queue, or there is one on its way to the queue: its spinning loop ends. Locking, waiting and
  unlocking interleave freely otherwise.
\<close>

theorem mutex_no_waiter_left:
  assumes "reach mutex_start race_free_step s"
  shows "(\<not> mutex_is_locked (mw_mutex s) \<longrightarrow> mutex_waiters s = {}) \<and>
    (mw_pc s t = Waking \<longrightarrow> mutex_pop_spin [mw_mutex s] \<noteq> None \<or> (\<exists>u. mw_pc s u \<in> {Counted, Subscribed}))"
proof (intro conjI impI)
  note cnt = mxq.reach_inv[OF assms]
  show "mutex_waiters s = {}" if "\<not> mutex_is_locked (mw_mutex s)"
    using that mutex_countsD(3,6)[OF cnt] by (simp add: mutex_is_locked_def)
  assume t: "mw_pc s t = Waking"
  then have "mutex_waiters s \<noteq> {}" using mutex_countsD(5)[OF cnt, of t] by (auto simp: mutex_knows_def)
  then obtain u where u: "mw_pc s u \<in> {Counted, Subscribed, Queued}" by (auto simp: mutex_waiters_def)
  show "mutex_pop_spin [mw_mutex s] \<noteq> None \<or> (\<exists>u. mw_pc s u \<in> {Counted, Subscribed})"
  proof (cases "mw_pc s u = Queued")
    case True
    then have "u \<in> set (mutex_waits (mw_mutex s))" using mutex_countsD(1)[OF cnt] by (simp add: mutex_excl_def mutex_set_mem)
    then obtain xs x where "mutex_waits (mw_mutex s) = xs @ [x]" by (cases "mutex_waits (mw_mutex s)" rule: rev_cases) auto
    from mutex_pop_spin_snoc[OF this, of "[]"] show ?thesis by auto
  qed (use u in auto)
qed

section \<open>Races\<close>

lemma mutex_spin_out:
  assumes "mw_pc s t = Spinning k" and "k + n = 7" and "mx_counter (mw_mutex s) = 1"
  shows "mutex_step\<^sup>*\<^sup>* s (mutex_at t Adding (mw_mutex s) s)"
  using assms
proof (induction n arbitrary: s k)
  case 0
  then have "mutex_step s (mutex_at t Adding (mw_mutex s) s)"
    by (intro mutex_step.spin_stop[where k = k]) auto
  then show ?case by blast
next
  case (Suc n)
  let ?s = "mutex_at t (Spinning (Suc k)) (mw_mutex s) s"
  have "mutex_step s ?s" using Suc.prems by (intro mutex_step.spin_again) auto
  moreover have "mutex_step\<^sup>*\<^sup>* ?s (mutex_at t Adding (mw_mutex s) s)"
    using Suc.IH[of ?s "Suc k"] Suc.prems by simp
  ultimately show ?case by (rule converse_rtranclp_into_rtranclp)
qed

text \<open>The mutex with a counter, an expected count and a queue.\<close>

definition mutex_of :: "64 word \<Rightarrow> 64 word \<Rightarrow> 't list \<Rightarrow> 't mutex" where
  "mutex_of c e q = \<lparr>mx_counter = c, mx_wait_queue = set_sync_tasks q sync_task_list_new, mx_expected_count = e\<rparr>"

lemma mutex_of_simps [simp]:
  "mx_counter (mutex_of c e q) = c" "mx_expected_count (mutex_of c e q) = e" "mutex_waits (mutex_of c e q) = q"
  "(mutex_of c e q)\<lparr>mx_counter := c'\<rparr> = mutex_of c' e q"
  "(mutex_of c e q)\<lparr>mx_expected_count := e'\<rparr> = mutex_of c e' q"
  "mutex_push t (mutex_of c e q) = mutex_of c e (q @ [t])"
  "mutex_pop_spin [mutex_of c e (q @ [t])] = Some (t, mutex_of c e q)"
  by (simp_all add: mutex_of_def mutex_waits_def mutex_push_def sync_task_list_put_def
        sync_task_list_pop_def set_sync_tasks_def sync_task_list_new_def sync_tasks_def)

definition mutex_state :: "64 word \<Rightarrow> 64 word \<Rightarrow> nat list \<Rightarrow> mutex_pc \<Rightarrow> mutex_pc \<Rightarrow> mutex_pc \<Rightarrow> nat mutex_world" where
  "mutex_state c e q p1 p2 p3 =
     \<lparr>mw_mutex = mutex_of c e q, mw_pc = (\<lambda>_. Idle)(1 := p1, 2 := p2, 3 := p3)\<rparr>"

lemma mutex_state_simps [simp]:
  "mw_mutex (mutex_state c e q p1 p2 p3) = mutex_of c e q"
  "mw_pc (mutex_state c e q p1 p2 p3) 1 = p1"
  "mw_pc (mutex_state c e q p1 p2 p3) (Suc 0) = p1"
  "mw_pc (mutex_state c e q p1 p2 p3) 2 = p2"
  "mw_pc (mutex_state c e q p1 p2 p3) 3 = p3"
  "mutex_at 1 p (mutex_of c' e' q') (mutex_state c e q p1 p2 p3) = mutex_state c' e' q' p p2 p3"
  "mutex_at (Suc 0) p (mutex_of c' e' q') (mutex_state c e q p1 p2 p3) = mutex_state c' e' q' p p2 p3"
  "mutex_at 2 p (mutex_of c' e' q') (mutex_state c e q p1 p2 p3) = mutex_state c' e' q' p1 p p3"
  "mutex_at 3 p (mutex_of c' e' q') (mutex_state c e q p1 p2 p3) = mutex_state c' e' q' p1 p2 p"
  by (simp_all add: mutex_state_def mutex_at_def fun_eq_iff)

lemma mutex_state_start: "mutex_start (mutex_state 0 1 [] Idle Idle Idle)"
  by (simp add: mutex_start_def mutex_state_def mutex_of_def mutex_new_def set_sync_tasks_def
        sync_task_list_new_def spin_lock_new_def fun_eq_iff)

text \<open>Steps of a demonstration with three tasks, race-free ones and any.\<close>

lemma mutex_state_race_free:
  "\<not> (in_cell p1 \<and> in_cell p2) \<Longrightarrow> \<not> (in_cell p1 \<and> in_cell p3) \<Longrightarrow> \<not> (in_cell p2 \<and> in_cell p3) \<Longrightarrow>
   race_free (mutex_state c e q p1 p2 p3)"
  by (auto simp: race_free_def mutex_state_def split: if_splits)

lemma mutex_state_waiters: "card (mutex_waiters (mutex_state c e q p1 p2 p3)) < 2 ^ 64"
proof -
  have "mutex_waiters (mutex_state c e q p1 p2 p3) \<subseteq> {1, 2, 3}" by (auto simp: mutex_waiters_def mutex_state_def split: if_splits)
  then have "card (mutex_waiters (mutex_state c e q p1 p2 p3)) \<le> card {1, 2, 3 :: nat}" by (rule card_mono[rotated]) simp
  then show ?thesis by simp
qed

lemma mutex_state_race_free_step:
  assumes "mutex_step (mutex_state c e q p1 p2 p3) (mutex_state c' e' q' p1' p2' p3')"
    and "race_free (mutex_state c' e' q' p1' p2' p3')" and "c \<noteq> 0 \<or> \<not> in_cell p1' \<and> \<not> in_cell p2' \<and> \<not> in_cell p3'"
  shows "race_free_step (mutex_state c e q p1 p2 p3) (mutex_state c' e' q' p1' p2' p3')"
  using assms mutex_state_waiters by (auto simp: race_free_step_def mutex_state_def split: if_splits)

lemma reach_race_free: "reach mutex_start race_free_step s \<Longrightarrow> reach mutex_start mutex_step s"
  by (induction rule: reach.induct) (auto simp: race_free_step_def intro: reach.intros)

text \<open>Task 1 locks, task 2 subscribes, task 1 unlocks and passes the mutex to task 2.\<close>

lemma mutex_demo_waking: "reach mutex_start race_free_step (mutex_state 1 1 [2] Waking Queued Idle)"
proof -
  note steps = mutex_state_race_free_step mutex_state_race_free
  have "reach mutex_start race_free_step (mutex_state 0 1 [] Idle Idle Idle)"
    by (rule reach_start) (rule mutex_state_start)
  moreover have "race_free_step (mutex_state 0 1 [] Idle Idle Idle) (mutex_state 1 1 [] Holding Idle Idle)"
    using mutex_step.try_hit[of "mutex_state 0 1 [] Idle Idle Idle" 1] by (simp add: mutex_try_lock_def steps)
  moreover have "race_free_step (mutex_state 1 1 [] Holding Idle Idle) (mutex_state 1 1 [] Holding (Subscribing 1) Idle)"
    using mutex_step.subscribe_read[of "mutex_state 1 1 [] Holding Idle Idle" 2] by (simp add: steps)
  moreover have "race_free_step (mutex_state 1 1 [] Holding (Subscribing 1) Idle) (mutex_state 1 0 [] Holding Subscribed Idle)"
    using mutex_step.subscribe_write[of "mutex_state 1 1 [] Holding (Subscribing 1) Idle" 2 1] by (simp add: steps)
  moreover have "race_free_step (mutex_state 1 0 [] Holding Subscribed Idle) (mutex_state 1 0 [] (Exchanging 0) Subscribed Idle)"
    using mutex_step.unlock_read[of "mutex_state 1 0 [] Holding Subscribed Idle" 1] by (simp add: steps)
  moreover have "race_free_step (mutex_state 1 0 [] (Exchanging 0) Subscribed Idle) (mutex_state 1 0 [] Missed Subscribed Idle)"
    using mutex_step.unlock_miss[of "mutex_state 1 0 [] (Exchanging 0) Subscribed Idle" 1 0] by (simp add: steps)
  moreover have "race_free_step (mutex_state 1 0 [] Missed Subscribed Idle) (mutex_state 1 0 [2] Missed Queued Idle)"
    using mutex_step.subscribe_push[of "mutex_state 1 0 [] Missed Subscribed Idle" 2] by (simp add: steps)
  moreover have "race_free_step (mutex_state 1 0 [2] Missed Queued Idle) (mutex_state 1 0 [2] (Bumping 0) Queued Idle)"
    using mutex_step.bump_read[of "mutex_state 1 0 [2] Missed Queued Idle" 1] by (simp add: steps)
  moreover have "race_free_step (mutex_state 1 0 [2] (Bumping 0) Queued Idle) (mutex_state 1 1 [2] Waking Queued Idle)"
    using mutex_step.bump_write[of "mutex_state 1 0 [2] (Bumping 0) Queued Idle" 1 0] by (simp add: steps)
  ultimately show ?thesis by (meson reach_step)
qed

theorem mutex_no_waiter_left_witness:
  "\<exists>s. reach mutex_start race_free_step s \<and> mw_pc s (1 :: nat) = Waking \<and> mutex_pop_spin [mw_mutex s] \<noteq> None"
proof -
  let ?s = "mutex_state 1 1 [2] Waking Queued Idle"
  have "\<not> (\<exists>u. mw_pc ?s u \<in> {Counted, Subscribed})" by (simp add: mutex_state_def)
  with mutex_no_waiter_left[OF mutex_demo_waking, of 1] have "mutex_pop_spin [mw_mutex ?s] \<noteq> None" by simp
  with mutex_demo_waking show ?thesis by (intro exI[of _ ?s]) simp
qed

text \<open>Task 1 locks, task 2 waits, task 1 unlocks and passes the mutex to task 2.\<close>

lemma mutex_state_passed: "reach mutex_start mutex_step (mutex_state 2 2 [] Idle Holding Idle)"
proof -
  have "reach mutex_start mutex_step (mutex_state 0 1 [] Idle Idle Idle)"
    by (rule reach_start) (rule mutex_state_start)
  moreover have "mutex_step (mutex_state 0 1 [] Idle Idle Idle) (mutex_state 1 1 [] Holding Idle Idle)"
    using mutex_step.try_hit[of "mutex_state 0 1 [] Idle Idle Idle" 1] by (simp add: mutex_try_lock_def)
  moreover have "mutex_step (mutex_state 1 1 [] Holding Idle Idle) (mutex_state 1 1 [] Holding (Spinning 0) Idle)"
    using mutex_step.spin_start[of "mutex_state 1 1 [] Holding Idle Idle" 2] by simp
  moreover have "mutex_step\<^sup>*\<^sup>* (mutex_state 1 1 [] Holding (Spinning 0) Idle) (mutex_state 1 1 [] Holding Adding Idle)"
    using mutex_spin_out[of "mutex_state 1 1 [] Holding (Spinning 0) Idle" 2 0 7] by simp
  moreover have "mutex_step (mutex_state 1 1 [] Holding Adding Idle) (mutex_state 2 1 [] Holding Counted Idle)"
    using mutex_step.add_wait[of "mutex_state 1 1 [] Holding Adding Idle" 2] by simp
  moreover have "mutex_step (mutex_state 2 1 [] Holding Counted Idle) (mutex_state 2 1 [2] Holding Queued Idle)"
    using mutex_step.push[of "mutex_state 2 1 [] Holding Counted Idle" 2] by simp
  moreover have "mutex_step (mutex_state 2 1 [2] Holding Queued Idle) (mutex_state 2 1 [2] (Exchanging 1) Queued Idle)"
    using mutex_step.unlock_read[of "mutex_state 2 1 [2] Holding Queued Idle" 1] by simp
  moreover have "mutex_step (mutex_state 2 1 [2] (Exchanging 1) Queued Idle) (mutex_state 2 1 [2] Missed Queued Idle)"
    using mutex_step.unlock_miss[of "mutex_state 2 1 [2] (Exchanging 1) Queued Idle" 1 1] by simp
  moreover have "mutex_step (mutex_state 2 1 [2] Missed Queued Idle) (mutex_state 2 1 [2] (Bumping 1) Queued Idle)"
    using mutex_step.bump_read[of "mutex_state 2 1 [2] Missed Queued Idle" 1] by simp
  moreover have "mutex_step (mutex_state 2 1 [2] (Bumping 1) Queued Idle) (mutex_state 2 2 [2] Waking Queued Idle)"
    using mutex_step.bump_write[of "mutex_state 2 1 [2] (Bumping 1) Queued Idle" 1 1] by simp
  moreover have "mutex_step (mutex_state 2 2 [2] Waking Queued Idle) (mutex_state 2 2 [] Idle Holding Idle)"
    using mutex_step.wake[of "mutex_state 2 2 [2] Waking Queued Idle" 1 2 "mutex_of 2 2 []"] mutex_of_simps(7)[of 2 2 "[]" "2 :: nat"] by simp
  ultimately show ?thesis by (meson reach_step reach_steps)
qed

text \<open>
  The window in \<open>unlock\<close> between the exchange that frees the mutex and the write of
  \<open>expected_count\<close> is a race: a task that takes and releases the free mutex in between reads
  the old count, takes the mutex for contended, and spins in \<open>unlock\<close> for a waiting task although
  no task waits.
\<close>

theorem mutex_unlock_race:
  "\<exists>s. reach mutex_start mutex_step s \<and> mw_pc s (3 :: nat) = Waking \<and> mutex_waiters s = {} \<and>
     mutex_waits (mw_mutex s) = [] \<and> mutex_pop_spin [mw_mutex s] = None"
proof -
  have "reach mutex_start mutex_step (mutex_state 2 2 [] Idle Holding Idle)"
    by (rule mutex_state_passed)
  moreover have "mutex_step (mutex_state 2 2 [] Idle Holding Idle) (mutex_state 2 2 [] Idle (Exchanging 2) Idle)"
    using mutex_step.unlock_read[of "mutex_state 2 2 [] Idle Holding Idle" 2] by simp
  moreover have "mutex_step (mutex_state 2 2 [] Idle (Exchanging 2) Idle) (mutex_state 0 2 [] Idle Resetting Idle)"
    using mutex_step.unlock_swap[of "mutex_state 2 2 [] Idle (Exchanging 2) Idle" 2 2] by simp
  moreover have "mutex_step (mutex_state 0 2 [] Idle Resetting Idle) (mutex_state 1 2 [] Idle Resetting Holding)"
    using mutex_step.try_hit[of "mutex_state 0 2 [] Idle Resetting Idle" 3] by (simp add: mutex_try_lock_def)
  moreover have "mutex_step (mutex_state 1 2 [] Idle Resetting Holding) (mutex_state 1 2 [] Idle Resetting (Exchanging 2))"
    using mutex_step.unlock_read[of "mutex_state 1 2 [] Idle Resetting Holding" 3] by simp
  moreover have "mutex_step (mutex_state 1 2 [] Idle Resetting (Exchanging 2)) (mutex_state 1 2 [] Idle Resetting Missed)"
    using mutex_step.unlock_miss[of "mutex_state 1 2 [] Idle Resetting (Exchanging 2)" 3 2] by simp
  moreover have "mutex_step (mutex_state 1 2 [] Idle Resetting Missed) (mutex_state 1 2 [] Idle Resetting (Bumping 2))"
    using mutex_step.bump_read[of "mutex_state 1 2 [] Idle Resetting Missed" 3] by simp
  moreover have "mutex_step (mutex_state 1 2 [] Idle Resetting (Bumping 2)) (mutex_state 1 3 [] Idle Resetting Waking)"
    using mutex_step.bump_write[of "mutex_state 1 2 [] Idle Resetting (Bumping 2)" 3 2] by simp
  moreover have "mutex_step (mutex_state 1 3 [] Idle Resetting Waking) (mutex_state 1 1 [] Idle Idle Waking)"
    using mutex_step.reset[of "mutex_state 1 3 [] Idle Resetting Waking" 2] by simp
  ultimately have "reach mutex_start mutex_step (mutex_state 1 1 [] Idle Idle Waking)" by (meson reach_step)
  moreover have "mutex_waiters (mutex_state 1 1 [] Idle Idle Waking) = {}"
    by (auto simp: mutex_waiters_def mutex_state_def)
  moreover have "mutex_pop_spin [mutex_of 1 1 ([] :: nat list)] = None"
    by (simp add: mutex_of_def sync_task_list_pop_def set_sync_tasks_def sync_tasks_def)
  ultimately show ?thesis by (intro exI[of _ "mutex_state 1 1 [] Idle Idle Waking"]) simp
qed

text \<open>
  \<open>low_level_subscribe\<close> does not check the counter: a task whose \<open>try_lock\<close> failed while
  another task had the mutex subscribes after that task released it, and then waits in the queue
  of a free mutex.
\<close>

theorem mutex_subscribe_race:
  "\<exists>s. reach mutex_start mutex_step s \<and> mw_pc s (2 :: nat) = Queued \<and>
     \<not> mutex_is_locked (mw_mutex s) \<and> mutex_owners s = {}"
proof -
  have "reach mutex_start mutex_step (mutex_state 0 1 [] Idle Idle Idle)"
    by (rule reach_start) (rule mutex_state_start)
  moreover have "mutex_step (mutex_state 0 1 [] Idle Idle Idle) (mutex_state 1 1 [] Holding Idle Idle)"
    using mutex_step.try_hit[of "mutex_state 0 1 [] Idle Idle Idle" 1] by (simp add: mutex_try_lock_def)
  moreover have "mutex_step (mutex_state 1 1 [] Holding Idle Idle) (mutex_state 1 1 [] (Exchanging 1) Idle Idle)"
    using mutex_step.unlock_read[of "mutex_state 1 1 [] Holding Idle Idle" 1] by simp
  moreover have "mutex_step (mutex_state 1 1 [] (Exchanging 1) Idle Idle) (mutex_state 0 1 [] Resetting Idle Idle)"
    using mutex_step.unlock_swap[of "mutex_state 1 1 [] (Exchanging 1) Idle Idle" 1 1] by simp
  moreover have "mutex_step (mutex_state 0 1 [] Resetting Idle Idle) (mutex_state 0 1 [] Idle Idle Idle)"
    using mutex_step.reset[of "mutex_state 0 1 [] Resetting Idle Idle" 1] by simp
  moreover have "mutex_step (mutex_state 0 1 [] Idle Idle Idle) (mutex_state 0 1 [] Idle (Subscribing 1) Idle)"
    using mutex_step.subscribe_read[of "mutex_state 0 1 [] Idle Idle Idle" 2] by simp
  moreover have "mutex_step (mutex_state 0 1 [] Idle (Subscribing 1) Idle) (mutex_state 0 0 [] Idle Subscribed Idle)"
    using mutex_step.subscribe_write[of "mutex_state 0 1 [] Idle (Subscribing 1) Idle" 2 1] by simp
  moreover have "mutex_step (mutex_state 0 0 [] Idle Subscribed Idle) (mutex_state 0 0 [2] Idle Queued Idle)"
    using mutex_step.subscribe_push[of "mutex_state 0 0 [] Idle Subscribed Idle" 2] by simp
  ultimately have "reach mutex_start mutex_step (mutex_state 0 0 [2] Idle Queued Idle)" by (meson reach_step)
  moreover have "mutex_owners (mutex_state 0 0 [2] Idle Queued Idle) = {}" by (auto simp: mutex_owners_def mutex_state_def)
  ultimately show ?thesis by (intro exI[of _ "mutex_state 0 0 [2] Idle Queued Idle"]) (simp add: mutex_is_locked_def)
qed

text \<open>
  The cell \<open>expected_count\<close> is not synchronised: a subscription that is made while the mutex is held, between the read of the cell and the
  exchange in \<open>unlock\<close>, is overlooked by the holder, and its task waits in the queue of a free mutex whose counts are those of a new one.
\<close>

theorem mutex_cell_race:
  "\<exists>s. reach mutex_start mutex_step s \<and> mw_pc s (2 :: nat) = Queued \<and>
     \<not> mutex_is_locked (mw_mutex s) \<and> mutex_owners s = {}"
proof -
  have "reach mutex_start mutex_step (mutex_state 0 1 [] Idle Idle Idle)"
    by (rule reach_start) (rule mutex_state_start)
  moreover have "mutex_step (mutex_state 0 1 [] Idle Idle Idle) (mutex_state 1 1 [] Holding Idle Idle)"
    using mutex_step.try_hit[of "mutex_state 0 1 [] Idle Idle Idle" 1] by (simp add: mutex_try_lock_def)
  moreover have "mutex_step (mutex_state 1 1 [] Holding Idle Idle) (mutex_state 1 1 [] (Exchanging 1) Idle Idle)"
    using mutex_step.unlock_read[of "mutex_state 1 1 [] Holding Idle Idle" 1] by simp
  moreover have "mutex_step (mutex_state 1 1 [] (Exchanging 1) Idle Idle) (mutex_state 1 1 [] (Exchanging 1) (Subscribing 1) Idle)"
    using mutex_step.subscribe_read[of "mutex_state 1 1 [] (Exchanging 1) Idle Idle" 2] by simp
  moreover have "mutex_step (mutex_state 1 1 [] (Exchanging 1) (Subscribing 1) Idle) (mutex_state 1 0 [] (Exchanging 1) Subscribed Idle)"
    using mutex_step.subscribe_write[of "mutex_state 1 1 [] (Exchanging 1) (Subscribing 1) Idle" 2 1] by simp
  moreover have "mutex_step (mutex_state 1 0 [] (Exchanging 1) Subscribed Idle) (mutex_state 1 0 [2] (Exchanging 1) Queued Idle)"
    using mutex_step.subscribe_push[of "mutex_state 1 0 [] (Exchanging 1) Subscribed Idle" 2] by simp
  moreover have "mutex_step (mutex_state 1 0 [2] (Exchanging 1) Queued Idle) (mutex_state 0 0 [2] Resetting Queued Idle)"
    using mutex_step.unlock_swap[of "mutex_state 1 0 [2] (Exchanging 1) Queued Idle" 1 1] by simp
  moreover have "mutex_step (mutex_state 0 0 [2] Resetting Queued Idle) (mutex_state 0 1 [2] Idle Queued Idle)"
    using mutex_step.reset[of "mutex_state 0 0 [2] Resetting Queued Idle" 1] by simp
  ultimately have "reach mutex_start mutex_step (mutex_state 0 1 [2] Idle Queued Idle)" by (meson reach_step)
  moreover have "mutex_owners (mutex_state 0 1 [2] Idle Queued Idle) = {}" by (auto simp: mutex_owners_def mutex_state_def)
  ultimately show ?thesis by (intro exI[of _ "mutex_state 0 1 [2] Idle Queued Idle"]) (simp add: mutex_is_locked_def)
qed

text \<open>
  Two tasks that subscribe to a mutex held without contention, as two tasks woken by
  \<open>notify_all\<close> do, make a debug build panic: the second subscription subtracts one from zero.
  In a release build the count wraps and both tasks wait properly.
\<close>

theorem mutex_subscribe_twice:
  assumes "mx_counter m = 1" and "mx_expected_count m = 1" and "mutex_waits m = []"
    and "mutex_low_level_subscribe dbg is_local t m = Inr m1" and "\<not> (dbg \<and> is_local u)"
  shows "if dbg then mutex_low_level_subscribe dbg is_local u m1 = Inl Overflow
    else \<exists>m2. mutex_low_level_subscribe dbg is_local u m1 = Inr m2 \<and> mutex_wf m2 \<and> mutex_waits m2 = [t, u]"
proof -
  have "m1 = m\<lparr>mx_expected_count := 0, mx_wait_queue := sync_task_list_put t (mx_wait_queue m)\<rparr>"
    using assms(2,4) by (auto simp: mutex_low_level_subscribe_def sync_task_list_push_eq split: if_splits)
  with assms show ?thesis
    by (auto simp: mutex_low_level_subscribe_def sync_task_list_push_eq mutex_wf_def mutex_waits_def
          stl.put_tasks)
qed

theorem mutex_subscribe_twice_witness:
  "\<exists>m1. mutex_low_level_subscribe True (\<lambda>_. False) (1 :: nat) (mutex_of 1 1 []) = Inr m1 \<and>
     mutex_low_level_subscribe True (\<lambda>_. False) 2 m1 = Inl Overflow"
proof -
  obtain m1 where m1: "mutex_low_level_subscribe True (\<lambda>_. False) (1 :: nat) (mutex_of 1 1 []) = Inr m1"
    by (simp add: mutex_low_level_subscribe_def sync_task_list_push_eq)
  from mutex_subscribe_twice[OF _ _ _ m1, of 2] m1 show ?thesis by simp
qed

end
