(* ===== verification/Cond_Var.thy ===== *)
theory Cond_Var
  imports Local_Mutex Smart_Mutex
begin

text \<open>
  The condition variables (\<open>src/src/sync/cond_vars/local.rs\<close>, \<open>shared.rs\<close>). Their wait futures
  are written over the operations of the mutex, as the code is over \<open>AsyncSubscribableMutex\<close>;
  what holds of them for every such mutex is proved in the locale, and then used for the local
  condition variable with the \<open>LocalMutex\<close>.
\<close>

section \<open>The wait futures\<close>

datatype wait_state = Sleep | Wake | Lock

record 't local_cond_var =
  lcv_wait_queue :: "'t list"

definition local_cond_var_new :: "'t local_cond_var" where
  "local_cond_var_new = \<lparr>lcv_wait_queue = []\<rparr>"

text \<open>
  \<open>wait\<close> takes the guard by value and returns a future that holds only the mutex: the guard is
  dropped when \<open>wait\<close> returns, before the future is polled.
\<close>

definition local_cond_var_wait ::
  "('m \<Rightarrow> ('t wake list \<times> 'm) res) \<Rightarrow> 'm \<Rightarrow> ('t wake list \<times> wait_state \<times> 'm) res" where
  "local_cond_var_wait unlock m = bindR (unlock m) (\<lambda>(ws, m'). Inr (ws, Sleep, m'))"

definition wait_local_cond_var_poll ::
  "('m \<Rightarrow> bool \<times> 'm) \<Rightarrow> ('t \<Rightarrow> 'm \<Rightarrow> 'm res) \<Rightarrow> ('m \<Rightarrow> unit res) \<Rightarrow> wait_state \<Rightarrow> 't \<Rightarrow>
   't local_cond_var \<Rightarrow> 'm \<Rightarrow> (unit poll \<times> wait_state \<times> 't local_cond_var \<times> 'm) res" where
  "wait_local_cond_var_poll try_lock low_level_subscribe get_locked st t cv m =
     (case st of
        Sleep \<Rightarrow> Inr (Pending, Wake, cv\<lparr>lcv_wait_queue := lcv_wait_queue cv @ [t]\<rparr>, m)
      | Wake \<Rightarrow>
          (case try_lock m of
             (True, m') \<Rightarrow> Inr (Ready (), Wake, cv, m')
           | (False, _) \<Rightarrow> bindR (low_level_subscribe t m) (\<lambda>m'. Inr (Pending, Lock, cv, m')))
      | Lock \<Rightarrow> bindR (get_locked m) (\<lambda>_. Inr (Ready (), Lock, cv, m)))"

definition local_cond_var_notify_one :: "'t local_cond_var \<Rightarrow> 't wake list \<times> 't local_cond_var" where
  "local_cond_var_notify_one cv =
     (case pop_back (lcv_wait_queue cv) of
        (Some t, rest) \<Rightarrow> ([ExecTask t], cv\<lparr>lcv_wait_queue := rest\<rparr>)
      | (None, _) \<Rightarrow> ([], cv))"

text \<open>
  \<open>notify_all\<close> executes the tasks inside the loop, and a task that waits again is back in the
  queue before the next iteration. \<open>exec\<close> is what \<open>exec_task\<close> does to the condition variable and
  to the rest of the program.
\<close>

partial_function (option) local_cond_var_notify_all ::
  "('t \<Rightarrow> 't local_cond_var \<times> 'w \<Rightarrow> 't local_cond_var \<times> 'w) \<Rightarrow> 't local_cond_var \<times> 'w \<Rightarrow>
   ('t local_cond_var \<times> 'w) option" where
  "local_cond_var_notify_all exec s =
     (case pop_back (lcv_wait_queue (fst s)) of
        (Some t, rest) \<Rightarrow>
          local_cond_var_notify_all exec (exec t ((fst s)\<lparr>lcv_wait_queue := rest\<rparr>, snd s))
      | (None, _) \<Rightarrow> Some s)"

subsection \<open>The shared condition variable\<close>

record 't cond_var =
  cv_wait_queue :: "'t sync_task_list"

definition cond_var_new :: "'t cond_var" where
  "cond_var_new = \<lparr>cv_wait_queue = sync_task_list_new\<rparr>"

definition cond_var_wait ::
  "('m \<Rightarrow> ('t wake list \<times> 'm) res) \<Rightarrow> 'm \<Rightarrow> ('t wake list \<times> wait_state \<times> 'm) res" where
  "cond_var_wait unlock m = bindR (unlock m) (\<lambda>(ws, m'). Inr (ws, Sleep, m'))"

text \<open>
  The boolean says that the executor is asked to push the task to the wait queue after the poll
  (\<open>Call::PushCurrentTaskTo\<close>).
\<close>

definition wait_cond_var_poll ::
  "('m \<Rightarrow> bool \<times> 'm) \<Rightarrow> ('t \<Rightarrow> 'm \<Rightarrow> 'm res) \<Rightarrow> ('m \<Rightarrow> unit res) \<Rightarrow> bool \<Rightarrow> bool \<Rightarrow> wait_state \<Rightarrow> 't \<Rightarrow>
   'm \<Rightarrow> (unit poll \<times> wait_state \<times> bool \<times> 'm) res" where
  "wait_cond_var_poll try_lock low_level_subscribe get_locked dbg local st t m =
     (if dbg \<and> local then Inl Asserted
      else case st of
        Sleep \<Rightarrow> Inr (Pending, Wake, True, m)
      | Wake \<Rightarrow>
          (case try_lock m of
             (True, m') \<Rightarrow> Inr (Ready (), Wake, False, m')
           | (False, _) \<Rightarrow> bindR (low_level_subscribe t m) (\<lambda>m'. Inr (Pending, Lock, False, m')))
      | Lock \<Rightarrow> bindR (get_locked m) (\<lambda>_. Inr (Ready (), Lock, False, m)))"

definition cond_var_notify_one :: "'t cond_var \<Rightarrow> 't wake list \<times> 't cond_var" where
  "cond_var_notify_one cv =
     (case sync_task_list_pop (cv_wait_queue cv) of
        (Some t, q) \<Rightarrow> ([SpawnSharedTask t], cv\<lparr>cv_wait_queue := q\<rparr>)
      | (None, _) \<Rightarrow> ([], cv))"

lemma sync_task_list_pop_shorter:
  "sync_task_list_pop l = (Some t, q) \<Longrightarrow> length (sync_tasks q) < length (sync_tasks l)"
  using stl.get_some[of l] stl.get_none[of l] by (cases "sync_tasks l" rule: rev_cases) auto

text \<open>\<open>spawn_shared_task\<close> runs no task, so the loop only empties the queue.\<close>

function cond_var_notify_all :: "'t cond_var \<Rightarrow> 't wake list \<times> 't cond_var" where
  "cond_var_notify_all cv =
     (case sync_task_list_pop (cv_wait_queue cv) of
        (Some t, q) \<Rightarrow>
          (case cond_var_notify_all (cv\<lparr>cv_wait_queue := q\<rparr>) of (ws, cv') \<Rightarrow> (SpawnSharedTask t # ws, cv'))
      | (None, _) \<Rightarrow> ([], cv))"
  by auto
termination
  by (relation "measure (\<lambda>cv. length (sync_tasks (cv_wait_queue cv)))")
     (auto dest: sync_task_list_pop_shorter[OF sym])

declare cond_var_notify_all.simps [simp del]

lemma cond_var_notify_all_pops:
  "sync_tasks (cv_wait_queue cv) = xs \<Longrightarrow>
   fst (cond_var_notify_all cv) = map SpawnSharedTask (rev xs) \<and>
   sync_tasks (cv_wait_queue (snd (cond_var_notify_all cv))) = []"
proof (induction xs arbitrary: cv rule: rev_induct)
  case Nil
  with stl.get_none[of "cv_wait_queue cv"] show ?case
    by (simp add: cond_var_notify_all.simps[of cv])
next
  case (snoc t xs)
  obtain q where q: "sync_task_list_pop (cv_wait_queue cv) = (Some t, q)" "sync_tasks q = xs"
    using stl.get_some[OF snoc.prems] by (cases "sync_task_list_pop (cv_wait_queue cv)") auto
  with snoc.IH[of "cv\<lparr>cv_wait_queue := q\<rparr>"] show ?case
    by (auto simp: cond_var_notify_all.simps[of cv] split: prod.splits)
qed

section \<open>What the futures promise over any mutex\<close>

context subscribable_mutex
begin

lemma local_wait_ready:
  assumes "wf m" and "st = Lock \<Longrightarrow> held m"
    and "wait_local_cond_var_poll try_lock subscribe get_locked st t cv m = Inr (Ready (), st', cv', m')"
  shows "wf m' \<and> held m' \<and> cv' = cv \<and> waits m' = waits m \<and> (st = Wake \<longrightarrow> \<not> held m)"
proof (cases st)
  case Wake
  then obtain ok m1 where "try_lock m = (ok, m1)" by force
  with Wake assms(3) try_lock_cases[OF assms(1)] show ?thesis
    by (auto simp: wait_local_cond_var_poll_def bindR_Inr_conv split: if_splits)
next
  case Lock
  with assms show ?thesis by (auto simp: wait_local_cond_var_poll_def bindR_Inr_conv)
qed (use assms in \<open>auto simp: wait_local_cond_var_poll_def\<close>)

lemma shared_wait_ready:
  assumes "wf m" and "st = Lock \<Longrightarrow> held m"
    and "wait_cond_var_poll try_lock subscribe get_locked dbg loc st t m = Inr (Ready (), st', b, m')"
  shows "wf m' \<and> held m' \<and> \<not> b \<and> waits m' = waits m \<and> (st = Wake \<longrightarrow> \<not> held m)"
proof (cases st)
  case Wake
  then obtain ok m1 where "try_lock m = (ok, m1)" by force
  with Wake assms(3) try_lock_cases[OF assms(1)] show ?thesis
    by (auto simp: wait_cond_var_poll_def bindR_Inr_conv split: if_splits)
next
  case Lock
  with assms show ?thesis by (auto simp: wait_cond_var_poll_def bindR_Inr_conv split: if_splits)
qed (use assms in \<open>auto simp: wait_cond_var_poll_def split: if_splits\<close>)

end

section \<open>Histories of a local condition variable and its mutex\<close>

record ('t, 'v) cv_world =
  cw_mutex :: "('t, 'v) local_mutex"
  cw_cv :: "'t local_cond_var"
  cw_holders :: "'t list"
  cw_state :: "'t \<Rightarrow> wait_state"

datatype 't cv_op = CvLock 't | CvUnlock 't | CvWait 't | CvPoll 't | CvNotifyOne

text \<open>
  \<open>CvLock\<close> is the first poll of \<open>lock\<close>, \<open>CvUnlock\<close> the drop of the guard, \<open>CvWait\<close> the call of
  \<open>wait\<close>, \<open>CvPoll\<close> a poll of its future.
\<close>

fun cv_step ::
  "'t cv_op \<Rightarrow> ('t, 'v) cv_world \<Rightarrow> 't mutex_report \<times> ('t, 'v) cv_world" where
  "cv_step (CvLock t) w =
     (case local_mutex_step (LockCall t) (cw_mutex w, cw_holders w) of
        (r, m, H) \<Rightarrow> (r, w\<lparr>cw_mutex := m, cw_holders := H\<rparr>))"
| "cv_step (CvUnlock t) w =
     (case local_mutex_step (DropGuard t) (cw_mutex w, cw_holders w) of
        (r, m, H) \<Rightarrow> (r, w\<lparr>cw_mutex := m, cw_holders := H\<rparr>))"
| "cv_step (CvWait t) w =
     (case local_cond_var_wait (local_mutex_unlock True) (cw_mutex w) of
        Inr (ws, st, m) \<Rightarrow>
          (\<lparr>mr_got = False, mr_suspended = [], mr_resumed = map woken ws\<rparr>,
           w\<lparr>cw_mutex := m, cw_holders := map woken ws @ remove1 t (cw_holders w),
             cw_state := (cw_state w)(t := st)\<rparr>)
      | Inl _ \<Rightarrow> (\<lparr>mr_got = False, mr_suspended = [], mr_resumed = []\<rparr>, w))"
| "cv_step (CvPoll t) w =
     (case wait_local_cond_var_poll local_mutex_try_lock local_mutex_low_level_subscribe
             (local_mutex_get_locked True) (cw_state w t) t (cw_cv w) (cw_mutex w) of
        Inr (Ready _, st, cv, m) \<Rightarrow>
          (\<lparr>mr_got = True, mr_suspended = [], mr_resumed = []\<rparr>,
           w\<lparr>cw_mutex := m, cw_cv := cv, cw_state := (cw_state w)(t := st),
             cw_holders := (if st = Lock then cw_holders w else t # cw_holders w)\<rparr>)
      | Inr (Pending, st, cv, m) \<Rightarrow>
          (\<lparr>mr_got = False, mr_suspended = [t], mr_resumed = []\<rparr>,
           w\<lparr>cw_mutex := m, cw_cv := cv, cw_state := (cw_state w)(t := st)\<rparr>)
      | Inl _ \<Rightarrow> (\<lparr>mr_got = False, mr_suspended = [], mr_resumed = []\<rparr>, w))"
| "cv_step CvNotifyOne w =
     (case local_cond_var_notify_one (cw_cv w) of
        (ws, cv) \<Rightarrow> (\<lparr>mr_got = False, mr_suspended = [], mr_resumed = map woken ws\<rparr>, w\<lparr>cw_cv := cv\<rparr>))"

text \<open>
  A guard is dropped or passed to \<open>wait\<close> by a task that has it, and a future in the state \<open>Lock\<close>
  is polled once \<open>unlock\<close> passed the mutex to its task.
\<close>

fun cv_ok :: "'t cv_op \<Rightarrow> ('t, 'v) cv_world \<Rightarrow> bool" where
  "cv_ok (CvLock t) w \<longleftrightarrow> True"
| "cv_ok (CvUnlock t) w \<longleftrightarrow> t \<in> set (cw_holders w)"
| "cv_ok (CvWait t) w \<longleftrightarrow> t \<in> set (cw_holders w)"
| "cv_ok (CvPoll t) w \<longleftrightarrow> (cw_state w t = Lock \<longrightarrow> t \<in> set (cw_holders w))"
| "cv_ok CvNotifyOne w \<longleftrightarrow> True"

definition cv_inv :: "('t, 'v) cv_world \<Rightarrow> bool" where
  "cv_inv w \<longleftrightarrow> local_mutex_inv (cw_mutex w, cw_holders w)"

definition cv_waiting :: "('t, 'v) cv_world \<Rightarrow> 't multiset" where
  "cv_waiting w = mset (lm_wait_queue (cw_mutex w)) + mset (lcv_wait_queue (cw_cv w))"

definition cv_start :: "'v \<Rightarrow> ('t, 'v) cv_world" where
  "cv_start v = \<lparr>cw_mutex = local_mutex_new v, cw_cv = local_cond_var_new, cw_holders = [],
                 cw_state = (\<lambda>_. Sleep)\<rparr>"

lemmas cv_defs = local_cond_var_wait_def wait_local_cond_var_poll_def local_cond_var_notify_one_def

lemma cv_inv_step:
  assumes "cv_inv w" and "cv_ok p w" and "cv_step p w = (r, w')"
  shows "cv_inv w'"
proof (cases p)
  case (CvLock t)
  with assms local_mutex_inv_step[of "(cw_mutex w, cw_holders w)" "LockCall t"] show ?thesis
    by (auto simp: cv_inv_def simp del: local_mutex_step.simps split: prod.splits)
next
  case (CvUnlock t)
  with assms local_mutex_inv_step[of "(cw_mutex w, cw_holders w)" "DropGuard t"] show ?thesis
    by (auto simp: cv_inv_def simp del: local_mutex_step.simps split: prod.splits)
next
  case (CvWait t)
  with assms show ?thesis
    by (auto simp: cv_inv_def cv_defs local_mutex_inv_def local_mutex_wf_def local_mutex_unlock_def pop_convs
          length_Suc_conv split: option.splits prod.splits if_splits)
next
  case (CvPoll t)
  with assms show ?thesis
    by (cases "cw_state w t")
       (auto simp: cv_inv_def cv_defs local_mutex_inv_def local_mutex_wf_def local_mutex_defs
          split: if_splits)
next
  case CvNotifyOne
  with assms show ?thesis by (auto simp: cv_inv_def split: prod.splits)
qed

lemma cv_balance_step:
  assumes "cv_inv w" and "cv_ok p w" and "cv_step p w = (r, w')"
  shows "cv_waiting w + mset (mr_suspended r) = cv_waiting w' + mset (mr_resumed r)"
proof (cases p)
  case (CvLock t)
  with assms local_mutex_balance_step[of "(cw_mutex w, cw_holders w)" "LockCall t"] show ?thesis
    by (auto simp: cv_inv_def cv_waiting_def simp del: local_mutex_step.simps split: prod.splits)
next
  case (CvUnlock t)
  with assms local_mutex_balance_step[of "(cw_mutex w, cw_holders w)" "DropGuard t"] show ?thesis
    by (auto simp: cv_inv_def cv_waiting_def simp del: local_mutex_step.simps split: prod.splits)
next
  case (CvWait t)
  with assms show ?thesis
    by (auto simp: cv_waiting_def cv_defs local_mutex_unlock_def pop_convs
          split: option.splits prod.splits if_splits)
next
  case (CvPoll t)
  with assms show ?thesis
    by (cases "cw_state w t")
       (auto simp: cv_inv_def cv_waiting_def cv_defs local_mutex_inv_def local_mutex_defs split: if_splits)
next
  case CvNotifyOne
  with assms show ?thesis
    by (auto simp: cv_waiting_def cv_defs pop_convs split: option.splits prod.splits)
qed

interpretation cvpark: parking cv_step cv_ok cv_inv cv_waiting mr_suspended mr_resumed
  by unfold_locales (blast intro: cv_inv_step cv_balance_step)+

section \<open>Properties\<close>

text \<open>
  C22. For every history of locks, unlocks, waits, polls of the wait futures and notifications on a
  local condition variable with its mutex: at most one task has the mutex; no task waits in the
  queue of a free mutex; and every suspended task was resumed once or is still in the queue of
  the mutex or of the condition variable.
\<close>

theorem local_cond_var_safe:
  assumes "oks cv_ok cv_step ps (cv_start v)"
    and "run_ops cv_step ps (cv_start v) = (os, w)"
  shows "length (cw_holders w) = (if lm_is_locked (cw_mutex w) then 1 else 0) \<and>
    (\<not> lm_is_locked (cw_mutex w) \<longrightarrow> lm_wait_queue (cw_mutex w) = []) \<and>
    count (mset (concat (map mr_resumed os))) t + count (cv_waiting w) t =
    count (mset (concat (map mr_suspended os))) t"
proof -
  have start: "cv_inv (cv_start v)" "cv_waiting (cv_start v) = {#}"
    by (simp_all add: cv_inv_def cv_start_def cv_waiting_def local_mutex_inv_def local_mutex_wf_def
          local_mutex_new_def local_cond_var_new_def)
  from cvpark.run_inv[OF start(1) assms] cvpark.run_resumed_once[OF start assms]
  show ?thesis by (simp add: cv_inv_def local_mutex_inv_def local_mutex_wf_def)
qed

text \<open>Task 1 waits, task 2 takes the mutex, notifies under it and releases it to task 1.\<close>

definition cv_demo :: "nat cv_op list" where
  "cv_demo = [CvLock 1, CvWait 1, CvPoll 1, CvLock 2, CvNotifyOne, CvPoll 1, CvUnlock 2, CvPoll 1]"

theorem local_cond_var_safe_witness:
  "\<exists>os w. run_ops cv_step cv_demo (cv_start (0 :: nat)) = (os, w) \<and> cw_holders w = [1] \<and>
     lm_is_locked (cw_mutex w)"
proof -
  obtain os w where r: "run_ops cv_step cv_demo (cv_start (0 :: nat)) = (os, w)" by force
  have ok: "oks cv_ok cv_step cv_demo (cv_start (0 :: nat))"
    and "cw_holders (snd (run_ops cv_step cv_demo (cv_start (0 :: nat)))) = [1]"
    by code_simp+
  with r local_cond_var_safe[OF ok r] show ?thesis by (auto split: if_splits)
qed

text \<open>
  A notification can be lost: \<open>wait\<close> drops the guard before its future enters the queue, so a
  task that waits for the mutex runs first; here it notifies, finds the queue empty and releases
  the mutex, and only then does the first task enter the queue, where nobody is left to wake it.
\<close>

theorem local_cond_var_lost_notification:
  "\<exists>w. run_ops cv_step [CvLock 1, CvLock 2, CvWait 1, CvNotifyOne, CvUnlock 2, CvPoll 1]
        (cv_start (0 :: nat)) =
       ([\<lparr>mr_got = True, mr_suspended = [], mr_resumed = []\<rparr>,
         \<lparr>mr_got = False, mr_suspended = [2 :: nat], mr_resumed = []\<rparr>,
         \<lparr>mr_got = False, mr_suspended = [], mr_resumed = [2]\<rparr>,
         \<lparr>mr_got = False, mr_suspended = [], mr_resumed = []\<rparr>,
         \<lparr>mr_got = False, mr_suspended = [], mr_resumed = []\<rparr>,
         \<lparr>mr_got = False, mr_suspended = [1], mr_resumed = []\<rparr>], w) \<and>
       lcv_wait_queue (cw_cv w) = [1] \<and> cw_holders w = [] \<and> \<not> lm_is_locked (cw_mutex w)"
  by (simp add: cv_start_def cv_defs local_mutex_defs local_mutex_new_def local_cond_var_new_def
        pop_back_def)

text \<open>
  \<open>LocalCondVar::notify_all\<close> returns and leaves the queue empty, when executing a woken task
  does not make the queue longer than it was before the task was taken off it.
\<close>

theorem local_cond_var_notify_all_returns:
  assumes "\<And>t cv x. length (lcv_wait_queue (fst (exec t (cv, x)))) \<le> length (lcv_wait_queue cv)"
  shows "\<exists>cv' x'. local_cond_var_notify_all exec (cv, x) = Some (cv', x') \<and> lcv_wait_queue cv' = []"
proof (induction "length (lcv_wait_queue cv)" arbitrary: cv x rule: less_induct)
  case less
  show ?case
  proof (cases "lcv_wait_queue cv" rule: rev_cases)
    case Nil
    then show ?thesis by (subst local_cond_var_notify_all.simps) simp
  next
    case (snoc ts t)
    obtain cv1 x1 where e: "exec t (cv\<lparr>lcv_wait_queue := ts\<rparr>, x) = (cv1, x1)" by force
    have "length (lcv_wait_queue cv1) < length (lcv_wait_queue cv)"
      using assms[of t "cv\<lparr>lcv_wait_queue := ts\<rparr>" x] e snoc by simp
    from less[OF this, of x1] e snoc show ?thesis
      by (subst local_cond_var_notify_all.simps) simp
  qed
qed

theorem local_cond_var_notify_all_returns_witness:
  "\<exists>cv' x'. local_cond_var_notify_all (\<lambda>t (cv, x). (cv, x @ [t])) (\<lparr>lcv_wait_queue = [1, 2, 3 :: nat]\<rparr>, [])
     = Some (cv', x') \<and> lcv_wait_queue cv' = []"
  by (rule local_cond_var_notify_all_returns) simp

end
