(* ===== verification/RW_Locks.thy ===== *)
theory RW_Locks
  imports Transition_Systems
begin

text \<open>
  The read-write locks (\<open>src/src/sync/rw_locks\<close>): \<open>LocalRWLock\<close> of one executor, whose unlocks
  execute the tasks that waited, and the shared \<open>RWLock\<close>, one atomic counter on which tasks
  spin. In both, a writer excludes every other guard and the counter counts the readers; the
  local lock leaves nobody waiting on a free lock and its unlock does not underrun its queue
  whatever the woken readers do.
\<close>

section \<open>The counter\<close>

text \<open>\<open>isize\<close> arithmetic: overflow panics with debug assertions and wraps without.\<close>

definition isize_max :: int where
  "isize_max = 2 ^ 63 - 1"

definition isize_inc :: "bool \<Rightarrow> int \<Rightarrow> int res" where
  "isize_inc dbg n =
     (if n = isize_max then (if dbg then Inl Overflow else Inr (- isize_max - 1)) else Inr (n + 1))"

definition isize_dec :: "bool \<Rightarrow> int \<Rightarrow> int res" where
  "isize_dec dbg n =
     (if n = - isize_max - 1 then (if dbg then Inl Overflow else Inr isize_max) else Inr (n - 1))"

datatype lock_status = Unlocked | WriteLocked | ReadLocked nat

definition lock_status_of :: "int \<Rightarrow> lock_status" where
  "lock_status_of n = (if n = 0 then Unlocked else if n > 0 then ReadLocked (nat n) else WriteLocked)"

section \<open>The local lock\<close>

record ('t, 'v) local_rw_lock =
  lrw_wait_queue_read :: "'t list"
  lrw_wait_queue_write :: "'t list"
  lrw_number_of_readers :: int
  lrw_value :: 'v

definition local_rw_lock_new :: "'v \<Rightarrow> ('t, 'v) local_rw_lock" where
  "local_rw_lock_new v =
     \<lparr>lrw_wait_queue_read = [], lrw_wait_queue_write = [], lrw_number_of_readers = 0, lrw_value = v\<rparr>"

definition local_rw_lock_get_lock_status :: "('t, 'v) local_rw_lock \<Rightarrow> lock_status" where
  "local_rw_lock_get_lock_status l = lock_status_of (lrw_number_of_readers l)"

definition read_lock_wait_poll ::
  "bool \<Rightarrow> 't \<Rightarrow> ('t, 'v) local_rw_lock \<Rightarrow> unit poll \<times> bool \<times> ('t, 'v) local_rw_lock" where
  "read_lock_wait_poll was_called t l =
     (if \<not> was_called then (Pending, True, l\<lparr>lrw_wait_queue_read := lrw_wait_queue_read l @ [t]\<rparr>)
      else (Ready (), was_called, l))"

definition write_lock_wait_poll ::
  "bool \<Rightarrow> 't \<Rightarrow> ('t, 'v) local_rw_lock \<Rightarrow> unit poll \<times> bool \<times> ('t, 'v) local_rw_lock" where
  "write_lock_wait_poll was_called t l =
     (if \<not> was_called then (Pending, True, l\<lparr>lrw_wait_queue_write := lrw_wait_queue_write l @ [t]\<rparr>)
      else (Ready (), was_called, l))"

text \<open>The first polls of \<open>write\<close> and \<open>read\<close>; the later ones are those of the wait futures.\<close>

definition local_rw_lock_write ::
  "bool \<Rightarrow> 't \<Rightarrow> ('t, 'v) local_rw_lock \<Rightarrow> (unit poll \<times> ('t, 'v) local_rw_lock) res" where
  "local_rw_lock_write dbg t l =
     (if lrw_number_of_readers l = 0 then
        (if dbg \<and> lrw_wait_queue_read l \<noteq> [] then Inl DebugAssert
         else Inr (Ready (), l\<lparr>lrw_number_of_readers := - 1\<rparr>))
      else case write_lock_wait_poll False t l of (p, _, l') \<Rightarrow> Inr (p, l'))"

definition local_rw_lock_read ::
  "bool \<Rightarrow> 't \<Rightarrow> ('t, 'v) local_rw_lock \<Rightarrow> (unit poll \<times> ('t, 'v) local_rw_lock) res" where
  "local_rw_lock_read dbg t l =
     (if lrw_number_of_readers l > - 1 then
        bindR (isize_inc dbg (lrw_number_of_readers l))
          (\<lambda>n. Inr (Ready (), l\<lparr>lrw_number_of_readers := n\<rparr>))
      else case read_lock_wait_poll False t l of (p, _, l') \<Rightarrow> Inr (p, l'))"

definition local_rw_lock_try_write ::
  "bool \<Rightarrow> ('t, 'v) local_rw_lock \<Rightarrow> (bool \<times> ('t, 'v) local_rw_lock) res" where
  "local_rw_lock_try_write dbg l =
     (if lrw_number_of_readers l = 0 then
        (if dbg \<and> lrw_wait_queue_read l \<noteq> [] then Inl DebugAssert
         else Inr (True, l\<lparr>lrw_number_of_readers := - 1\<rparr>))
      else Inr (False, l))"

definition local_rw_lock_try_read ::
  "bool \<Rightarrow> ('t, 'v) local_rw_lock \<Rightarrow> (bool \<times> ('t, 'v) local_rw_lock) res" where
  "local_rw_lock_try_read dbg l =
     (if lrw_number_of_readers l > - 1 then
        bindR (isize_inc dbg (lrw_number_of_readers l)) (\<lambda>n. Inr (True, l\<lparr>lrw_number_of_readers := n\<rparr>))
      else Inr (False, l))"

text \<open>
  The unlocks call \<open>exec_task\<close>, which may run the woken task at once: \<open>exec\<close> is what that does
  to the lock and to the rest of the program. \<open>unwrap_unchecked\<close> on \<open>None\<close> is \<open>Undefined\<close>.
\<close>

type_synonym ('t, 'v, 'w) rw_exec =
  "'t \<Rightarrow> ('t, 'v) local_rw_lock \<times> 'w \<Rightarrow> ('t, 'v) local_rw_lock \<times> 'w"

definition local_rw_lock_read_unlock ::
  "bool \<Rightarrow> ('t, 'v, 'w) rw_exec \<Rightarrow> ('t, 'v) local_rw_lock \<times> 'w \<Rightarrow> (('t, 'v) local_rw_lock \<times> 'w) res" where
  "local_rw_lock_read_unlock dbg exec s =
     (case s of (l, w) \<Rightarrow>
        if dbg \<and> (lrw_number_of_readers l = - 1 \<or> lrw_number_of_readers l = 0) then Inl DebugAssert
        else bindR (isize_dec dbg (lrw_number_of_readers l)) (\<lambda>n.
          let l' = l\<lparr>lrw_number_of_readers := n\<rparr> in
          if n = 0 then
            (if dbg \<and> lrw_wait_queue_read l \<noteq> [] then Inl DebugAssert
             else case pop_back (lrw_wait_queue_write l) of
                    (Some t, rest) \<Rightarrow>
                      Inr (exec t (l'\<lparr>lrw_wait_queue_write := rest, lrw_number_of_readers := - 1\<rparr>, w))
                  | (None, _) \<Rightarrow> Inr (l', w))
          else Inr (l', w)))"

fun exec_waiting_readers ::
  "('t, 'v, 'w) rw_exec \<Rightarrow> nat \<Rightarrow> ('t, 'v) local_rw_lock \<times> 'w \<Rightarrow> (('t, 'v) local_rw_lock \<times> 'w) res" where
  "exec_waiting_readers exec 0 s = Inr s"
| "exec_waiting_readers exec (Suc readers_count) s =
     (case pop_back (lrw_wait_queue_read (fst s)) of
        (Some t, rest) \<Rightarrow>
          exec_waiting_readers exec readers_count (exec t ((fst s)\<lparr>lrw_wait_queue_read := rest\<rparr>, snd s))
      | (None, _) \<Rightarrow> Inl Undefined)"

definition local_rw_lock_write_unlock ::
  "bool \<Rightarrow> ('t, 'v, 'w) rw_exec \<Rightarrow> ('t, 'v) local_rw_lock \<times> 'w \<Rightarrow> (('t, 'v) local_rw_lock \<times> 'w) res" where
  "local_rw_lock_write_unlock dbg exec s =
     (case s of (l, w) \<Rightarrow>
        if dbg \<and> (lrw_number_of_readers l = 0 \<or> \<not> lrw_number_of_readers l \<le> 0) then Inl DebugAssert
        else case pop_back (lrw_wait_queue_write l) of
               (None, _) \<Rightarrow>
                 exec_waiting_readers exec (length (lrw_wait_queue_read l))
                   (l\<lparr>lrw_number_of_readers := int (length (lrw_wait_queue_read l))\<rparr>, w)
             | (Some t, rest) \<Rightarrow> Inr (exec t (l\<lparr>lrw_wait_queue_write := rest\<rparr>, w)))"

definition local_rw_lock_get_read_locked :: "bool \<Rightarrow> ('t, 'v) local_rw_lock \<Rightarrow> unit res" where
  "local_rw_lock_get_read_locked dbg l =
     (if dbg \<and> (lrw_number_of_readers l = - 1 \<or> lrw_number_of_readers l = 0) then Inl DebugAssert else Inr ())"

definition local_rw_lock_get_write_locked :: "bool \<Rightarrow> ('t, 'v) local_rw_lock \<Rightarrow> unit res" where
  "local_rw_lock_get_write_locked dbg l =
     (if dbg \<and> (lrw_number_of_readers l = 0 \<or> \<not> lrw_number_of_readers l \<le> 0) then Inl DebugAssert else Inr ())"

lemmas local_rw_lock_defs = local_rw_lock_write_def local_rw_lock_read_def local_rw_lock_try_write_def
  local_rw_lock_try_read_def read_lock_wait_poll_def write_lock_wait_poll_def isize_inc_def isize_dec_def
  local_rw_lock_read_unlock_def local_rw_lock_write_unlock_def

subsection \<open>Histories\<close>

text \<open>
  The world is the lock, the readers and the writers that have a guard or were passed one.
  In a history \<open>exec_task\<close> notes the task; what the task does next are later operations.
\<close>

datatype 't rw_op = ReadCall 't | WriteCall 't | TryReadCall 't | TryWriteCall 't
  | DropReadGuard 't | DropWriteGuard 't

record 't rw_report =
  rr_suspended :: "'t list"
  rr_resumed :: "'t list"
  rr_panic :: bool

type_synonym ('t, 'v) rw_world = "('t, 'v) local_rw_lock \<times> 't list \<times> 't list"

definition note_exec :: "('t, 'v, 't list) rw_exec" where
  "note_exec t s = (fst s, t # snd s)"

definition rw_panic :: "('t, 'v) rw_world \<Rightarrow> 't rw_report \<times> ('t, 'v) rw_world" where
  "rw_panic s = (\<lparr>rr_suspended = [], rr_resumed = [], rr_panic = True\<rparr>, s)"

definition rw_unlocked ::
  "(('t, 'v) local_rw_lock \<times> 't list) res \<Rightarrow> 't list \<Rightarrow> 't list \<Rightarrow> ('t, 'v) rw_world \<Rightarrow>
   't rw_report \<times> ('t, 'v) rw_world" where
  "rw_unlocked u R W s =
     (case u of
        Inr (l', ts) \<Rightarrow> (\<lparr>rr_suspended = [], rr_resumed = ts, rr_panic = False\<rparr>, l',
          if lrw_number_of_readers l' = - 1 then (R, ts @ W) else (ts @ R, W))
      | Inl _ \<Rightarrow> rw_panic s)"

fun local_rw_lock_step ::
  "bool \<Rightarrow> 't rw_op \<Rightarrow> ('t, 'v) rw_world \<Rightarrow> 't rw_report \<times> ('t, 'v) rw_world" where
  "local_rw_lock_step dbg (ReadCall t) (l, R, W) =
     (case local_rw_lock_read dbg t l of
        Inr (Ready _, l') \<Rightarrow> (\<lparr>rr_suspended = [], rr_resumed = [], rr_panic = False\<rparr>, l', t # R, W)
      | Inr (Pending, l') \<Rightarrow> (\<lparr>rr_suspended = [t], rr_resumed = [], rr_panic = False\<rparr>, l', R, W)
      | Inl _ \<Rightarrow> rw_panic (l, R, W))"
| "local_rw_lock_step dbg (WriteCall t) (l, R, W) =
     (case local_rw_lock_write dbg t l of
        Inr (Ready _, l') \<Rightarrow> (\<lparr>rr_suspended = [], rr_resumed = [], rr_panic = False\<rparr>, l', R, t # W)
      | Inr (Pending, l') \<Rightarrow> (\<lparr>rr_suspended = [t], rr_resumed = [], rr_panic = False\<rparr>, l', R, W)
      | Inl _ \<Rightarrow> rw_panic (l, R, W))"
| "local_rw_lock_step dbg (TryReadCall t) (l, R, W) =
     (case local_rw_lock_try_read dbg l of
        Inr (ok, l') \<Rightarrow> (\<lparr>rr_suspended = [], rr_resumed = [], rr_panic = False\<rparr>, l', if ok then t # R else R, W)
      | Inl _ \<Rightarrow> rw_panic (l, R, W))"
| "local_rw_lock_step dbg (TryWriteCall t) (l, R, W) =
     (case local_rw_lock_try_write dbg l of
        Inr (ok, l') \<Rightarrow> (\<lparr>rr_suspended = [], rr_resumed = [], rr_panic = False\<rparr>, l', R, if ok then t # W else W)
      | Inl _ \<Rightarrow> rw_panic (l, R, W))"
| "local_rw_lock_step dbg (DropReadGuard t) (l, R, W) =
     rw_unlocked (local_rw_lock_read_unlock dbg note_exec (l, [])) (remove1 t R) W (l, R, W)"
| "local_rw_lock_step dbg (DropWriteGuard t) (l, R, W) =
     rw_unlocked (local_rw_lock_write_unlock dbg note_exec (l, [])) R (remove1 t W) (l, R, W)"

text \<open>A guard is dropped by a task that has it, and the readers fit in an \<open>isize\<close>.\<close>

fun local_rw_lock_ok :: "'t rw_op \<Rightarrow> ('t, 'v) rw_world \<Rightarrow> bool" where
  "local_rw_lock_ok (DropReadGuard t) (l, R, W) \<longleftrightarrow> t \<in> set R"
| "local_rw_lock_ok (DropWriteGuard t) (l, R, W) \<longleftrightarrow> t \<in> set W"
| "local_rw_lock_ok p (l, R, W) \<longleftrightarrow> lrw_number_of_readers l < isize_max"

definition rw_guards :: "int \<Rightarrow> 't list \<Rightarrow> 't list \<Rightarrow> bool" where
  "rw_guards n R W \<longleftrightarrow> n \<ge> - 1 \<and>
     (if n = - 1 then R = [] \<and> length W = 1 else int (length R) = n \<and> W = [])"

definition local_rw_lock_wf :: "('t, 'v) local_rw_lock \<Rightarrow> bool" where
  "local_rw_lock_wf l \<longleftrightarrow>
     (lrw_number_of_readers l \<noteq> - 1 \<longrightarrow> lrw_wait_queue_read l = []) \<and>
     (lrw_number_of_readers l = 0 \<longrightarrow> lrw_wait_queue_write l = [])"

definition local_rw_lock_inv :: "('t, 'v) rw_world \<Rightarrow> bool" where
  "local_rw_lock_inv s \<longleftrightarrow> (case s of (l, R, W) \<Rightarrow>
     local_rw_lock_wf l \<and> rw_guards (lrw_number_of_readers l) R W)"

definition rw_waiting :: "('t, 'v) rw_world \<Rightarrow> 't multiset" where
  "rw_waiting s = mset (lrw_wait_queue_read (fst s)) + mset (lrw_wait_queue_write (fst s))"

lemma exec_waiting_readers_note:
  "exec_waiting_readers note_exec (length (lrw_wait_queue_read l)) (l, ts) =
     Inr (l\<lparr>lrw_wait_queue_read := []\<rparr>, lrw_wait_queue_read l @ ts)"
proof (induction "lrw_wait_queue_read l" arbitrary: l ts rule: rev_induct)
  case (snoc t xs)
  have "exec_waiting_readers note_exec (length xs) (l\<lparr>lrw_wait_queue_read := xs\<rparr>, t # ts) =
    Inr (l\<lparr>lrw_wait_queue_read := []\<rparr>, xs @ t # ts)"
    using snoc.hyps(1)[of "l\<lparr>lrw_wait_queue_read := xs\<rparr>" "t # ts"] by simp
  then show ?case
    by (simp add: snoc.hyps(2)[symmetric] note_exec_def)
qed simp

lemma write_unlock_note:
  assumes "lrw_number_of_readers l = - 1"
  shows "local_rw_lock_write_unlock dbg note_exec (l, []) =
    (case pop_back (lrw_wait_queue_write l) of
       (Some t, rest) \<Rightarrow> Inr (l\<lparr>lrw_wait_queue_write := rest\<rparr>, [t])
     | (None, _) \<Rightarrow> Inr (l\<lparr>lrw_number_of_readers := int (length (lrw_wait_queue_read l)),
                       lrw_wait_queue_read := []\<rparr>, lrw_wait_queue_read l))"
  using assms exec_waiting_readers_note[of "l\<lparr>lrw_number_of_readers := int (length (lrw_wait_queue_read l))\<rparr>" "[]"]
  by (auto simp: local_rw_lock_write_unlock_def note_exec_def split: option.splits prod.splits)

lemmas rw_step_defs = local_rw_lock_inv_def local_rw_lock_wf_def rw_guards_def rw_unlocked_def
  rw_waiting_def rw_panic_def pop_convs

lemma drop_read_guard_step:
  assumes "local_rw_lock_inv (l, R, W)" and "t \<in> set R"
    and "local_rw_lock_step dbg (DropReadGuard t) (l, R, W) = (r, s')"
  shows "local_rw_lock_inv s' \<and> \<not> rr_panic r \<and> rr_suspended r = [] \<and>
    rw_waiting (l, R, W) = rw_waiting s' + mset (rr_resumed r)"
proof -
  have R: "length R = Suc (length (remove1 t R))"
    using length_pos_if_in_set[OF assms(2)] assms(2) by (simp add: length_remove1)
  moreover have "lrw_number_of_readers l = int (length R)" "W = []" "lrw_wait_queue_read l = []"
    using assms(1,2) by (auto simp: rw_step_defs split: if_splits)
  ultimately show ?thesis
    using assms(3)
    by (auto simp: local_rw_lock_read_unlock_def isize_dec_def isize_max_def Let_def note_exec_def
        rw_step_defs split: if_splits option.splits prod.splits)
qed

lemma drop_write_guard_step:
  assumes "local_rw_lock_inv (l, R, W)" and "t \<in> set W"
    and "local_rw_lock_step dbg (DropWriteGuard t) (l, R, W) = (r, s')"
  shows "local_rw_lock_inv s' \<and> \<not> rr_panic r \<and> rr_suspended r = [] \<and>
    rw_waiting (l, R, W) = rw_waiting s' + mset (rr_resumed r)"
proof -
  have "W = [t]" "R = []" "lrw_number_of_readers l = - 1"
    using assms(1,2) by (auto simp: rw_step_defs length_Suc_conv split: if_splits)
  then show ?thesis
    using assms(3) write_unlock_note[of l dbg]
    by (auto simp: rw_step_defs split: if_splits option.splits prod.splits)
qed

lemma local_rw_lock_step_ok:
  assumes "local_rw_lock_inv s" and "local_rw_lock_ok p s" and "local_rw_lock_step dbg p s = (r, s')"
  shows "local_rw_lock_inv s' \<and> \<not> rr_panic r \<and>
    rw_waiting s + mset (rr_suspended r) = rw_waiting s' + mset (rr_resumed r)"
proof (cases s)
  case [simp]: (fields l R W)
  show ?thesis
  proof (cases p)
    case (DropReadGuard t)
    with assms drop_read_guard_step[of l R W t dbg r s'] show ?thesis by simp
  next
    case (DropWriteGuard t)
    with assms drop_write_guard_step[of l R W t dbg r s'] show ?thesis by simp
  qed (use assms in \<open>auto simp: rw_step_defs local_rw_lock_defs split: if_splits\<close>)
qed

interpretation rwpark: parking "local_rw_lock_step dbg" local_rw_lock_ok local_rw_lock_inv
  rw_waiting rr_suspended rr_resumed
  by unfold_locales (blast dest: local_rw_lock_step_ok)+

subsection \<open>Woken readers that run at once\<close>

text \<open>
  What a woken reader can do to the lock while other readers are still counted: it ends with at
  most its own guard given back, and nobody parks in the queue of readers.
\<close>

definition readers_rely :: "('t, 'v, 'w) rw_exec \<Rightarrow> bool" where
  "readers_rely exec \<longleftrightarrow> (\<forall>t s. 2 \<le> lrw_number_of_readers (fst s) \<longrightarrow>
     lrw_number_of_readers (fst s) - 1 \<le> lrw_number_of_readers (fst (exec t s)) \<and>
     lrw_wait_queue_read (fst (exec t s)) = lrw_wait_queue_read (fst s))"

lemma exec_waiting_readers_returns:
  assumes "readers_rely exec"
  shows "length (lrw_wait_queue_read (fst s)) = n \<Longrightarrow> int n \<le> lrw_number_of_readers (fst s) \<Longrightarrow>
    \<exists>s'. exec_waiting_readers exec n s = Inr s'"
proof (induction n arbitrary: s)
  case (Suc n)
  then obtain xs t where q: "lrw_wait_queue_read (fst s) = xs @ [t]" "length xs = n"
    by (metis length_Suc_conv_rev)
  let ?s = "((fst s)\<lparr>lrw_wait_queue_read := xs\<rparr>, snd s)"
  show ?case
  proof (cases n)
    case 0
    with q show ?thesis by (cases "exec t ?s") (simp add: pop_back_def)
  next
    case (Suc k)
    with Suc.prems have "2 \<le> lrw_number_of_readers (fst ?s)" by simp
    with assms have "lrw_number_of_readers (fst ?s) - 1 \<le> lrw_number_of_readers (fst (exec t ?s)) \<and>
      lrw_wait_queue_read (fst (exec t ?s)) = lrw_wait_queue_read (fst ?s)"
      unfolding readers_rely_def by blast
    with Suc.prems(2) have "lrw_wait_queue_read (fst (exec t ?s)) = xs"
      and "int n \<le> lrw_number_of_readers (fst (exec t ?s))" by simp_all
    with Suc.IH[of "exec t ?s"] q show ?thesis by simp
  qed
qed simp

section \<open>The shared lock\<close>

text \<open>
  \<open>RWLock\<close> is the atomic counter. An operation that spins gets the values the other threads
  let it see: for \<open>try_read\<close> the value loaded and the value at the compare-exchange of each
  iteration; an empty list is a call that has not returned yet.
\<close>

definition rw_lock_new :: int where
  "rw_lock_new = 0"

definition rw_lock_get_lock_status :: "int \<Rightarrow> lock_status" where
  "rw_lock_get_lock_status n = lock_status_of n"

definition rw_lock_try_write :: "int \<Rightarrow> bool \<times> int" where
  "rw_lock_try_write n = (if n = 0 then (True, - 1) else (False, n))"

fun rw_lock_try_read :: "bool \<Rightarrow> (int \<times> int) list \<Rightarrow> (int option) res option" where
  "rw_lock_try_read dbg [] = None"
| "rw_lock_try_read dbg ((loaded, now) # env) =
     (if loaded \<ge> 0 then
        (case isize_inc dbg loaded of
           Inl p \<Rightarrow> Some (Inl p)
         | Inr n \<Rightarrow> if now = loaded then Some (Inr (Some n)) else rw_lock_try_read dbg env)
      else Some (Inr None))"

text \<open>\<open>write\<close> and \<open>read\<close> try again after each \<open>yield_now\<close>.\<close>

fun rw_lock_write :: "int list \<Rightarrow> int option" where
  "rw_lock_write [] = None"
| "rw_lock_write (n # env) =
     (case rw_lock_try_write n of (True, n') \<Rightarrow> Some n' | (False, _) \<Rightarrow> rw_lock_write env)"

fun rw_lock_read :: "bool \<Rightarrow> (int \<times> int) list list \<Rightarrow> int res option" where
  "rw_lock_read dbg [] = None"
| "rw_lock_read dbg (attempt # env) =
     (case rw_lock_try_read dbg attempt of
        None \<Rightarrow> None
      | Some (Inl p) \<Rightarrow> Some (Inl p)
      | Some (Inr (Some n)) \<Rightarrow> Some (Inr n)
      | Some (Inr None) \<Rightarrow> rw_lock_read dbg env)"

text \<open>The debug checks use a value loaded before the atomic update, which wraps.\<close>

definition isize_wrap :: "int \<Rightarrow> int" where
  "isize_wrap n = (n + 2 ^ 63) mod 2 ^ 64 - 2 ^ 63"

definition rw_lock_read_unlock :: "bool \<Rightarrow> int \<Rightarrow> int \<Rightarrow> int res" where
  "rw_lock_read_unlock dbg current now =
     (if dbg \<and> (current = 0 \<or> \<not> current > 0) then Inl DebugAssert else Inr (isize_wrap (now - 1)))"

definition rw_lock_write_unlock :: "bool \<Rightarrow> int \<Rightarrow> int \<Rightarrow> int res" where
  "rw_lock_write_unlock dbg current now =
     (if dbg \<and> (current = 0 \<or> \<not> current < 0) then Inl DebugAssert else Inr 0)"

definition rw_lock_get_read_locked :: "bool \<Rightarrow> int \<Rightarrow> unit res" where
  "rw_lock_get_read_locked dbg current =
     (if dbg \<and> (current = 0 \<or> \<not> current > 0) then Inl DebugAssert else Inr ())"

definition rw_lock_get_write_locked :: "bool \<Rightarrow> int \<Rightarrow> unit res" where
  "rw_lock_get_write_locked dbg current =
     (if dbg \<and> (current = 0 \<or> \<not> current < 0) then Inl DebugAssert else Inr ())"

subsection \<open>Threads\<close>

text \<open>
  One rule per atomic access. \<open>rs_loaded t\<close> is the value the activity \<open>t\<close> loaded last, in
  \<open>try_read\<close> or in the check of an unlock. Fewer than \<open>isize_max\<close> read guards exist at a time.
\<close>

record 't rw_shared =
  rs_count :: int
  rs_readers :: "'t list"
  rs_writers :: "'t list"
  rs_loaded :: "'t \<Rightarrow> int option"

definition rw_shared_start :: "'t rw_shared \<Rightarrow> bool" where
  "rw_shared_start s \<longleftrightarrow>
     s = \<lparr>rs_count = rw_lock_new, rs_readers = [], rs_writers = [], rs_loaded = (\<lambda>_. None)\<rparr>"

inductive rw_shared_step :: "'t rw_shared \<Rightarrow> 't rw_shared \<Rightarrow> bool" where
  rw_load: "rw_shared_step s (s\<lparr>rs_loaded := (rs_loaded s)(t \<mapsto> rs_count s)\<rparr>)"
| rw_cas: "rs_loaded s t = Some k \<Longrightarrow> k < isize_max \<Longrightarrow>
    rw_lock_try_read dbg [(k, rs_count s)] = Some (Inr (Some n)) \<Longrightarrow>
    rw_shared_step s (s\<lparr>rs_count := n, rs_readers := t # rs_readers s, rs_loaded := (rs_loaded s)(t := None)\<rparr>)"
| rw_try_write: "rw_lock_try_write (rs_count s) = (True, n) \<Longrightarrow>
    rw_shared_step s (s\<lparr>rs_count := n, rs_writers := t # rs_writers s, rs_loaded := (rs_loaded s)(t := None)\<rparr>)"
| rw_read_drop: "t \<in> set (rs_readers s) \<Longrightarrow> rs_loaded s t = Some k \<Longrightarrow>
    rw_lock_read_unlock dbg k (rs_count s) = Inr n \<Longrightarrow>
    rw_shared_step s (s\<lparr>rs_count := n, rs_readers := remove1 t (rs_readers s), rs_loaded := (rs_loaded s)(t := None)\<rparr>)"
| rw_write_drop: "t \<in> set (rs_writers s) \<Longrightarrow> rs_loaded s t = Some k \<Longrightarrow>
    rw_lock_write_unlock dbg k (rs_count s) = Inr n \<Longrightarrow>
    rw_shared_step s (s\<lparr>rs_count := n, rs_writers := remove1 t (rs_writers s), rs_loaded := (rs_loaded s)(t := None)\<rparr>)"

definition rw_shared_inv :: "'t rw_shared \<Rightarrow> bool" where
  "rw_shared_inv s \<longleftrightarrow>
     rw_guards (rs_count s) (rs_readers s) (rs_writers s) \<and> rs_count s \<le> isize_max \<and>
     (\<forall>t \<in> set (rs_readers s). \<forall>k. rs_loaded s t = Some k \<longrightarrow> 0 < k) \<and>
     (\<forall>t \<in> set (rs_writers s). \<forall>k. rs_loaded s t = Some k \<longrightarrow> k < 0)"

lemma isize_wrap_id: "- isize_max - 1 \<le> n \<Longrightarrow> n \<le> isize_max \<Longrightarrow> isize_wrap n = n"
  by (simp add: isize_wrap_def isize_max_def)

lemma rw_guards_readers:
  assumes "rw_guards n R W" and "t \<in> set R"
  shows "0 < n \<and> W = [] \<and> int (length R) = n \<and> rw_guards (n - 1) (remove1 t R) W"
  using assms length_pos_if_in_set[OF assms(2)]
  by (auto simp: rw_guards_def length_remove1 split: if_splits)

lemma rw_guards_writers:
  assumes "rw_guards n R W" and "t \<in> set W"
  shows "n = - 1 \<and> W = [t] \<and> R = []"
  using assms by (auto simp: rw_guards_def length_Suc_conv split: if_splits)

lemma rw_shared_inv_step:
  assumes "rw_shared_inv s" and "rw_shared_step s s'"
  shows "rw_shared_inv s'"
  using assms(2)
proof (cases rule: rw_shared_step.cases)
  case (rw_load t)
  with assms(1) show ?thesis
    by (auto simp: rw_shared_inv_def dest: rw_guards_readers rw_guards_writers)
next
  case (rw_cas t k dbg n)
  then have "0 \<le> k" "rs_count s = k" "n = k + 1"
    by (auto simp: isize_inc_def split: if_splits)
  with rw_cas assms(1) show ?thesis by (auto simp: rw_shared_inv_def rw_guards_def split: if_splits)
next
  case (rw_try_write n t)
  with assms(1) show ?thesis
    by (auto simp: rw_shared_inv_def rw_guards_def rw_lock_try_write_def isize_max_def split: if_splits)
next
  case (rw_read_drop t k dbg n)
  with assms(1) have g: "rw_guards (rs_count s) (rs_readers s) (rs_writers s)" "rs_count s \<le> isize_max"
    by (auto simp: rw_shared_inv_def)
  note r = rw_guards_readers[OF g(1) rw_read_drop(2)]
  have "n = rs_count s - 1"
    using rw_read_drop(4) r g(2)
    by (auto simp: rw_lock_read_unlock_def isize_wrap_id isize_max_def split: if_splits)
  with rw_read_drop assms(1) r show ?thesis
    by (auto simp: rw_shared_inv_def dest: notin_set_remove1 split: if_splits)
next
  case (rw_write_drop t k dbg n)
  with assms(1) have g: "rw_guards (rs_count s) (rs_readers s) (rs_writers s)"
    by (auto simp: rw_shared_inv_def)
  note r = rw_guards_writers[OF g rw_write_drop(2)]
  with rw_write_drop show ?thesis
    by (auto simp: rw_shared_inv_def rw_guards_def rw_lock_write_unlock_def isize_max_def split: if_splits)
qed

interpretation rwsh: invariant_system rw_shared_start rw_shared_step rw_shared_inv
proof unfold_locales
  show "rw_shared_inv s" if "rw_shared_start s" for s :: "'t rw_shared"
    using that by (simp add: rw_shared_start_def rw_shared_inv_def rw_guards_def rw_lock_new_def isize_max_def)
qed (rule rw_shared_inv_step)

section \<open>Properties\<close>

text \<open>
  C23. In every history of a new \<open>LocalRWLock\<close> (reads and writes that wait, tries, guard drops, in
  a debug or a release build) no operation panics; the lock reports what its guards are: unlocked
  with none, read-locked with exactly the readers and no writer, write-locked with one writer and
  no reader; nobody waits on a free lock and no reader waits while readers have it; and every
  parked task was resumed once or is still queued.
\<close>

theorem local_rw_lock_exclusive:
  assumes "oks local_rw_lock_ok (local_rw_lock_step dbg) ps (local_rw_lock_new v, [], [])"
    and "run_ops (local_rw_lock_step dbg) ps (local_rw_lock_new v, [], []) = (os, l, R, W)"
  shows "(case local_rw_lock_get_lock_status l of
       Unlocked \<Rightarrow> R = [] \<and> W = [] \<and> lrw_wait_queue_read l = [] \<and> lrw_wait_queue_write l = []
     | ReadLocked n \<Rightarrow> length R = n \<and> W = [] \<and> lrw_wait_queue_read l = []
     | WriteLocked \<Rightarrow> R = [] \<and> length W = 1) \<and>
    list_all (\<lambda>r. \<not> rr_panic r) os \<and>
    count (mset (concat (map rr_resumed os))) t + count (rw_waiting (l, R, W)) t =
    count (mset (concat (map rr_suspended os))) t"
proof -
  have start: "local_rw_lock_inv (local_rw_lock_new v, [], [])" "rw_waiting (local_rw_lock_new v, [], []) = {#}"
    by (simp_all add: rw_step_defs local_rw_lock_new_def)
  have "local_rw_lock_inv (l, R, W)" by (rule rwpark.run_inv[OF start(1) assms])
  then have "case local_rw_lock_get_lock_status l of
       Unlocked \<Rightarrow> R = [] \<and> W = [] \<and> lrw_wait_queue_read l = [] \<and> lrw_wait_queue_write l = []
     | ReadLocked n \<Rightarrow> length R = n \<and> W = [] \<and> lrw_wait_queue_read l = []
     | WriteLocked \<Rightarrow> R = [] \<and> length W = 1"
    by (cases "lrw_number_of_readers l = 0"; cases "lrw_number_of_readers l = - 1")
      (auto simp: local_rw_lock_get_lock_status_def lock_status_of_def rw_step_defs)
  moreover have "list_all (\<lambda>r. \<not> rr_panic r) os"
    by (rule rwpark.run_reports[OF _ start(1) assms]) (blast dest: local_rw_lock_step_ok)
  moreover note rwpark.run_resumed_once[OF start assms, of t]
  ultimately show ?thesis by blast
qed

definition rw_demo :: "nat rw_op list" where
  "rw_demo = [ReadCall 1, ReadCall 2, WriteCall 3, TryWriteCall 4, DropReadGuard 1, DropReadGuard 2,
     ReadCall 5, ReadCall 6, DropWriteGuard 3]"

theorem local_rw_lock_exclusive_witness:
  "\<exists>os l. run_ops (local_rw_lock_step True) rw_demo (local_rw_lock_new (0 :: nat), [], []) = (os, l, [5, 6], []) \<and>
     local_rw_lock_get_lock_status l = ReadLocked 2 \<and> length [5, 6 :: nat] = 2"
proof -
  let ?run = "run_ops (local_rw_lock_step True) rw_demo (local_rw_lock_new (0 :: nat), [], [])"
  obtain os l R W where r: "?run = (os, l, R, W)" using prod_cases4 by blast
  have ok: "oks local_rw_lock_ok (local_rw_lock_step True) rw_demo (local_rw_lock_new (0 :: nat), [], [])"
    and "snd (snd ?run) = ([5, 6], [])" "local_rw_lock_get_lock_status (fst (snd ?run)) = ReadLocked 2"
    by code_simp+
  with r have "R = [5, 6]" "W = []" "local_rw_lock_get_lock_status l = ReadLocked 2" by simp_all
  with local_rw_lock_exclusive[OF ok r, of 5] r show ?thesis by auto
qed

text \<open>
  \<open>LocalRWLock::write_unlock\<close> executes the parked readers one by one, and each may run at once
  and use the lock again. As long as a woken reader gives back at most its own guard and parks
  nobody in the queue of readers, the unlock of a write-locked lock returns: the loop never
  unwraps the head of an empty queue.
\<close>

theorem local_rw_lock_write_unlock_defined:
  assumes "readers_rely exec" and "lrw_number_of_readers l = - 1"
  shows "\<exists>s'. local_rw_lock_write_unlock dbg exec (l, w) = Inr s'"
proof (cases "lrw_wait_queue_write l" rule: rev_cases)
  case Nil
  with assms exec_waiting_readers_returns[OF assms(1),
      of "(l\<lparr>lrw_number_of_readers := int (length (lrw_wait_queue_read l))\<rparr>, w)"]
  show ?thesis by (simp add: local_rw_lock_write_unlock_def)
next
  case (snoc xs t)
  with assms(2) show ?thesis
    by (cases "exec t (l\<lparr>lrw_wait_queue_write := xs\<rparr>, w)") (simp add: local_rw_lock_write_unlock_def)
qed

text \<open>Readers that drop their guard as soon as they run, waking the next writer.\<close>

definition drop_at_once :: "(nat, nat, nat list) rw_exec" where
  "drop_at_once t s =
     (case local_rw_lock_read_unlock False (\<lambda>u s. (fst s, u # snd s)) (fst s, t # snd s) of
        Inr s' \<Rightarrow> s' | Inl _ \<Rightarrow> s)"

theorem local_rw_lock_write_unlock_defined_witness:
  "\<exists>s'. local_rw_lock_write_unlock True drop_at_once
     (\<lparr>lrw_wait_queue_read = [1, 2], lrw_wait_queue_write = [], lrw_number_of_readers = - 1, lrw_value = 0\<rparr>, [])
     = Inr s' \<and> snd s' = [1, 2] \<and> lrw_number_of_readers (fst s') = 0"
proof -
  let ?l = "\<lparr>lrw_wait_queue_read = [1, 2], lrw_wait_queue_write = [], lrw_number_of_readers = - 1, lrw_value = 0\<rparr>"
  have "readers_rely drop_at_once"
    by (auto simp: readers_rely_def drop_at_once_def local_rw_lock_read_unlock_def isize_dec_def
        isize_max_def Let_def split: sum.splits)
  then obtain s' where "local_rw_lock_write_unlock True drop_at_once (?l, []) = Inr s'"
    using local_rw_lock_write_unlock_defined[of drop_at_once ?l True "[]"] by auto
  moreover have "(case local_rw_lock_write_unlock True drop_at_once (?l, []) of
      Inr s' \<Rightarrow> snd s' = [1, 2] \<and> lrw_number_of_readers (fst s') = 0 | Inl _ \<Rightarrow> False)"
    by code_simp
  ultimately show ?thesis by auto
qed

text \<open>
  C24. In every interleaving of the atomic accesses of the threads that use a shared \<open>RWLock\<close>, the
  counter is \<open>-1\<close> with exactly one write guard and no read guard, or it is the number of read
  guards with no write guard; and the debug checks of an unlock pass for whoever has the guard.
\<close>

theorem rw_lock_exclusive:
  assumes "reach rw_shared_start rw_shared_step s"
  shows "(rs_writers s = [] \<and> rs_count s = int (length (rs_readers s)) \<or>
      (\<exists>t. rs_writers s = [t]) \<and> rs_readers s = [] \<and> rs_count s = - 1) \<and>
    (t \<in> set (rs_readers s) \<and> rs_loaded s t = Some k \<longrightarrow>
      rw_lock_read_unlock True k (rs_count s) = Inr (rs_count s - 1)) \<and>
    (t \<in> set (rs_writers s) \<and> rs_loaded s t = Some k \<longrightarrow>
      rw_lock_write_unlock True k (rs_count s) = Inr 0)"
proof -
  have i: "rw_shared_inv s" by (rule rwsh.reach_inv[OF assms])
  then have g: "rw_guards (rs_count s) (rs_readers s) (rs_writers s)" by (simp add: rw_shared_inv_def)
  have "rs_writers s = [] \<and> rs_count s = int (length (rs_readers s)) \<or>
      (\<exists>t. rs_writers s = [t]) \<and> rs_readers s = [] \<and> rs_count s = - 1"
    using g by (auto simp: rw_guards_def length_Suc_conv split: if_splits)
  moreover have "t \<in> set (rs_readers s) \<and> rs_loaded s t = Some k \<longrightarrow>
      rw_lock_read_unlock True k (rs_count s) = Inr (rs_count s - 1)"
    using i g rw_guards_readers[OF g, of t]
    by (auto simp: rw_shared_inv_def rw_lock_read_unlock_def isize_wrap_id isize_max_def)
  moreover have "t \<in> set (rs_writers s) \<and> rs_loaded s t = Some k \<longrightarrow>
      rw_lock_write_unlock True k (rs_count s) = Inr 0"
    using i by (auto simp: rw_shared_inv_def rw_lock_write_unlock_def)
  ultimately show ?thesis by blast
qed

theorem rw_lock_exclusive_witness:
  "\<exists>s :: nat rw_shared. reach rw_shared_start rw_shared_step s \<and> rs_readers s = [7] \<and>
     rs_count s = int (length (rs_readers s)) \<and> rw_lock_read_unlock True 1 (rs_count s) = Inr 0"
proof -
  let ?s0 = "\<lparr>rs_count = 0, rs_readers = [] :: nat list, rs_writers = [], rs_loaded = (\<lambda>_. None)\<rparr>"
  let ?s1 = "?s0\<lparr>rs_loaded := (rs_loaded ?s0)(7 \<mapsto> 0)\<rparr>"
  let ?s2 = "?s1\<lparr>rs_count := 1, rs_readers := [7], rs_loaded := (rs_loaded ?s1)(7 := None)\<rparr>"
  let ?s3 = "?s2\<lparr>rs_loaded := (rs_loaded ?s2)(7 \<mapsto> 1)\<rparr>"
  have "rw_shared_start ?s0" by (simp add: rw_shared_start_def rw_lock_new_def)
  then have "reach rw_shared_start rw_shared_step ?s0" by (rule reach_start)
  moreover have "rw_shared_step ?s0 ?s1" using rw_load[of ?s0 7] by simp
  moreover have "rw_shared_step ?s1 ?s2"
    using rw_cas[of ?s1 7 0 True 1] by (simp add: isize_inc_def isize_max_def)
  moreover have "rw_shared_step ?s2 ?s3" using rw_load[of ?s2 7] by simp
  ultimately have "reach rw_shared_start rw_shared_step ?s3" by (meson reach_step)
  with rw_lock_exclusive[of ?s3 7 1] show ?thesis by (intro exI[of _ ?s3]) simp
qed

text \<open>
  \<open>RWLock::read\<close> and \<open>RWLock::write\<close> return as soon as an attempt sees a lock it can take: a
  reader when an iteration loads a counter that is not negative and that the compare-exchange
  finds unchanged (whatever failed before it), a writer when an attempt finds the counter at zero.
\<close>

theorem rw_lock_acquires:
  assumes "\<forall>a \<in> set attempts. rw_lock_try_read dbg a = Some (Inr None)"
    and "\<forall>(loaded, now) \<in> set spins. 0 \<le> loaded \<and> loaded < isize_max \<and> now \<noteq> loaded"
    and "0 \<le> n" and "n < isize_max"
  shows "rw_lock_read dbg (attempts @ [spins @ [(n, n)]]) = Some (Inr (n + 1)) \<and>
    (0 \<notin> set busy \<longrightarrow> rw_lock_write (busy @ [0]) = Some (- 1) \<and> rw_lock_write busy = None)"
proof -
  have "rw_lock_try_read dbg (spins @ [(n, n)]) = Some (Inr (Some (n + 1)))"
    using assms(2-4) by (induction spins) (auto simp: isize_inc_def)
  then have "rw_lock_read dbg (attempts @ [spins @ [(n, n)]]) = Some (Inr (n + 1))"
    using assms(1) by (induction attempts) auto
  moreover have "0 \<notin> set busy \<Longrightarrow> rw_lock_write (busy @ [0]) = Some (- 1) \<and> rw_lock_write busy = None"
    by (induction busy) (auto simp: rw_lock_try_write_def)
  ultimately show ?thesis by blast
qed

theorem rw_lock_acquires_witness:
  "rw_lock_read True ([[(- 1, - 1)]] @ [[(0, 1)] @ [(1, 1)]]) = Some (Inr (1 + 1)) \<and>
   rw_lock_write ([- 1, 2] @ [0]) = Some (- 1)"
  using rw_lock_acquires[of "[[(- 1, - 1)]]" True "[(0, 1)]" 1 "[- 1, 2]"]
  by (simp add: isize_max_def)

end
