(* ===== verification/Wait_Groups.thy ===== *)
theory Wait_Groups
  imports Task_Lists Transition_Systems
begin

text \<open>
  Wait groups and scopes (\<open>src/src/sync/wait_groups\<close>, \<open>src/src/sync/scopes\<close>). A local wait group
  resumes every task that waits when its counter reaches zero, and a local scope returns only
  after every future spawned on it. For the shared group, the accesses of \<open>done\<close> and of the
  call that parks a waiter interleave: nobody is left waiting, but a \<open>done\<close> that is still
  emptying the queue can meet the next use of the group.
\<close>

section \<open>The local wait group\<close>

record 't local_wait_group =
  lwg_count :: nat
  lwg_waited_tasks :: "'t list"

definition local_wait_group_new :: "'t local_wait_group" where
  "local_wait_group_new = \<lparr>lwg_count = 0, lwg_waited_tasks = []\<rparr>"

definition wait_local_wait_group_poll ::
  "'t \<Rightarrow> 't local_wait_group \<Rightarrow> unit poll \<times> 't local_wait_group" where
  "wait_local_wait_group_poll t g =
     (if lwg_count g \<noteq> 0 then (Pending, g\<lparr>lwg_waited_tasks := lwg_waited_tasks g @ [t]\<rparr>)
      else (Ready (), g))"

definition local_wait_group_add :: "bool \<Rightarrow> nat \<Rightarrow> 't local_wait_group \<Rightarrow> 't local_wait_group res" where
  "local_wait_group_add dbg n g = bindR (usize_add dbg (lwg_count g) n) (\<lambda>c. Inr (g\<lparr>lwg_count := c\<rparr>))"

definition local_wait_group_inc :: "bool \<Rightarrow> 't local_wait_group \<Rightarrow> 't local_wait_group res" where
  "local_wait_group_inc dbg g = local_wait_group_add dbg 1 g"

definition local_wait_group_count :: "'t local_wait_group \<Rightarrow> nat" where
  "local_wait_group_count g = lwg_count g"

text \<open>
  \<open>done\<close> drains the queue and executes the tasks; \<open>exec\<close> is what \<open>exec_task\<close> does to the group
  and to the rest of the program. The count returned is read after the tasks were executed.
\<close>

definition local_wait_group_done ::
  "bool \<Rightarrow> ('t \<Rightarrow> 't local_wait_group \<times> 'w \<Rightarrow> 't local_wait_group \<times> 'w) \<Rightarrow>
   't local_wait_group \<times> 'w \<Rightarrow> (nat \<times> 't local_wait_group \<times> 'w) res" where
  "local_wait_group_done dbg exec s =
     bindR (usize_sub dbg (lwg_count (fst s)) 1) (\<lambda>c.
       let g = (fst s)\<lparr>lwg_count := c\<rparr>;
           s' = (if c = 0 then fold exec (lwg_waited_tasks g) (g\<lparr>lwg_waited_tasks := []\<rparr>, snd s)
                 else (g, snd s))
       in Inr (lwg_count (fst s'), s'))"

section \<open>The local scope\<close>

text \<open>
  The future of \<open>local_scope\<close>: the body, then the wait group, then one \<open>yield_now\<close>.
  \<open>LocalScope::exec\<close> and \<open>spawn\<close> count the handle and hand it to the executor; the handle calls
  \<open>done\<close> when its future is ready.
\<close>

datatype scope_state = ScopeBody | ScopeWait | ScopeYield | ScopeReturned

definition local_scope_exec :: "bool \<Rightarrow> 't \<Rightarrow> 't local_wait_group \<Rightarrow> ('t wake list \<times> 't local_wait_group) res" where
  "local_scope_exec dbg h g = bindR (local_wait_group_inc dbg g) (\<lambda>g'. Inr ([ExecTask h], g'))"

definition local_scope_spawn :: "bool \<Rightarrow> 't \<Rightarrow> 't local_wait_group \<Rightarrow> ('t wake list \<times> 't local_wait_group) res" where
  "local_scope_spawn dbg h g = bindR (local_wait_group_inc dbg g) (\<lambda>g'. Inr ([SpawnLocalTask h], g'))"

definition local_scoped_handle_poll ::
  "bool \<Rightarrow> ('t \<Rightarrow> 't local_wait_group \<times> 'w \<Rightarrow> 't local_wait_group \<times> 'w) \<Rightarrow> unit poll \<Rightarrow>
   't local_wait_group \<times> 'w \<Rightarrow> (unit poll \<times> 't local_wait_group \<times> 'w) res" where
  "local_scoped_handle_poll dbg exec fut s =
     (case fut of
        Pending \<Rightarrow> Inr (Pending, s)
      | Ready _ \<Rightarrow> bindR (local_wait_group_done dbg exec s) (\<lambda>(_, s'). Inr (Ready (), s')))"

definition local_scope_wait :: "'t \<Rightarrow> 't local_wait_group \<Rightarrow> unit poll \<times> scope_state \<times> 't local_wait_group" where
  "local_scope_wait t g =
     (case wait_local_wait_group_poll t g of
        (Pending, g') \<Rightarrow> (Pending, ScopeWait, g')
      | (Ready _, g') \<Rightarrow> (Pending, ScopeYield, g'))"

fun local_scope_poll ::
  "unit poll \<Rightarrow> 't \<Rightarrow> scope_state \<Rightarrow> 't local_wait_group \<Rightarrow> unit poll \<times> scope_state \<times> 't local_wait_group" where
  "local_scope_poll body t ScopeBody g =
     (case body of Pending \<Rightarrow> (Pending, ScopeBody, g) | Ready _ \<Rightarrow> local_scope_wait t g)"
| "local_scope_poll body t ScopeWait g = local_scope_wait t g"
| "local_scope_poll body t ScopeYield g = (Ready (), ScopeReturned, g)"
| "local_scope_poll body t ScopeReturned g = (Ready (), ScopeReturned, g)"

section \<open>The shared wait group\<close>

record 't wait_group =
  wg_counter :: nat
  wg_waited_tasks :: "'t sync_task_list"

definition wait_group_new :: "'t wait_group" where
  "wait_group_new = \<lparr>wg_counter = 0, wg_waited_tasks = sync_task_list_new\<rparr>"

text \<open>
  The first poll asks the executor to push the task and to take one out if the counter is zero
  (\<open>Call::PushCurrentTaskToAndRemoveItIfCounterIsZero\<close>); the second is ready whatever the counter is.
\<close>

definition wait_shared_wait_group_poll :: "bool \<Rightarrow> bool \<Rightarrow> bool \<Rightarrow> (unit poll \<times> bool \<times> bool) res" where
  "wait_shared_wait_group_poll dbg local was_called =
     (if dbg \<and> local then Inl Asserted
      else if \<not> was_called then Inr (Pending, True, True) else Inr (Ready (), was_called, False))"

text \<open>The atomic operations wrap.\<close>

definition wait_group_add :: "nat \<Rightarrow> 't wait_group \<Rightarrow> 't wait_group" where
  "wait_group_add n g = g\<lparr>wg_counter := (wg_counter g + n) mod (usize_max + 1)\<rparr>"

definition wait_group_count :: "'t wait_group \<Rightarrow> nat" where
  "wait_group_count g = wg_counter g"

text \<open>\<open>done\<close> is the atomic decrement, then, for the last one, the removal of all tasks.\<close>

definition wait_group_done_dec :: "bool \<Rightarrow> 't wait_group \<Rightarrow> (nat \<times> 't wait_group) res" where
  "wait_group_done_dec dbg g =
     (if dbg \<and> \<not> wg_counter g > 0 then Inl DebugAssert
      else Inr (wg_counter g, g\<lparr>wg_counter := (wg_counter g + usize_max) mod (usize_max + 1)\<rparr>))"

definition wait_group_done_wake :: "'t wait_group \<Rightarrow> 't wake list \<times> 't wait_group" where
  "wait_group_done_wake g =
     (case sync_task_list_pop_all_in [] (wg_waited_tasks g) of
        (tasks, q) \<Rightarrow> (map SpawnSharedTask tasks, g\<lparr>wg_waited_tasks := q\<rparr>))"

definition wait_group_done :: "bool \<Rightarrow> 't wait_group \<Rightarrow> (nat \<times> 't wake list \<times> 't wait_group) res" where
  "wait_group_done dbg g =
     bindR (wait_group_done_dec dbg g) (\<lambda>(prev_count, g').
       if prev_count = 1 then (case wait_group_done_wake g' of (ws, g'') \<Rightarrow> Inr (prev_count, ws, g''))
       else Inr (prev_count, [], g'))"

section \<open>The shared scope\<close>

definition scope_exec :: "'t \<Rightarrow> 't wait_group \<Rightarrow> 't wake list \<times> 't wait_group" where
  "scope_exec h g = ([ExecTask h], wait_group_add 1 g)"

definition scope_spawn :: "'t \<Rightarrow> 't wait_group \<Rightarrow> 't wake list \<times> 't wait_group" where
  "scope_spawn h g = ([SpawnSharedTask h], wait_group_add 1 g)"

definition scoped_handle_poll ::
  "bool \<Rightarrow> bool \<Rightarrow> unit poll \<Rightarrow> 't wait_group \<Rightarrow> (unit poll \<times> 't wake list \<times> 't wait_group) res" where
  "scoped_handle_poll dbg local fut g =
     (if dbg \<and> local then Inl Asserted
      else case fut of
        Pending \<Rightarrow> Inr (Pending, [], g)
      | Ready _ \<Rightarrow> bindR (wait_group_done dbg g) (\<lambda>(_, ws, g'). Inr (Ready (), ws, g')))"

text \<open>The last boolean of a poll is the request to push the task to the group's queue.\<close>

definition shared_scope_wait :: "bool \<Rightarrow> bool \<Rightarrow> bool \<Rightarrow> (unit poll \<times> scope_state \<times> bool \<times> bool) res" where
  "shared_scope_wait dbg local was_called =
     bindR (wait_shared_wait_group_poll dbg local was_called) (\<lambda>(p, called, push).
       case p of
         Pending \<Rightarrow> Inr (Pending, ScopeWait, called, push)
       | Ready _ \<Rightarrow> Inr (Pending, ScopeYield, called, push))"

fun shared_scope_poll ::
  "bool \<Rightarrow> bool \<Rightarrow> unit poll \<Rightarrow> scope_state \<Rightarrow> bool \<Rightarrow> (unit poll \<times> scope_state \<times> bool \<times> bool) res" where
  "shared_scope_poll dbg local body ScopeBody was_called =
     (case body of
        Pending \<Rightarrow> Inr (Pending, ScopeBody, was_called, False)
      | Ready _ \<Rightarrow> shared_scope_wait dbg local was_called)"
| "shared_scope_poll dbg local body ScopeWait was_called = shared_scope_wait dbg local was_called"
| "shared_scope_poll dbg local body ScopeYield was_called = Inr (Ready (), ScopeReturned, was_called, False)"
| "shared_scope_poll dbg local body ScopeReturned was_called = Inr (Ready (), ScopeReturned, was_called, False)"

section \<open>Histories of a local scope\<close>

text \<open>
  The world is the group of the scope, the handles that are not finished, and the state of the
  future. A report lists what an operation did, with the number of unfinished handles after it and whether it did not panic. A handle can be spawned by the body or by another handle; the scope is polled when its
  body can go on, or when the group resumed it.
\<close>

datatype 't scope_op = ScopeExec 't | ScopeSpawn 't | HandlePoll 't "unit poll" | ScopePoll "unit poll" 't

record 't scope_report =
  sr_spawned :: "'t list"
  sr_finished :: "'t list"
  sr_suspended :: "'t list"
  sr_resumed :: "'t list"
  sr_left :: nat
  sr_no_panic :: bool

type_synonym 't scope_world = "'t local_wait_group \<times> 't list \<times> scope_state"

definition log_exec :: "'t \<Rightarrow> 't local_wait_group \<times> 't list \<Rightarrow> 't local_wait_group \<times> 't list" where
  "log_exec t s = (fst s, snd s @ [t])"

abbreviation quiet :: "'t list \<Rightarrow> 't scope_report" where
  "quiet H \<equiv> \<lparr>sr_spawned = [], sr_finished = [], sr_suspended = [], sr_resumed = [], sr_left = length H, sr_no_panic = True\<rparr>"

fun local_scope_step :: "bool \<Rightarrow> 't scope_op \<Rightarrow> 't scope_world \<Rightarrow> 't scope_report \<times> 't scope_world" where
  "local_scope_step dbg (ScopeExec h) (g, H, st) =
     (case local_scope_exec dbg h g of
        Inr (_, g') \<Rightarrow> ((quiet (h # H))\<lparr>sr_spawned := [h]\<rparr>, g', h # H, st)
      | Inl _ \<Rightarrow> ((quiet H)\<lparr>sr_no_panic := False\<rparr>, g, H, st))"
| "local_scope_step dbg (ScopeSpawn h) (g, H, st) =
     (case local_scope_spawn dbg h g of
        Inr (_, g') \<Rightarrow> ((quiet (h # H))\<lparr>sr_spawned := [h]\<rparr>, g', h # H, st)
      | Inl _ \<Rightarrow> ((quiet H)\<lparr>sr_no_panic := False\<rparr>, g, H, st))"
| "local_scope_step dbg (HandlePoll h fut) (g, H, st) =
     (case local_scoped_handle_poll dbg log_exec fut (g, []) of
        Inr (Ready _, g', ts) \<Rightarrow> ((quiet (remove1 h H))\<lparr>sr_finished := [h], sr_resumed := ts\<rparr>, g', remove1 h H, st)
      | Inr (Pending, g', ts) \<Rightarrow> ((quiet H)\<lparr>sr_resumed := ts\<rparr>, g', H, st)
      | Inl _ \<Rightarrow> ((quiet H)\<lparr>sr_no_panic := False\<rparr>, g, H, st))"
| "local_scope_step dbg (ScopePoll body t) (g, H, st) =
     (case local_scope_poll body t st g of (_, st', g') \<Rightarrow>
        ((quiet H)\<lparr>sr_suspended := drop (length (lwg_waited_tasks g)) (lwg_waited_tasks g')\<rparr>, g', H, st'))"

fun local_scope_ok :: "'t scope_op \<Rightarrow> 't scope_world \<Rightarrow> bool" where
  "local_scope_ok (HandlePoll h fut) (g, H, st) \<longleftrightarrow> h \<in> set H"
| "local_scope_ok (ScopePoll body t) (g, H, st) \<longleftrightarrow> st = ScopeBody \<or> st = ScopeYield \<or> st = ScopeWait \<and> lwg_waited_tasks g = []"
| "local_scope_ok p (g, H, st) \<longleftrightarrow> lwg_count g < usize_max \<and> (st = ScopeBody \<or> H \<noteq> [])"

definition local_scope_inv :: "'t scope_world \<Rightarrow> bool" where
  "local_scope_inv s \<longleftrightarrow> (case s of (g, H, st) \<Rightarrow>
     lwg_count g = length H \<and> (lwg_count g = 0 \<longrightarrow> lwg_waited_tasks g = []) \<and>
     (st = ScopeYield \<or> st = ScopeReturned \<longrightarrow> H = []))"

lemma fold_log_exec: "fold log_exec ts (g, us) = (g, us @ ts)"
  by (induction ts arbitrary: us) (auto simp: log_exec_def)

lemmas local_scope_defs = local_scope_exec_def local_scope_spawn_def local_scoped_handle_poll_def
  local_scope_wait_def wait_local_wait_group_poll_def local_wait_group_inc_def local_wait_group_add_def
  local_wait_group_done_def Let_def fold_log_exec bindR_Inr_conv

lemma local_scope_step_ok:
  assumes "local_scope_inv s" and "local_scope_ok p s" and "local_scope_step dbg p s = (r, s')"
  shows "local_scope_inv s' \<and>
    mset (lwg_waited_tasks (fst s)) + mset (sr_suspended r) = mset (lwg_waited_tasks (fst s')) + mset (sr_resumed r) \<and>
    mset (fst (snd s)) + mset (sr_spawned r) = mset (fst (snd s')) + mset (sr_finished r) \<and>
    sr_no_panic r \<and> (sr_resumed r \<noteq> [] \<longrightarrow> sr_left r = 0 \<and> sr_finished r \<noteq> [])"
proof (cases s)
  case [simp]: (fields g H st)
  show ?thesis
  proof (cases p)
    case (HandlePoll h fut)
    with assms have h: "h \<in> set H" by simp
    then have "length H = Suc (length (remove1 h H))" "add_mset h (mset (remove1 h H)) = mset H"
      using length_pos_if_in_set[OF h] by (simp_all add: length_remove1)
    moreover have "length H = Suc 0 \<Longrightarrow> H = [h]" using h by (auto simp: length_Suc_conv)
    ultimately show ?thesis using HandlePoll assms
      by (cases fut) (auto simp: local_scope_inv_def local_scope_defs split: if_splits)
  next
    case (ScopePoll body t)
    with assms show ?thesis
      by (cases st; cases body) (auto simp: local_scope_inv_def local_scope_defs split: if_splits)
  qed (use assms in \<open>auto simp: local_scope_inv_def local_scope_defs\<close>)
qed

interpretation scwait: parking "local_scope_step dbg" local_scope_ok local_scope_inv
  "\<lambda>s. mset (lwg_waited_tasks (fst s))" sr_suspended sr_resumed
  by unfold_locales (blast dest: local_scope_step_ok)+

interpretation schand: parking "local_scope_step dbg" local_scope_ok local_scope_inv
  "\<lambda>s. mset (fst (snd s))" sr_spawned sr_finished
  by unfold_locales (blast dest: local_scope_step_ok)+

section \<open>Threads on a shared wait group\<close>

text \<open>
  One rule per atomic access. \<open>gs_checking\<close> counts the executors that pushed a waiter and have
  not loaded the counter yet, \<open>gs_popping\<close> those that saw zero and have not popped yet,
  \<open>gs_waking\<close> the calls of \<open>done\<close> that took the last count and have not emptied the queue yet.
  \<open>gs_waits\<close> and \<open>gs_resumed\<close> are the tasks that parked and those that were resumed.
\<close>

record 't group_threads =
  gs_group :: "'t wait_group"
  gs_checking :: nat
  gs_popping :: nat
  gs_waking :: nat
  gs_waits :: "'t list"
  gs_resumed :: "'t list"

definition group_start :: "'t group_threads \<Rightarrow> bool" where
  "group_start s \<longleftrightarrow> s = \<lparr>gs_group = wait_group_new, gs_checking = 0, gs_popping = 0, gs_waking = 0,
     gs_waits = [], gs_resumed = []\<rparr>"

inductive group_step :: "'t group_threads \<Rightarrow> 't group_threads \<Rightarrow> bool" where
  gr_add: "wg_counter (gs_group s) + n \<le> usize_max \<Longrightarrow>
    group_step s (s\<lparr>gs_group := wait_group_add n (gs_group s)\<rparr>)"
| gr_push: "sync_task_list_push False (\<lambda>_. False) t (wg_waited_tasks (gs_group s)) = Inr q \<Longrightarrow>
    group_step s (s\<lparr>gs_group := (gs_group s)\<lparr>wg_waited_tasks := q\<rparr>, gs_checking := Suc (gs_checking s),
      gs_waits := t # gs_waits s\<rparr>)"
| gr_zero: "gs_checking s = Suc k \<Longrightarrow> wg_counter (gs_group s) = 0 \<Longrightarrow>
    group_step s (s\<lparr>gs_checking := k, gs_popping := Suc (gs_popping s)\<rparr>)"
| gr_nonzero: "gs_checking s = Suc k \<Longrightarrow> wg_counter (gs_group s) \<noteq> 0 \<Longrightarrow>
    group_step s (s\<lparr>gs_checking := k\<rparr>)"
| gr_pop: "gs_popping s = Suc k \<Longrightarrow> sync_task_list_pop (wg_waited_tasks (gs_group s)) = (r, q) \<Longrightarrow>
    group_step s (s\<lparr>gs_popping := k, gs_group := (gs_group s)\<lparr>wg_waited_tasks := q\<rparr>,
      gs_resumed := opt_list r @ gs_resumed s\<rparr>)"
| gr_done: "wg_counter (gs_group s) \<noteq> 0 \<Longrightarrow> wait_group_done_dec dbg (gs_group s) = Inr (prev_count, g) \<Longrightarrow>
    group_step s (s\<lparr>gs_group := g, gs_waking := (if prev_count = 1 then Suc (gs_waking s) else gs_waking s)\<rparr>)"
| gr_wake: "gs_waking s = Suc k \<Longrightarrow> wait_group_done_wake (gs_group s) = (ws, g) \<Longrightarrow>
    group_step s (s\<lparr>gs_group := g, gs_waking := k, gs_resumed := map woken ws @ gs_resumed s\<rparr>)"

definition group_inv :: "'t group_threads \<Rightarrow> bool" where
  "group_inv s \<longleftrightarrow> wg_counter (gs_group s) \<le> usize_max \<and>
     (wg_counter (gs_group s) = 0 \<and> gs_waking s = 0 \<longrightarrow>
        length (sync_tasks (wg_waited_tasks (gs_group s))) \<le> gs_checking s + gs_popping s) \<and>
     mset (gs_waits s) = mset (gs_resumed s) + mset (sync_tasks (wg_waited_tasks (gs_group s)))"

lemma wait_group_dec_eq:
  "wg_counter g \<noteq> 0 \<Longrightarrow> wg_counter g \<le> usize_max \<Longrightarrow>
   wait_group_done_dec dbg g = Inr (wg_counter g, g\<lparr>wg_counter := wg_counter g - 1\<rparr>)"
proof -
  assume a: "wg_counter g \<noteq> 0" "wg_counter g \<le> usize_max"
  then have "wg_counter g + usize_max = (wg_counter g - 1) + (usize_max + 1)" by simp
  then have "(wg_counter g + usize_max) mod (usize_max + 1) = wg_counter g - 1"
    using a by (simp only: mod_add_self2) simp
  with a show ?thesis by (simp add: wait_group_done_dec_def)
qed

lemma wait_group_done_wake_eq:
  "wait_group_done_wake g = (map SpawnSharedTask (sync_tasks (wg_waited_tasks g)),
     g\<lparr>wg_waited_tasks := set_sync_tasks [] (wg_waited_tasks g)\<rparr>)"
  by (simp add: wait_group_done_wake_def sync_task_list_pop_all_in_def)

lemma group_inv_step:
  assumes "group_inv s" and "group_step s s'"
  shows "group_inv s'"
  using assms(2)
proof (cases rule: group_step.cases)
  case (gr_add n)
  with assms(1) show ?thesis by (auto simp: group_inv_def wait_group_add_def)
next
  case (gr_push t q)
  with assms(1) show ?thesis by (auto simp: group_inv_def sync_task_list_push_def)
next
  case (gr_pop k r q)
  note m = sync_task_list_pop_mset[OF gr_pop(3)]
  have "length (sync_tasks (wg_waited_tasks (gs_group s))) = length (opt_list r) + length (sync_tasks q)"
    using arg_cong[OF m, of size] by simp
  moreover have "r = None \<Longrightarrow> sync_tasks (wg_waited_tasks (gs_group s)) = []"
    using stl.get_none_iff[of "wg_waited_tasks (gs_group s)"] gr_pop(3) by simp
  ultimately show ?thesis
    using assms(1) gr_pop(1,2) m by (cases r) (auto simp: group_inv_def)
next
  case (gr_done dbg prev_count g)
  with assms(1) wait_group_dec_eq[OF gr_done(2), of dbg] show ?thesis
    by (auto simp: group_inv_def)
next
  case (gr_wake k ws g)
  with assms(1) show ?thesis
    by (auto simp: group_inv_def wait_group_done_wake_eq multiset.map_comp comp_def)
qed (use assms(1) in \<open>auto simp: group_inv_def\<close>)

interpretation wgth: invariant_system group_start group_step group_inv
proof unfold_locales
  show "group_inv s" if "group_start s" for s :: "'t group_threads"
    using that by (simp add: group_start_def group_inv_def wait_group_new_def)
qed (rule group_inv_step)

section \<open>Properties\<close>

text \<open>
  C25. In every history of a \<open>local_scope\<close> (spawns by the body and by handles, polls of handles and
  of the scope, in a debug or a release build) nothing panics and the counter of its wait group is the number of
  handles that are not finished; once the future has passed its wait, and when it has returned,
  every handle spawned on it is finished; and a task that waits is resumed once: only by the operation in which the
  last handle finishes, and by that operation. A handle is spawned only while the body runs or another handle is
  unfinished, and there are fewer than \<open>2 ^ 64\<close> handles.
\<close>

theorem local_scope_waits_for_all:
  assumes "oks local_scope_ok (local_scope_step dbg) ps (local_wait_group_new, [], ScopeBody)"
    and "run_ops (local_scope_step dbg) ps (local_wait_group_new, [], ScopeBody) = (os, g, H, st)"
  shows "list_all (\<lambda>r. sr_no_panic r \<and> (sr_resumed r \<noteq> [] \<longrightarrow> sr_left r = 0 \<and> sr_finished r \<noteq> [])) os \<and>
    local_wait_group_count g = length H \<and>
    mset (concat (map sr_spawned os)) = mset H + mset (concat (map sr_finished os)) \<and>
    (st = ScopeYield \<or> st = ScopeReturned \<longrightarrow>
       mset (concat (map sr_spawned os)) = mset (concat (map sr_finished os))) \<and>
    mset (concat (map sr_suspended os)) = mset (lwg_waited_tasks g) + mset (concat (map sr_resumed os)) \<and>
    (H = [] \<longrightarrow> mset (concat (map sr_suspended os)) = mset (concat (map sr_resumed os)))"
proof -
  have start: "local_scope_inv (local_wait_group_new, [] :: 'a list, ScopeBody)"
    by (simp add: local_scope_inv_def local_wait_group_new_def)
  have "list_all (\<lambda>r. sr_no_panic r \<and> (sr_resumed r \<noteq> [] \<longrightarrow> sr_left r = 0 \<and> sr_finished r \<noteq> [])) os"
    by (rule scwait.run_reports[OF _ start assms]) (use local_scope_step_ok in blast)
  moreover have "local_scope_inv (g, H, st)" by (rule scwait.run_inv[OF start assms])
  moreover note scwait.run_balance[OF start assms] schand.run_balance[OF start assms]
  ultimately show ?thesis
    by (auto simp: local_scope_inv_def local_wait_group_new_def local_wait_group_count_def)
qed

definition scope_demo :: "nat scope_op list" where
  "scope_demo = [ScopeSpawn 1, ScopeExec 2, HandlePoll 2 Pending, ScopePoll (Ready ()) 9,
     HandlePoll 2 (Ready ()), HandlePoll 1 (Ready ()), ScopePoll (Ready ()) 9, ScopePoll (Ready ()) 9]"

theorem local_scope_waits_for_all_witness:
  "\<exists>os g. run_ops (local_scope_step True) scope_demo (local_wait_group_new, [], ScopeBody) =
     (os, g, [], ScopeReturned) \<and> mset (concat (map sr_finished os)) = {#1, 2#} \<and>
     mset (concat (map sr_resumed os)) = {#9#}"
proof -
  let ?run = "run_ops (local_scope_step True) scope_demo (local_wait_group_new, [], ScopeBody)"
  obtain os g H st where r: "?run = (os, g, H, st)" using prod_cases4 by blast
  have ok: "oks local_scope_ok (local_scope_step True) scope_demo (local_wait_group_new, [], ScopeBody)"
    and "snd (snd ?run) = ([], ScopeReturned)" "concat (map sr_spawned (fst ?run)) = [1, 2]"
    "concat (map sr_suspended (fst ?run)) = [9]"
    by (simp_all add: scope_demo_def local_wait_group_new_def local_scope_defs log_exec_def usize_max_def)
  with r have e: "H = []" "st = ScopeReturned" "concat (map sr_spawned os) = [1, 2]"
    "concat (map sr_suspended os) = [9]" by simp_all
  note all = local_scope_waits_for_all[OF ok r]
  from all e(2) have "mset (concat (map sr_spawned os)) = mset (concat (map sr_finished os))" by blast
  moreover from all e(1) have "mset (concat (map sr_suspended os)) = mset (concat (map sr_resumed os))" by blast
  ultimately have "mset (concat (map sr_finished os)) = {#1, 2#}" "mset (concat (map sr_resumed os)) = {#9#}"
    unfolding e(3,4) by simp_all
  with r e show ?thesis by blast
qed

text \<open>
  C26. In every interleaving of \<open>add\<close>, \<open>done\<close> and \<open>wait\<close> on a shared \<open>WaitGroup\<close> every task that
  parked is in the queue or was resumed once; and when the counter is zero, no \<open>done\<close> is still
  emptying the queue and no executor is inside the call that parks a task, nobody is left in the
  queue.
\<close>

theorem wait_group_no_waiter_left:
  assumes "reach group_start group_step s"
  shows "mset (gs_waits s) = mset (gs_resumed s) + mset (sync_tasks (wg_waited_tasks (gs_group s))) \<and>
    (wait_group_count (gs_group s) = 0 \<and> gs_waking s = 0 \<and> gs_checking s = 0 \<and> gs_popping s = 0 \<longrightarrow>
      mset (gs_waits s) = mset (gs_resumed s))"
  using wgth.reach_inv[OF assms] by (auto simp: group_inv_def wait_group_count_def)

definition group_at :: "nat \<Rightarrow> nat list \<Rightarrow> nat \<Rightarrow> nat \<Rightarrow> nat \<Rightarrow> nat list \<Rightarrow> nat list \<Rightarrow> nat group_threads" where
  "group_at c q checking popping waking waits resumed =
     \<lparr>gs_group = \<lparr>wg_counter = c, wg_waited_tasks = set_sync_tasks q sync_task_list_new\<rparr>,
      gs_checking = checking, gs_popping = popping, gs_waking = waking, gs_waits = waits, gs_resumed = resumed\<rparr>"

lemma set_sync_tasks_twice [simp]: "set_sync_tasks xs (set_sync_tasks ys l) = set_sync_tasks xs l"
  by (simp add: set_sync_tasks_def)

lemma group_at_start: "reach group_start group_step (group_at 0 [] 0 0 0 [] [])"
proof -
  have "set_sync_tasks [] sync_task_list_new = (sync_task_list_new :: nat sync_task_list)"
    using set_sync_tasks_same[of "sync_task_list_new :: nat sync_task_list"] by simp
  then show ?thesis
    by (intro reach_start) (simp add: group_start_def group_at_def wait_group_new_def)
qed

lemma group_at_steps:
  "c + n \<le> usize_max \<Longrightarrow> group_step (group_at c q k p w a b) (group_at (c + n) q k p w a b)"
  "group_step (group_at c q k p w a b) (group_at c (q @ [t]) (Suc k) p w (t # a) b)"
  "group_step (group_at 0 q (Suc k) p w a b) (group_at 0 q k (Suc p) w a b)"
  "c \<noteq> 0 \<Longrightarrow> group_step (group_at c q (Suc k) p w a b) (group_at c q k p w a b)"
  "group_step (group_at c (q @ [t]) k (Suc p) w a b) (group_at c q k p w a (t # b))"
  "group_step (group_at 1 q k p w a b) (group_at 0 q k p (Suc w) a b)"
  "group_step (group_at c q k p (Suc w) a b) (group_at c [] k p w a (q @ b))"
proof -
  show "c + n \<le> usize_max \<Longrightarrow> group_step (group_at c q k p w a b) (group_at (c + n) q k p w a b)"
    using gr_add[of "group_at c q k p w a b" n] by (simp add: group_at_def wait_group_add_def)
  show "group_step (group_at c q k p w a b) (group_at c (q @ [t]) (Suc k) p w (t # a) b)"
    using gr_push[of t "group_at c q k p w a b"] by (simp add: group_at_def sync_task_list_push_def)
  show "group_step (group_at 0 q (Suc k) p w a b) (group_at 0 q k (Suc p) w a b)"
    using gr_zero[of "group_at 0 q (Suc k) p w a b" k] by (simp add: group_at_def)
  show "c \<noteq> 0 \<Longrightarrow> group_step (group_at c q (Suc k) p w a b) (group_at c q k p w a b)"
    using gr_nonzero[of "group_at c q (Suc k) p w a b" k] by (simp add: group_at_def)
  show "group_step (group_at c (q @ [t]) k (Suc p) w a b) (group_at c q k p w a (t # b))"
    using gr_pop[of "group_at c (q @ [t]) k (Suc p) w a b" p]
    by (simp add: group_at_def sync_task_list_pop_def)
  show "group_step (group_at 1 q k p w a b) (group_at 0 q k p (Suc w) a b)"
    using gr_done[of "group_at 1 q k p w a b"] wait_group_dec_eq[of "gs_group (group_at 1 q k p w a b)"]
    by (simp add: group_at_def usize_max_def)
  show "group_step (group_at c q k p (Suc w) a b) (group_at c [] k p w a (q @ b))"
    using gr_wake[of "group_at c q k p (Suc w) a b" w]
    by (simp add: group_at_def wait_group_done_wake_eq comp_def)
qed

lemma group_at_late_done: "reach group_start group_step (group_at 0 [] 0 0 1 [t] [t])"
proof -
  have "reach group_start group_step (group_at 1 [] 0 0 0 [] [])"
    using reach_step[OF group_at_start group_at_steps(1)[of 0 1]] by (simp add: usize_max_def)
  from reach_step[OF this group_at_steps(6)]
  have "reach group_start group_step (group_at 0 [] 0 0 1 [] [])" by simp
  from reach_step[OF this group_at_steps(2)[of 0 "[]" _ _ _ _ _ t]]
  have "reach group_start group_step (group_at 0 [t] 1 0 1 [t] [])" by simp
  from this[unfolded One_nat_def, THEN reach_step, OF group_at_steps(3)]
  have "reach group_start group_step (group_at 0 [t] 0 1 1 [t] [])" by simp
  with reach_step[of group_start group_step "group_at 0 [t] 0 1 1 [t] []"] group_at_steps(5)[of 0 "[]" t 0 0 1 "[t]" "[]"]
  show ?thesis by simp
qed

theorem wait_group_no_waiter_left_witness:
  "\<exists>s :: nat group_threads. reach group_start group_step s \<and> gs_waits s = [7] \<and>
     mset (gs_waits s) = mset (gs_resumed s)"
proof -
  have "reach group_start group_step (group_at 0 [] 0 0 0 [7] [7])"
    using reach_step[OF group_at_late_done[of 7], of "group_at 0 [] 0 0 0 [7] [7]"]
      group_at_steps(7)[of 0 "[]" 0 0 0 "[7]" "[7]"] by simp
  with wait_group_no_waiter_left[OF this] show ?thesis
    by (intro exI[of _ "group_at 0 [] 0 0 0 [7] [7]"]) (simp add: group_at_def wait_group_count_def)
qed

text \<open>
  \<open>WaitGroup::done\<close> decrements the counter before it empties the queue. There is an
  interleaving after which the task that waited has returned from \<open>wait\<close>, the counter is zero,
  and the last \<open>done\<close> has still to use the queue: the task may drop the group, as \<open>shared_scope\<close>
  does. If it instead adds one and waits again, that \<open>done\<close> resumes it although the counter is
  one all the time.
\<close>

theorem wait_group_late_done:
  "\<exists>s a b c d. reach group_start group_step s \<and>
     wait_group_count (gs_group s) = 0 \<and> gs_waits s = [t :: nat] \<and> gs_resumed s = [t] \<and> gs_waking s = 1 \<and>
     group_step s a \<and> group_step a b \<and> group_step b c \<and> group_step c d \<and>
     map (\<lambda>x. wait_group_count (gs_group x)) [a, b, c, d] = [1, 1, 1, 1] \<and>
     gs_waits a = [t] \<and> gs_waits b = [t, t] \<and> gs_resumed c = [t] \<and> gs_resumed d = [t, t]"
proof -
  have "group_step (group_at 0 [] 0 0 1 [t] [t]) (group_at 1 [] 0 0 1 [t] [t])"
    using group_at_steps(1)[of 0 1] by (simp add: usize_max_def)
  moreover have "group_step (group_at 1 [] 0 0 1 [t] [t]) (group_at 1 [t] 1 0 1 [t, t] [t])"
    using group_at_steps(2)[of 1 "[]" 0 0 1 "[t]" "[t]" t] by simp
  moreover have "group_step (group_at 1 [t] 1 0 1 [t, t] [t]) (group_at 1 [t] 0 0 1 [t, t] [t])"
    using group_at_steps(4)[of 1 "[t]" 0] by simp
  moreover have "group_step (group_at 1 [t] 0 0 1 [t, t] [t]) (group_at 1 [] 0 0 0 [t, t] [t, t])"
    using group_at_steps(7)[of 1 "[t]" 0 0 0] by simp
  ultimately show ?thesis
    using group_at_late_done[of t]
    by (intro exI[of _ "group_at 0 [] 0 0 1 [t] [t]"] exI conjI) (assumption | simp add: group_at_def wait_group_count_def)+
qed

end
