(* ===== verification/Onces.thy ===== *)
theory Onces
  imports Transition_Systems
begin

text \<open>
  \<open>LocalOnce\<close> and \<open>Once\<close> (\<open>src/src/sync/onces\<close>): the state on an \<open>isize\<close>, the calls that run the
  function or the future, and that one call at most gets to run it, on one executor and across
  threads.
\<close>

section \<open>The state\<close>

datatype once_state = NotCalled | OnceCalled

datatype call_once_result = Called | WasAlreadyCompleted

definition once_state_into_isize :: "once_state \<Rightarrow> int" where
  "once_state_into_isize st = (case st of NotCalled \<Rightarrow> 0 | OnceCalled \<Rightarrow> 1)"

definition once_state_try_from :: "int \<Rightarrow> once_state option" where
  "once_state_try_from value = (if value = 0 then Some NotCalled else if value = 1 then Some OnceCalled else None)"

section \<open>The local once\<close>

text \<open>
  A call that runs changes the state first and then runs \<open>f\<close>, here what \<open>f\<close> does to the once and
  to the rest of the program; for the future \<open>f\<close> is the whole of its execution.
\<close>

definition local_once_new :: once_state where
  "local_once_new = NotCalled"

definition is_completed :: "once_state \<Rightarrow> bool" where
  "is_completed st \<longleftrightarrow> st = OnceCalled"

definition local_once_call ::
  "(once_state \<times> 'w \<Rightarrow> once_state \<times> 'w) \<Rightarrow> once_state \<times> 'w \<Rightarrow> call_once_result \<times> once_state \<times> 'w" where
  "local_once_call f s =
     (if is_completed (fst s) then (WasAlreadyCompleted, s) else (Called, f (OnceCalled, snd s)))"

definition local_once_call_sync ::
  "(once_state \<times> 'w \<Rightarrow> once_state \<times> 'w) \<Rightarrow> once_state \<times> 'w \<Rightarrow> call_once_result \<times> once_state \<times> 'w" where
  "local_once_call_sync f s =
     (if is_completed (fst s) then (WasAlreadyCompleted, s) else (Called, f (OnceCalled, snd s)))"

section \<open>The shared once\<close>

definition once_new :: int where
  "once_new = once_state_into_isize NotCalled"

definition once_call_once_cas :: "int \<Rightarrow> call_once_result \<times> int" where
  "once_call_once_cas v =
     (if v = once_state_into_isize NotCalled then (Called, once_state_into_isize OnceCalled)
      else (WasAlreadyCompleted, v))"

definition once_call_once_sync_cas :: "int \<Rightarrow> call_once_result \<times> int" where
  "once_call_once_sync_cas v =
     (if v = once_state_into_isize NotCalled then (Called, once_state_into_isize OnceCalled)
      else (WasAlreadyCompleted, v))"

definition once_get_state :: "bool \<Rightarrow> int \<Rightarrow> once_state res" where
  "once_get_state dbg v =
     (case once_state_try_from v of Some st \<Rightarrow> Inr st | None \<Rightarrow> Inl (if dbg then Asserted else Undefined))"

section \<open>Nested and concurrent calls\<close>

text \<open>A program of calls; the function of a call may call the same once again.\<close>

datatype 'f once_prog = OnceCall 'f bool "'f once_prog list"

fun run_once :: "'f once_prog \<Rightarrow> once_state \<times> 'f list \<Rightarrow> once_state \<times> 'f list"
and run_onces :: "'f once_prog list \<Rightarrow> once_state \<times> 'f list \<Rightarrow> once_state \<times> 'f list" where
  "run_once (OnceCall f sync inner) s =
     snd ((if sync then local_once_call_sync else local_once_call)
       (\<lambda>s. run_onces inner (fst s, snd s @ [f])) s)"
| "run_onces [] s = s"
| "run_onces (p # ps) s = run_onces ps (run_once p s)"

fun once_prog_fun :: "'f once_prog \<Rightarrow> 'f" where
  "once_prog_fun (OnceCall f sync inner) = f"

lemma run_onces_completed:
  "run_once p (OnceCalled, fs) = (OnceCalled, fs)"
  "run_onces ps (OnceCalled, fs) = (OnceCalled, fs)"
  by (induction p "(OnceCalled, fs)" and ps "(OnceCalled, fs)" rule: run_once_run_onces.induct)
     (auto simp: local_once_call_def local_once_call_sync_def is_completed_def)

lemma run_once_first: "run_once p (NotCalled, fs) = (OnceCalled, fs @ [once_prog_fun p])"
  by (cases p)
     (simp add: local_once_call_def local_once_call_sync_def is_completed_def run_onces_completed)

text \<open>Threads: the calls in the order of their compare-exchanges, \<open>True\<close> for the synchronous ones.\<close>

fun once_calls :: "bool list \<Rightarrow> int \<Rightarrow> call_once_result list \<times> int" where
  "once_calls [] v = ([], v)"
| "once_calls (sync # cs) v =
     (case (if sync then once_call_once_sync_cas v else once_call_once_cas v) of
        (r, v') \<Rightarrow> case once_calls cs v' of (rs, v'') \<Rightarrow> (r # rs, v''))"

lemmas once_defs = once_call_once_cas_def once_call_once_sync_cas_def once_state_into_isize_def
  once_get_state_def once_state_try_from_def once_new_def

lemma once_calls_called: "once_calls cs 1 = (replicate (length cs) WasAlreadyCompleted, 1)"
  by (induction cs) (auto simp: once_defs)

section \<open>Properties\<close>

text \<open>
  C40. Of the calls on a once, in the order of their compare-exchanges on any threads, the first
  runs its function and no other does, and the state read afterwards is \<open>Called\<close>, without a panic;
  on a local once the same holds for calls that call the once again from inside the function.
\<close>

theorem once_runs_first_call_only:
  "once_calls (c # cs) once_new = (Called # replicate (length cs) WasAlreadyCompleted, 1) \<and>
   once_get_state dbg (snd (once_calls (c # cs) once_new)) = Inr OnceCalled \<and>
   run_onces (p # ps) (local_once_new, []) = (OnceCalled, [once_prog_fun p])"
proof (intro conjI)
  show calls: "once_calls (c # cs) once_new = (Called # replicate (length cs) WasAlreadyCompleted, 1)"
    by (simp add: once_defs once_calls_called)
  show "once_get_state dbg (snd (once_calls (c # cs) once_new)) = Inr OnceCalled"
    unfolding calls by (simp add: once_defs)
  show "run_onces (p # ps) (local_once_new, []) = (OnceCalled, [once_prog_fun p])"
    by (simp add: local_once_new_def run_once_first run_onces_completed)
qed

text \<open>
  The conversion of a once state to \<open>isize\<close> and back is the identity, and a value converts to
  a state exactly when it comes from one.
\<close>

theorem once_state_isize_round_trip:
  "once_state_try_from (once_state_into_isize st) = Some st \<and>
   (once_state_try_from v = Some st \<longleftrightarrow> once_state_into_isize st = v)"
  by (cases st) (auto simp: once_state_try_from_def once_state_into_isize_def)

end
