(* ===== verification/Executor_Config.thy ===== *)
theory Executor_Config
  imports Transition_Systems
begin

text \<open>
  The configuration of an executor (\<open>src/src/runtime/executor/config.rs\<close>, \<open>src/src/io/config.rs\<close>):
  its setters, and the global statistics that \<open>validate\<close> and the drop of a validated
  configuration keep, so that executors that share work agree on having an I/O worker and a
  thread pool.
\<close>

section \<open>Configuration of the I/O workers\<close>

record fallback_config =
  fc_number_of_threads_per_executor :: "16 word"

definition fallback_config_default :: fallback_config where
  "fallback_config_default = \<lparr>fc_number_of_threads_per_executor = 4\<rparr>"

definition fallback_config_validate :: "fallback_config \<Rightarrow> string + unit" where
  "fallback_config_validate c =
     (if fc_number_of_threads_per_executor c > 0 then Inr ()
      else Inl ''fallback: number_of_threads_per_executor must be greater than 0'')"

record io_uring_config =
  iu_number_of_entries :: "32 word"

definition io_uring_config_default :: io_uring_config where
  "io_uring_config_default = \<lparr>iu_number_of_entries = 256\<rparr>"

definition io_uring_config_validate :: "io_uring_config \<Rightarrow> string + unit" where
  "io_uring_config_validate c =
     (if iu_number_of_entries c > 0 then Inr ()
      else Inl ''io_uring: number_of_entries must be greater than 0'')"

record io_worker_config =
  iw_io_uring :: io_uring_config
  iw_fallback :: fallback_config
  iw_number_of_fixed_buffers :: "16 word"

definition io_worker_config_default :: io_worker_config where
  "io_worker_config_default =
     \<lparr>iw_io_uring = io_uring_config_default, iw_fallback = fallback_config_default, iw_number_of_fixed_buffers = 16\<rparr>"

definition io_worker_config_validate :: "io_worker_config \<Rightarrow> string + unit" where
  "io_worker_config_validate c =
     (case io_uring_config_validate (iw_io_uring c) of
        Inl err \<Rightarrow> Inl err
      | Inr _ \<Rightarrow> (case fallback_config_validate (iw_fallback c) of Inl err \<Rightarrow> Inl err | Inr _ \<Rightarrow> Inr ()))"

section \<open>Configuration of an executor\<close>

record config =
  cf_buffer_cap :: "32 word"
  cf_io_worker_config :: "io_worker_config option"
  cf_number_of_thread_workers :: "64 word"
  cf_work_sharing_level :: "64 word"

definition config_default :: config where
  "config_default = \<lparr>cf_buffer_cap = 4096, cf_io_worker_config = Some io_worker_config_default,
     cf_number_of_thread_workers = 1, cf_work_sharing_level = 7\<rparr>"

definition config_set_buffer_cap :: "32 word \<Rightarrow> config \<Rightarrow> config" where
  "config_set_buffer_cap cap c = c\<lparr>cf_buffer_cap := cap\<rparr>"

definition config_set_io_worker_config :: "io_worker_config option \<Rightarrow> config \<Rightarrow> string + config" where
  "config_set_io_worker_config io c =
     (case io of
        Some w \<Rightarrow> (case io_worker_config_validate w of
                    Inl err \<Rightarrow> Inl err
                  | Inr _ \<Rightarrow> Inr (c\<lparr>cf_io_worker_config := Some w\<rparr>))
      | None \<Rightarrow> Inr (c\<lparr>cf_io_worker_config := None\<rparr>))"

definition config_disable_io_worker :: "config \<Rightarrow> config" where
  "config_disable_io_worker c = c\<lparr>cf_io_worker_config := None\<rparr>"

definition config_is_thread_pool_enabled :: "config \<Rightarrow> bool" where
  "config_is_thread_pool_enabled c \<longleftrightarrow> cf_number_of_thread_workers c \<noteq> 0"

definition config_set_numbers_of_blocking_workers :: "64 word \<Rightarrow> config \<Rightarrow> config" where
  "config_set_numbers_of_blocking_workers n c = c\<lparr>cf_number_of_thread_workers := n\<rparr>"

definition config_is_work_sharing_enabled :: "config \<Rightarrow> bool" where
  "config_is_work_sharing_enabled c \<longleftrightarrow> cf_work_sharing_level c \<noteq> - 1"

definition config_enable_work_sharing :: "config \<Rightarrow> config" where
  "config_enable_work_sharing c =
     (if cf_work_sharing_level c = - 1 then c\<lparr>cf_work_sharing_level := 7\<rparr> else c)"

definition config_disable_work_sharing :: "config \<Rightarrow> config" where
  "config_disable_work_sharing c = c\<lparr>cf_work_sharing_level := - 1\<rparr>"

definition config_set_work_sharing_level :: "64 word \<Rightarrow> config \<Rightarrow> config" where
  "config_set_work_sharing_level n c =
     (if n = 0 then c\<lparr>cf_work_sharing_level := 1\<rparr> else c\<lparr>cf_work_sharing_level := n\<rparr>)"

text \<open>\<open>PartialEq\<close> compares the worker configurations by their discriminant only.\<close>

definition config_eq :: "config \<Rightarrow> config \<Rightarrow> bool" where
  "config_eq a b \<longleftrightarrow> cf_buffer_cap a = cf_buffer_cap b \<and>
     (cf_io_worker_config a = None \<longleftrightarrow> cf_io_worker_config b = None) \<and>
     cf_number_of_thread_workers a = cf_number_of_thread_workers b \<and>
     cf_work_sharing_level a = cf_work_sharing_level b"

section \<open>Validated configurations\<close>

record valid_config =
  vc_buffer_cap :: "32 word"
  vc_io_worker_config :: "io_worker_config option"
  vc_number_of_thread_workers :: "64 word"
  vc_work_sharing_level :: "64 word"

definition valid_config_is_work_sharing_enabled :: "valid_config \<Rightarrow> bool" where
  "valid_config_is_work_sharing_enabled c \<longleftrightarrow> vc_work_sharing_level c \<noteq> - 1"

definition valid_config_is_thread_pool_enabled :: "valid_config \<Rightarrow> bool" where
  "valid_config_is_thread_pool_enabled c \<longleftrightarrow> vc_number_of_thread_workers c \<noteq> 0"

definition config_from_valid :: "valid_config \<Rightarrow> config" where
  "config_from_valid c = \<lparr>cf_buffer_cap = vc_buffer_cap c, cf_io_worker_config = vc_io_worker_config c,
     cf_number_of_thread_workers = vc_number_of_thread_workers c, cf_work_sharing_level = vc_work_sharing_level c\<rparr>"

record config_stats =
  cs_io_and_sharing :: nat
  cs_thread_pool_and_sharing :: nat
  cs_sharing_without_io :: nat
  cs_sharing_without_thread_pool :: nat

definition config_stats_new :: config_stats where
  "config_stats_new = \<lparr>cs_io_and_sharing = 0, cs_thread_pool_and_sharing = 0,
     cs_sharing_without_io = 0, cs_sharing_without_thread_pool = 0\<rparr>"

text \<open>
  A panic leaves the statistics as they are at that point: the second check comes after the
  counter of the first one was incremented.
\<close>

definition validate_io :: "bool \<Rightarrow> config_stats \<Rightarrow> bool \<times> config_stats" where
  "validate_io io s =
     (if io then
        (if cs_sharing_without_io s \<noteq> 0 then (False, s)
         else (True, s\<lparr>cs_io_and_sharing := cs_io_and_sharing s + 1\<rparr>))
      else
        (if cs_io_and_sharing s \<noteq> 0 then (False, s)
         else (True, s\<lparr>cs_sharing_without_io := cs_sharing_without_io s + 1\<rparr>)))"

definition validate_thread_pool :: "bool \<Rightarrow> config_stats \<Rightarrow> bool \<times> config_stats" where
  "validate_thread_pool pool s =
     (if pool then
        (if cs_sharing_without_thread_pool s \<noteq> 0 then (False, s)
         else (True, s\<lparr>cs_thread_pool_and_sharing := cs_thread_pool_and_sharing s + 1\<rparr>))
      else
        (if cs_thread_pool_and_sharing s \<noteq> 0 then (False, s)
         else (True, s\<lparr>cs_sharing_without_thread_pool := cs_sharing_without_thread_pool s + 1\<rparr>)))"

definition config_validate :: "config \<Rightarrow> config_stats \<Rightarrow> valid_config res \<times> config_stats" where
  "config_validate c s =
     (let valid = \<lparr>vc_buffer_cap = cf_buffer_cap c, vc_io_worker_config = cf_io_worker_config c,
            vc_number_of_thread_workers = cf_number_of_thread_workers c,
            vc_work_sharing_level = cf_work_sharing_level c\<rparr> in
      if cf_work_sharing_level c \<noteq> - 1 then
        (case validate_io (cf_io_worker_config c \<noteq> None) s of
           (False, s1) \<Rightarrow> (Inl Asserted, s1)
         | (True, s1) \<Rightarrow>
             (case validate_thread_pool (config_is_thread_pool_enabled c) s1 of
                (False, s2) \<Rightarrow> (Inl Asserted, s2)
              | (True, s2) \<Rightarrow> (Inr valid, s2)))
      else (Inr valid, s))"

text \<open>The drop of a validated configuration takes its counts back; a subtraction below zero panics in a debug build.\<close>

definition valid_config_drop :: "bool \<Rightarrow> valid_config \<Rightarrow> config_stats \<Rightarrow> config_stats res" where
  "valid_config_drop dbg c s =
     (if vc_work_sharing_level c \<noteq> - 1 then
        bindR (if vc_io_worker_config c \<noteq> None
               then bindR (usize_sub dbg (cs_io_and_sharing s) 1) (\<lambda>n. Inr (s\<lparr>cs_io_and_sharing := n\<rparr>))
               else bindR (usize_sub dbg (cs_sharing_without_io s) 1) (\<lambda>n. Inr (s\<lparr>cs_sharing_without_io := n\<rparr>)))
          (\<lambda>s1. if valid_config_is_thread_pool_enabled c
                then bindR (usize_sub dbg (cs_thread_pool_and_sharing s1) 1)
                       (\<lambda>n. Inr (s1\<lparr>cs_thread_pool_and_sharing := n\<rparr>))
                else bindR (usize_sub dbg (cs_sharing_without_thread_pool s1) 1)
                       (\<lambda>n. Inr (s1\<lparr>cs_sharing_without_thread_pool := n\<rparr>)))
      else Inr s)"

section \<open>Histories\<close>

text \<open>The world is the statistics and the validated configurations that are alive.\<close>

datatype config_op = Validate config | DropValid valid_config

type_synonym config_world = "config_stats \<times> valid_config list"

fun config_step :: "bool \<Rightarrow> config_op \<Rightarrow> config_world \<Rightarrow> bool \<times> config_world" where
  "config_step dbg (Validate c) (s, L) =
     (case config_validate c s of (Inr v, s') \<Rightarrow> (True, s', v # L) | (Inl _, s') \<Rightarrow> (False, s', L))"
| "config_step dbg (DropValid v) (s, L) =
     (case valid_config_drop dbg v s of Inr s' \<Rightarrow> (True, s', remove1 v L) | Inl _ \<Rightarrow> (False, s, L))"

fun config_ok :: "config_op \<Rightarrow> config_world \<Rightarrow> bool" where
  "config_ok (Validate c) (s, L) \<longleftrightarrow> True"
| "config_ok (DropValid v) (s, L) \<longleftrightarrow> v \<in> set L"

definition shares :: "(valid_config \<Rightarrow> bool) \<Rightarrow> valid_config list \<Rightarrow> nat" where
  "shares P L = length (filter (\<lambda>v. valid_config_is_work_sharing_enabled v \<and> P v) L)"

abbreviation has_io :: "valid_config \<Rightarrow> bool" where
  "has_io v \<equiv> vc_io_worker_config v \<noteq> None"

definition config_inv :: "config_world \<Rightarrow> bool" where
  "config_inv w \<longleftrightarrow> (case w of (s, L) \<Rightarrow>
     shares has_io L \<le> cs_io_and_sharing s \<and> shares (\<lambda>v. \<not> has_io v) L \<le> cs_sharing_without_io s \<and>
     shares valid_config_is_thread_pool_enabled L \<le> cs_thread_pool_and_sharing s \<and>
     shares (\<lambda>v. \<not> valid_config_is_thread_pool_enabled v) L \<le> cs_sharing_without_thread_pool s \<and>
     (cs_io_and_sharing s = 0 \<or> cs_sharing_without_io s = 0) \<and>
     (cs_thread_pool_and_sharing s = 0 \<or> cs_sharing_without_thread_pool s = 0))"

lemma shares_Cons:
  "shares P (v # L) = (if valid_config_is_work_sharing_enabled v \<and> P v then Suc (shares P L) else shares P L)"
  by (simp add: shares_def)

lemma shares_remove1:
  "v \<in> set L \<Longrightarrow> shares P L =
     (if valid_config_is_work_sharing_enabled v \<and> P v then Suc (shares P (remove1 v L)) else shares P (remove1 v L))"
  by (induction L) (auto simp: shares_def)

lemma shares_pos: "v \<in> set L \<Longrightarrow> valid_config_is_work_sharing_enabled v \<Longrightarrow> P v \<Longrightarrow> 0 < shares P L"
  by (auto simp: shares_def filter_empty_conv)

lemma config_validate_inv:
  assumes "config_inv (s, L)" and "config_step dbg (Validate c) (s, L) = (r, w)"
  shows "config_inv w"
  using assms
  by (auto simp: config_inv_def config_validate_def validate_io_def validate_thread_pool_def Let_def shares_Cons
      valid_config_is_work_sharing_enabled_def valid_config_is_thread_pool_enabled_def
      config_is_thread_pool_enabled_def split: if_splits)

lemma config_drop_inv:
  assumes "config_inv (s, L)" and "v \<in> set L" and "config_step dbg (DropValid v) (s, L) = (r, w)"
  shows "config_inv w \<and> r"
proof (cases "valid_config_is_work_sharing_enabled v")
  case True
  note rm = shares_remove1[OF assms(2)]
  from True show ?thesis
    using assms(1,3) rm[of has_io] rm[of "\<lambda>v. \<not> has_io v"] rm[of valid_config_is_thread_pool_enabled]
      rm[of "\<lambda>v. \<not> valid_config_is_thread_pool_enabled v"]
    by (auto simp: config_inv_def valid_config_drop_def valid_config_is_work_sharing_enabled_def split: if_splits)
next
  case False
  with assms(1,3) shares_remove1[OF assms(2)] show ?thesis
    by (auto simp: config_inv_def valid_config_drop_def valid_config_is_work_sharing_enabled_def)
qed

interpretation cfg: op_system "config_step dbg" config_ok config_inv
proof
  fix w p r w'
  assume a: "config_inv w" "config_ok p w" "config_step dbg p w = (r, w')"
  then show "config_inv w'"
    by (cases w; cases p) (auto dest: config_validate_inv config_drop_inv)
qed

section \<open>Properties\<close>

text \<open>
  C27. In every history of validations, some of which panic, and drops of validated configurations,
  no drop underflows a counter, and all live configurations with work sharing agree: either all
  of them have an I/O worker or none, and either all have a thread pool or none.
\<close>

theorem work_sharing_configs_agree:
  assumes "oks config_ok (config_step dbg) ps (config_stats_new, [])"
    and "run_ops (config_step dbg) ps (config_stats_new, []) = (os, s, L)"
    and "u \<in> set L" and "v \<in> set L"
    and "valid_config_is_work_sharing_enabled u" and "valid_config_is_work_sharing_enabled v"
  shows "(vc_io_worker_config u = None \<longleftrightarrow> vc_io_worker_config v = None) \<and>
    (valid_config_is_thread_pool_enabled u \<longleftrightarrow> valid_config_is_thread_pool_enabled v) \<and>
    (\<exists>s'. valid_config_drop dbg u s = Inr s')"
proof -
  have "config_inv (config_stats_new, [])"
    by (simp add: config_inv_def config_stats_new_def shares_def)
  from cfg.run_inv[OF this assms(1,2)] have i: "config_inv (s, L)" .
  note pos = shares_pos[OF assms(3,5)] shares_pos[OF assms(4,6)]
  have "vc_io_worker_config u = None \<longleftrightarrow> vc_io_worker_config v = None"
    using i pos[of has_io] pos[of "\<lambda>v. \<not> has_io v"]
    by (cases "vc_io_worker_config u"; cases "vc_io_worker_config v") (auto simp: config_inv_def)
  moreover have "valid_config_is_thread_pool_enabled u \<longleftrightarrow> valid_config_is_thread_pool_enabled v"
    using i pos[of valid_config_is_thread_pool_enabled] pos[of "\<lambda>v. \<not> valid_config_is_thread_pool_enabled v"]
    by (cases "valid_config_is_thread_pool_enabled u"; cases "valid_config_is_thread_pool_enabled v")
      (auto simp: config_inv_def)
  moreover have "\<exists>s'. valid_config_drop dbg u s = Inr s'"
  proof -
    have "fst (config_step dbg (DropValid u) (s, L))"
      using config_drop_inv[OF i assms(3)] by (metis prod.collapse)
    then show ?thesis by (auto split: sum.splits)
  qed
  ultimately show ?thesis by blast
qed

definition config_demo :: "config_op list" where
  "config_demo = [Validate config_default,
     Validate (config_set_numbers_of_blocking_workers 0 config_default),
     Validate (config_disable_io_worker config_default),
     Validate (config_set_buffer_cap 1024 config_default)]"

theorem work_sharing_configs_agree_witness:
  "\<exists>s L u v. run_ops (config_step True) config_demo (config_stats_new, []) = ([True, False, False, True], s, L) \<and>
     L = [u, v] \<and> u \<noteq> v \<and> (vc_io_worker_config u = None \<longleftrightarrow> vc_io_worker_config v = None)"
proof -
  let ?run = "run_ops (config_step True) config_demo (config_stats_new, [])"
  obtain os s L where r: "?run = (os, s, L)" using prod_cases3 by blast
  have ok: "oks config_ok (config_step True) config_demo (config_stats_new, [])"
    and e: "os = [True, False, False, True]" "length L = 2" "vc_buffer_cap (hd L) = 1024"
      "vc_buffer_cap (L ! 1) = 4096" "list_all valid_config_is_work_sharing_enabled L"
    using r
    by (auto simp: config_demo_def config_stats_new_def config_validate_def validate_io_def validate_thread_pool_def
        config_default_def config_set_numbers_of_blocking_workers_def config_disable_io_worker_def
        config_set_buffer_cap_def config_is_thread_pool_enabled_def Let_def valid_config_is_work_sharing_enabled_def)
  from e(2) obtain u v where L: "L = [u, v]" by (auto simp: length_Suc_conv numeral_2_eq_2)
  with e have "u \<noteq> v" "valid_config_is_work_sharing_enabled u" "valid_config_is_work_sharing_enabled v" by auto
  with work_sharing_configs_agree[OF ok r, of u v] L r e(1) show ?thesis by auto
qed

text \<open>
  A validation that panics on its thread pool has already counted its I/O worker and never
  takes the count back: after the only live executor is gone, an executor that shares work
  without an I/O worker is still refused.
\<close>

theorem config_validate_leaks_count:
  "run_ops (config_step dbg)
     [Validate config_default, Validate (config_set_numbers_of_blocking_workers 0 config_default),
      DropValid \<lparr>vc_buffer_cap = 4096, vc_io_worker_config = Some io_worker_config_default,
        vc_number_of_thread_workers = 1, vc_work_sharing_level = 7\<rparr>,
      Validate (config_disable_io_worker config_default)] (config_stats_new, []) =
   ([True, False, True, False], config_stats_new\<lparr>cs_io_and_sharing := 1\<rparr>, [])"
  by (simp add: config_stats_new_def config_validate_def validate_io_def validate_thread_pool_def
      config_default_def config_set_numbers_of_blocking_workers_def config_disable_io_worker_def
      config_is_thread_pool_enabled_def Let_def valid_config_drop_def valid_config_is_thread_pool_enabled_def)

text \<open>
  The setters keep a configuration valid for an executor: a work sharing level set or enabled is
  never zero, an accepted I/O configuration has at least one ring entry and one fallback thread,
  and a validated configuration converts back to the configuration it came from.
\<close>

theorem config_setters_valid:
  "cf_work_sharing_level (config_set_work_sharing_level n c) \<noteq> 0 \<and>
   config_is_work_sharing_enabled (config_enable_work_sharing c) \<and>
   \<not> config_is_work_sharing_enabled (config_disable_work_sharing c) \<and>
   (\<forall>c'. config_set_io_worker_config io c = Inr c' \<longrightarrow> cf_io_worker_config c' = io \<and>
      (\<forall>w. io = Some w \<longrightarrow> iu_number_of_entries (iw_io_uring w) \<noteq> 0 \<and>
         fc_number_of_threads_per_executor (iw_fallback w) \<noteq> 0)) \<and>
   (\<forall>v s'. config_validate c s = (Inr v, s') \<longrightarrow> config_from_valid v = c)"
  by (auto simp: config_set_work_sharing_level_def config_enable_work_sharing_def config_disable_work_sharing_def
      config_is_work_sharing_enabled_def config_set_io_worker_config_def io_worker_config_validate_def
      io_uring_config_validate_def fallback_config_validate_def config_validate_def config_from_valid_def Let_def
      word_gt_0 split: option.splits sum.splits if_splits prod.splits bool.splits)

theorem config_setters_valid_witness:
  "\<exists>c'. config_set_io_worker_config (Some io_worker_config_default) config_default = Inr c' \<and>
     cf_io_worker_config c' = Some io_worker_config_default"
proof -
  have "config_set_io_worker_config (Some io_worker_config_default) config_default =
      Inr (config_default\<lparr>cf_io_worker_config := Some io_worker_config_default\<rparr>)"
    by (simp add: config_set_io_worker_config_def io_worker_config_validate_def io_worker_config_default_def
        io_uring_config_validate_def io_uring_config_default_def fallback_config_validate_def
        fallback_config_default_def)
  with config_setters_valid[of 0 config_default "Some io_worker_config_default" config_stats_new]
  show ?thesis by blast
qed

end
