(* ===== verification/Task_Data.thy ===== *)
theory Task_Data
  imports Orengine_Prelude
begin

text \<open>
  Tasks (\<open>src/src/runtime/task\<close>): a task is a fat pointer to a future, 128 bits, whose top bit is
  stolen for the locality, and a debug build adds the executor the task belongs to and a flag
  that is set while it runs. Finished tasks go to a pool by the size of their future. The tag
  does not disturb the pointer and can be changed; the pool gives back the tag and the virtual
  table of the task that was put in.
\<close>

unbundle bit_operations_syntax

section \<open>Locality\<close>

type_synonym fat_ptr = "128 word"

definition IS_LOCAL_MASK :: fat_ptr where
  "IS_LOCAL_MASK = push_bit 127 1"

definition TASK_MASK :: fat_ptr where
  "TASK_MASK = NOT (push_bit 127 1)"

record locality =
  lo_value :: fat_ptr

definition locality_local :: locality where
  "locality_local = \<lparr>lo_value = IS_LOCAL_MASK\<rparr>"

definition locality_shared :: locality where
  "locality_shared = \<lparr>lo_value = 0\<rparr>"

definition locality_is_local :: "locality \<Rightarrow> bool" where
  "locality_is_local l \<longleftrightarrow> lo_value l \<noteq> 0"

section \<open>The tagged pointer\<close>

record task_data =
  td_tagged_ptr :: fat_ptr

definition task_data_new :: "fat_ptr \<Rightarrow> locality \<Rightarrow> task_data" where
  "task_data_new future l = \<lparr>td_tagged_ptr = future OR lo_value l\<rparr>"

definition task_data_future_ptr :: "task_data \<Rightarrow> fat_ptr" where
  "task_data_future_ptr d = td_tagged_ptr d AND TASK_MASK"

definition task_data_is_local :: "task_data \<Rightarrow> bool" where
  "task_data_is_local d \<longleftrightarrow> td_tagged_ptr d AND IS_LOCAL_MASK \<noteq> 0"

definition task_data_set_locality :: "locality \<Rightarrow> task_data \<Rightarrow> task_data" where
  "task_data_set_locality l d =
     (let tagged_ptr = td_tagged_ptr d AND NOT IS_LOCAL_MASK in
      d\<lparr>td_tagged_ptr := tagged_ptr OR lo_value l\<rparr>)"

text \<open>
  A pointer to a future is the address of the future and the address of its virtual table; the
  table is in the upper half. A user-space address has its top bit clear.
\<close>

definition fat_pointer :: "64 word \<Rightarrow> 64 word \<Rightarrow> fat_ptr" where
  "fat_pointer vtable addr = push_bit 64 (ucast vtable) OR ucast addr"

definition ptr_addr :: "fat_ptr \<Rightarrow> 64 word" where
  "ptr_addr p = ucast p"

definition ptr_vtable :: "fat_ptr \<Rightarrow> 64 word" where
  "ptr_vtable p = ucast (drop_bit 64 p)"

section \<open>Tasks\<close>

record task =
  task_data :: task_data
  task_executor_id :: nat
  task_is_executing :: "64 word"

definition task_is_local :: "task \<Rightarrow> bool" where
  "task_is_local t = task_data_is_local (task_data t)"

definition task_future_ptr :: "task \<Rightarrow> fat_ptr" where
  "task_future_ptr t = task_data_future_ptr (task_data t)"

text \<open>
  \<open>check_safety\<close> of a debug build: the task is not running, and a local task is on its executor;
  under \<open>cfg!(test)\<close> a task of executor \<open>usize::MAX\<close> is adopted. \<open>executing\<close> is the flag.
\<close>

definition task_check_safety :: "bool \<Rightarrow> nat \<Rightarrow> bool \<Rightarrow> task \<Rightarrow> task res" where
  "task_check_safety test local_executor_id executing t =
     (if executing then Inl Asserted
      else if task_is_local t \<and> task_executor_id t \<noteq> local_executor_id then
        (if test \<and> task_executor_id t = usize_max then Inr (t\<lparr>task_executor_id := local_executor_id\<rparr>)
         else Inl Asserted)
      else Inr t)"

definition check_task_local_safety :: "bool \<Rightarrow> bool \<Rightarrow> nat \<Rightarrow> task \<Rightarrow> task res" where
  "check_task_local_safety dbg test local_executor_id t =
     (if dbg \<and> task_is_local t \<and> local_executor_id \<noteq> task_executor_id t then
        (if test \<and> task_executor_id t = usize_max then Inr (t\<lparr>task_executor_id := local_executor_id\<rparr>)
         else Inl Asserted)
      else Inr t)"

definition panic_if_local_in_future :: "bool \<Rightarrow> task \<Rightarrow> unit res" where
  "panic_if_local_in_future dbg t = (if dbg \<and> task_is_local t then Inl Asserted else Inr ())"

section \<open>The pool of tasks\<close>

text \<open>
  A future of a type with virtual table \<open>fu_vtable\<close> and size \<open>fu_size\<close>; the heap has the bytes of
  a future at its address, here the value and the type it was written with. Polling a task calls
  the \<open>poll\<close> of the table in its pointer on the bytes at its address.
\<close>

record 'f future =
  fu_vtable :: "64 word"
  fu_size :: nat
  fu_value :: 'f

type_synonym 'f heap = "64 word \<Rightarrow> 'f future option"

type_synonym task_pool = "nat \<Rightarrow> task list option"

definition task_pool_default :: task_pool where
  "task_pool_default = (\<lambda>_. None)"

text \<open>\<open>addr\<close> and \<open>flag\<close> are the addresses the allocator gives for a new future and its flag.\<close>

definition task_pool_acquire ::
  "bool \<Rightarrow> nat \<Rightarrow> 64 word \<Rightarrow> 64 word \<Rightarrow> 'f future \<Rightarrow> locality \<Rightarrow> task_pool \<Rightarrow> 'f heap \<Rightarrow>
   task \<times> task_pool \<times> 'f heap" where
  "task_pool_acquire test local_executor_id addr flag future l storage h =
     (let size = fu_size future;
          executor_id = (if test then usize_max else local_executor_id);
          pool = (case storage size of None \<Rightarrow> [] | Some ts \<Rightarrow> ts) in
      case pop_back pool of
        (Some t, rest) \<Rightarrow> (t, storage(size \<mapsto> rest), h(ptr_addr (task_future_ptr t) \<mapsto> future))
      | (None, _) \<Rightarrow>
          (\<lparr>task_data = task_data_new (fat_pointer (fu_vtable future) addr) l,
            task_executor_id = executor_id, task_is_executing = flag\<rparr>,
           storage(size \<mapsto> []), h(addr \<mapsto> future)))"

definition task_from_future ::
  "bool \<Rightarrow> nat \<Rightarrow> 64 word \<Rightarrow> 64 word \<Rightarrow> 'f future \<Rightarrow> locality \<Rightarrow> task_pool \<Rightarrow> 'f heap \<Rightarrow>
   task \<times> task_pool \<times> 'f heap" where
  "task_from_future test local_executor_id addr flag future l storage h =
     task_pool_acquire test local_executor_id addr flag future l storage h"

text \<open>\<open>size_of_val\<close> reads the size from the virtual table of the pointer.\<close>

definition task_pool_put :: "(64 word \<Rightarrow> nat) \<Rightarrow> task \<Rightarrow> task_pool \<Rightarrow> task_pool" where
  "task_pool_put size_of_vtable t storage =
     (let size = size_of_vtable (ptr_vtable (task_future_ptr t)) in
      case storage size of
        Some pool \<Rightarrow> storage(size \<mapsto> pool @ [t])
      | None \<Rightarrow> storage(size \<mapsto> [t]))"

definition task_release :: "(64 word \<Rightarrow> nat) \<Rightarrow> task \<Rightarrow> task_pool \<Rightarrow> task_pool" where
  "task_release size_of_vtable t storage = task_pool_put size_of_vtable t storage"

section \<open>The tag and the pointer\<close>

lemma bit_IS_LOCAL_MASK: "bit IS_LOCAL_MASK n \<longleftrightarrow> n = 127"
  unfolding IS_LOCAL_MASK_def bit_push_bit_iff bit_1_iff by auto

lemma IS_LOCAL_MASK_nonzero: "IS_LOCAL_MASK \<noteq> 0"
  using bit_IS_LOCAL_MASK[of 127] by auto

lemma bit_TASK_MASK: "bit TASK_MASK n \<longleftrightarrow> n < 127"
  unfolding TASK_MASK_def bit_not_iff bit_push_bit_iff bit_1_iff by auto

definition clean_ptr :: "fat_ptr \<Rightarrow> bool" where
  "clean_ptr p \<longleftrightarrow> \<not> bit p 127"

lemma clean_ptr_mask: "clean_ptr p \<Longrightarrow> p AND TASK_MASK = p"
proof (rule bit_word_eqI)
  fix n assume "n < LENGTH(128)" and "clean_ptr p"
  then show "bit (p AND TASK_MASK) n \<longleftrightarrow> bit p n"
    by (cases "n = 127") (auto simp: bit_and_iff bit_TASK_MASK clean_ptr_def)
qed

lemma is_local_bit: "td_tagged_ptr d AND IS_LOCAL_MASK \<noteq> 0 \<longleftrightarrow> bit (td_tagged_ptr d) 127"
proof -
  have "td_tagged_ptr d AND IS_LOCAL_MASK = (if bit (td_tagged_ptr d) 127 then IS_LOCAL_MASK else 0)"
    by (rule bit_word_eqI) (auto simp: bit_simps bit_IS_LOCAL_MASK)
  then show ?thesis by (simp add: IS_LOCAL_MASK_nonzero)
qed

definition is_locality :: "locality \<Rightarrow> bool" where
  "is_locality l \<longleftrightarrow> l = locality_local \<or> l = locality_shared"

lemma locality_bit: "is_locality l \<Longrightarrow> bit (lo_value l) n \<longleftrightarrow> locality_is_local l \<and> n = 127"
  using IS_LOCAL_MASK_nonzero
  by (auto simp: is_locality_def locality_local_def locality_shared_def locality_is_local_def bit_IS_LOCAL_MASK)

lemma fat_pointer_bit: "bit (fat_pointer v a) n \<longleftrightarrow> (if n < 64 then bit a n else n < 128 \<and> bit v (n - 64))"
  by (auto simp: fat_pointer_def bit_simps dest: bit_imp_le_length)

lemma fat_pointer_parts: "ptr_addr (fat_pointer v a) = a" "ptr_vtable (fat_pointer v a) = v"
  by (rule bit_word_eqI; simp add: ptr_addr_def ptr_vtable_def bit_simps fat_pointer_bit)+

lemma clean_fat_pointer: "clean_ptr (fat_pointer v a) \<longleftrightarrow> \<not> bit v 63"
  by (simp add: clean_ptr_def fat_pointer_bit)

lemma task_data_new_set:
  assumes "clean_ptr p" and "is_locality k"
  shows "task_data_set_locality l (task_data_new p k) = task_data_new p l"
proof -
  have "((p OR lo_value k) AND NOT IS_LOCAL_MASK) = p"
  proof (rule bit_word_eqI)
    fix n assume "n < LENGTH(128)"
    then show "bit ((p OR lo_value k) AND NOT IS_LOCAL_MASK) n \<longleftrightarrow> bit p n"
      using assms
      by (cases "n = 127") (auto simp: bit_and_iff bit_or_iff bit_not_iff bit_IS_LOCAL_MASK clean_ptr_def locality_bit)
  qed
  then show ?thesis by (simp add: task_data_set_locality_def task_data_new_def Let_def)
qed

lemma task_data_new_ptr:
  assumes "clean_ptr p" and "is_locality l"
  shows "task_data_future_ptr (task_data_new p l) = p"
proof -
  have "(p OR lo_value l) AND TASK_MASK = p"
  proof (rule bit_word_eqI)
    fix n assume "n < LENGTH(128)"
    then show "bit ((p OR lo_value l) AND TASK_MASK) n \<longleftrightarrow> bit p n"
      using assms by (cases "n = 127") (auto simp: bit_and_iff bit_or_iff bit_TASK_MASK clean_ptr_def locality_bit)
  qed
  then show ?thesis by (simp add: task_data_future_ptr_def task_data_new_def)
qed

lemma task_data_new_is_local:
  assumes "clean_ptr p" and "is_locality l"
  shows "task_data_is_local (task_data_new p l) \<longleftrightarrow> locality_is_local l"
  unfolding task_data_is_local_def is_local_bit
  using assms by (simp add: task_data_new_def bit_or_iff locality_bit clean_ptr_def)

section \<open>Properties\<close>

text \<open>
  C33. The locality lives in the top bit of the fat pointer of a future without disturbing it: for
  a virtual table at an address whose top bit is clear, the pointer read back is the pointer
  stored, so its table and its address are, the task is local exactly when it was made local, and
  \<open>set_locality\<close> gives the task that would have been made with the new locality.
\<close>

theorem task_data_tag_round_trip:
  assumes "\<not> bit vtable 63" and "is_locality l" and "is_locality k"
  shows "task_data_future_ptr (task_data_new (fat_pointer vtable addr) l) = fat_pointer vtable addr \<and>
    ptr_vtable (task_data_future_ptr (task_data_new (fat_pointer vtable addr) l)) = vtable \<and>
    ptr_addr (task_data_future_ptr (task_data_new (fat_pointer vtable addr) l)) = addr \<and>
    (task_data_is_local (task_data_new (fat_pointer vtable addr) l) \<longleftrightarrow> locality_is_local l) \<and>
    task_data_set_locality k (task_data_new (fat_pointer vtable addr) l) = task_data_new (fat_pointer vtable addr) k"
  using assms clean_fat_pointer[of vtable addr]
  by (simp add: task_data_new_ptr task_data_new_is_local task_data_new_set fat_pointer_parts)

theorem task_data_tag_round_trip_witness:
  "task_data_future_ptr (task_data_new (fat_pointer 0x7f00 0x1000) locality_local) = fat_pointer 0x7f00 0x1000 \<and>
   task_data_is_local (task_data_new (fat_pointer 0x7f00 0x1000) locality_local)"
proof -
  have "is_locality locality_local" "is_locality locality_shared" "\<not> bit (0x7f00 :: 64 word) 63"
    by (simp_all add: is_locality_def)
  from task_data_tag_round_trip[OF this(3,1,2), of "0x1000"] show ?thesis
    by (simp add: locality_is_local_def locality_local_def IS_LOCAL_MASK_nonzero)
qed

text \<open>
  \<open>TaskPool::acquire\<close> reuses the memory of a finished task, and with it the whole tagged
  pointer: when a task of a future of the same size was released, the new future is written to
  its memory, but the task it returns has the locality asked for the old one and the virtual
  table of the old future's type, whatever the locality and the type of the new one are.
\<close>

theorem task_pool_reuse_keeps_type:
  assumes "\<not> bit (fu_vtable f) 63" and "is_locality l" and "is_locality k"
    and "size_of_vtable (fu_vtable f) = fu_size f" and "fu_size g = fu_size f"
    and "task_pool_acquire test i a flag f l task_pool_default h = (t, pool, h1)"
    and "task_pool_acquire test i b flag' g k (task_release size_of_vtable t pool) h1 = (u, pool', h2)"
  shows "u = t \<and> h2 (ptr_addr (task_future_ptr u)) = Some g \<and>
    ptr_vtable (task_future_ptr u) = fu_vtable f \<and> (task_is_local u \<longleftrightarrow> locality_is_local l)"
proof -
  let ?p = "fat_pointer (fu_vtable f) a"
  have t: "t = \<lparr>task_data = task_data_new ?p l, task_executor_id = if test then usize_max else i, task_is_executing = flag\<rparr>"
    and "pool = task_pool_default(fu_size f \<mapsto> [])"
    using assms(6) by (auto simp: task_pool_acquire_def task_pool_default_def Let_def)
  moreover have ptr: "task_future_ptr t = ?p" "task_is_local t \<longleftrightarrow> locality_is_local l"
    using assms(1,2) clean_fat_pointer[of "fu_vtable f" a]
    by (simp_all add: t task_future_ptr_def task_is_local_def task_data_new_ptr task_data_new_is_local)
  ultimately have "task_release size_of_vtable t pool = task_pool_default(fu_size f \<mapsto> [t])"
    using assms(4) by (simp add: task_release_def task_pool_put_def Let_def fat_pointer_parts)
  with assms(5,7) have "u = t \<and> h2 = h1(ptr_addr (task_future_ptr t) \<mapsto> g)"
    by (auto simp: task_pool_acquire_def Let_def pop_back_def)
  with ptr show ?thesis by (simp add: fat_pointer_parts)
qed

theorem task_pool_reuse_keeps_type_witness:
  "\<exists>t pool h1 u pool' h2.
     task_pool_acquire False 0 0x1000 0x2000 \<lparr>fu_vtable = 0x7f00, fu_size = 24, fu_value = ''first''\<rparr> locality_local
       task_pool_default (\<lambda>_. None) = (t, pool, h1) \<and>
     task_pool_acquire False 0 0x3000 0x4000 \<lparr>fu_vtable = 0x7f80, fu_size = 24, fu_value = ''second''\<rparr> locality_shared
       (task_release (\<lambda>_. 24) t pool) h1 = (u, pool', h2) \<and>
     task_is_local u \<and> ptr_vtable (task_future_ptr u) = 0x7f00 \<and>
     map_option fu_vtable (h2 (ptr_addr (task_future_ptr u))) = Some 0x7f80"
proof -
  let ?f = "\<lparr>fu_vtable = 0x7f00, fu_size = 24, fu_value = ''first''\<rparr>"
  let ?g = "\<lparr>fu_vtable = 0x7f80, fu_size = 24, fu_value = ''second''\<rparr>"
  obtain t pool h1 where a: "task_pool_acquire False 0 0x1000 0x2000 ?f locality_local task_pool_default (\<lambda>_. None)
      = (t, pool, h1)" using prod_cases3 by blast
  obtain u pool' h2 where b: "task_pool_acquire False 0 0x3000 0x4000 ?g locality_shared
      (task_release (\<lambda>_. 24) t pool) h1 = (u, pool', h2)" using prod_cases3 by blast
  have "is_locality locality_local" "is_locality locality_shared" "\<not> bit (0x7f00 :: 64 word) 63"
    "locality_is_local locality_local"
    by (simp_all add: is_locality_def locality_is_local_def locality_local_def IS_LOCAL_MASK_nonzero)
  with task_pool_reuse_keeps_type[OF _ _ _ _ _ a b] have "task_is_local u" "ptr_vtable (task_future_ptr u) = 0x7f00"
    "h2 (ptr_addr (task_future_ptr u)) = Some ?g" by auto
  with a b show ?thesis by (intro exI conjI) (assumption | simp)+
qed

end
