(* ===== verification/Vec_Map.thy ===== *)
theory Vec_Map
  imports Orengine_Prelude
begin

text \<open>
  \<open>src/src/utils/vec_map.rs\<close>: a map from small \<open>usize\<close> keys to values, stored as a vector of
  options indexed by the key. It holds the registered executors and the task lists to send to.
\<close>

section \<open>The structure and its operations\<close>

record 'v vec_map =
  vm_inner :: "'v option list"

definition vec_map_new :: "'v vec_map" where
  "vec_map_new = \<lparr>vm_inner = []\<rparr>"

text \<open>\<open>self.inner.get_mut(key).and_then(|v| v.as_mut())\<close>\<close>

definition vec_map_get :: "'v vec_map \<Rightarrow> nat \<Rightarrow> 'v option" where
  "vec_map_get m key = (if key < length (vm_inner m) then vm_inner m ! key else None)"

text \<open>A write through the reference that \<open>get_mut\<close> returns.\<close>

definition vec_map_modify :: "nat \<Rightarrow> ('v \<Rightarrow> 'v) \<Rightarrow> 'v vec_map \<Rightarrow> 'v vec_map" where
  "vec_map_modify key f m =
     (case vec_map_get m key of
        None \<Rightarrow> m
      | Some v \<Rightarrow> m\<lparr>vm_inner := (vm_inner m)[key := Some (f v)]\<rparr>)"

text \<open>
  \<open>insert\<close> grows the vector to \<open>max (key + 1) (len * 12 / 10)\<close> when the key is out of range,
  then replaces the slot and returns what it held. \<open>dbg\<close> is \<open>cfg!(debug_assertions)\<close>.
\<close>

definition vec_map_grow :: "nat \<Rightarrow> 'v option list \<Rightarrow> 'v option list" where
  "vec_map_grow key xs =
     (if length xs \<le> key
      then xs @ replicate (max (key + 1) (length xs * 12 div 10) - length xs) None
      else xs)"

definition vec_map_insert :: "bool \<Rightarrow> nat \<Rightarrow> 'v \<Rightarrow> 'v vec_map \<Rightarrow> ('v option \<times> 'v vec_map) res" where
  "vec_map_insert dbg key v m =
     (if dbg \<and> \<not> key < length (vm_inner m) + 100 then Inl DebugAssert
      else let xs = vec_map_grow key (vm_inner m)
           in if key < length xs
              then Inr (xs ! key, m\<lparr>vm_inner := xs[key := Some v]\<rparr>)
              else Inl Asserted)"

definition vec_map_clear :: "'v vec_map \<Rightarrow> 'v vec_map" where
  "vec_map_clear m = m\<lparr>vm_inner := []\<rparr>"

definition vec_map_iter :: "'v vec_map \<Rightarrow> (nat \<times> 'v) list" where
  "vec_map_iter m =
     map (\<lambda>(i, v). (i, the v)) (filter (\<lambda>(i, v). v \<noteq> None) (enumerate 0 (vm_inner m)))"

definition vec_map_iter_mut :: "(nat \<Rightarrow> 'v \<Rightarrow> 'v) \<Rightarrow> 'v vec_map \<Rightarrow> 'v vec_map" where
  "vec_map_iter_mut f m =
     m\<lparr>vm_inner := map (\<lambda>(i, v). map_option (f i) v) (enumerate 0 (vm_inner m))\<rparr>"

definition vec_map_retain :: "(nat \<Rightarrow> 'v \<Rightarrow> bool) \<Rightarrow> 'v vec_map \<Rightarrow> 'v vec_map" where
  "vec_map_retain f m =
     m\<lparr>vm_inner := map (\<lambda>(i, v). case v of None \<Rightarrow> None | Some x \<Rightarrow> if f i x then Some x else None)
                      (enumerate 0 (vm_inner m))\<rparr>"

section \<open>The map contract\<close>

text \<open>
  What the callers rely on: a partial map with point updates, restriction and an enumeration
  of its entries. \<open>ins\<close> is total here; the panics of \<open>insert\<close> are excluded below.
\<close>

locale index_map =
  fixes empty :: 'm and look :: "'m \<Rightarrow> nat \<Rightarrow> 'v option"
    and ins :: "nat \<Rightarrow> 'v \<Rightarrow> 'm \<Rightarrow> 'm"
    and keep :: "(nat \<Rightarrow> 'v \<Rightarrow> bool) \<Rightarrow> 'm \<Rightarrow> 'm"
    and upd :: "(nat \<Rightarrow> 'v \<Rightarrow> 'v) \<Rightarrow> 'm \<Rightarrow> 'm"
    and entries :: "'m \<Rightarrow> (nat \<times> 'v) list"
  assumes look_empty: "look empty k = None"
    and look_ins: "look (ins k v m) k' = (if k' = k then Some v else look m k')"
    and look_keep: "look (keep f m) k =
          (case look m k of None \<Rightarrow> None | Some v \<Rightarrow> if f k v then Some v else None)"
    and look_upd: "look (upd g m) k = map_option (g k) (look m k)"
    and entries_look: "(k, v) \<in> set (entries m) \<longleftrightarrow> look m k = Some v"
    and entries_sorted: "sorted_wrt (<) (map fst (entries m))"
begin

lemma entries_distinct: "distinct (map fst (entries m))"
  using entries_sorted strict_sorted_iff by blast

lemma keys_entries: "fst ` set (entries m) = dom (look m)"
proof (intro set_eqI)
  fix k
  have "k \<in> fst ` set (entries m) \<longleftrightarrow> (\<exists>v. (k, v) \<in> set (entries m))"
    by force
  then show "k \<in> fst ` set (entries m) \<longleftrightarrow> k \<in> dom (look m)"
    by (simp add: dom_def entries_look)
qed

lemma map_of_entries: "map_of (entries m) = look m"
proof
  fix k
  show "map_of (entries m) k = look m k"
  proof (cases "look m k")
    case None
    then have "k \<notin> fst ` set (entries m)" by (auto simp: keys_entries)
    then show ?thesis using None by (simp add: map_of_eq_None_iff)
  next
    case (Some v)
    then have "(k, v) \<in> set (entries m)" by (simp add: entries_look)
    with entries_distinct[of m] Some show ?thesis by simp
  qed
qed

lemma entries_any: "(\<exists>e \<in> set (entries m). fst e = k) \<longleftrightarrow> look m k \<noteq> None"
proof -
  have "(\<exists>e \<in> set (entries m). fst e = k) \<longleftrightarrow> k \<in> fst ` set (entries m)"
    by force
  then show ?thesis by (simp add: keys_entries dom_def)
qed

lemma keep_dom: "dom (look (keep (\<lambda>i _. i \<noteq> k) m)) = dom (look m) - {k}"
  by (auto simp: dom_def look_keep split: option.splits if_splits)

lemma ins_dom: "dom (look (ins k v m)) = insert k (dom (look m))"
  by (auto simp: dom_def look_ins)

end

section \<open>The vector keeps the contract\<close>

lemma vec_map_grow_length: "key < length (vec_map_grow key xs)"
  by (simp add: vec_map_grow_def less_max_iff_disj)

lemma vec_map_grow_mono: "length xs \<le> length (vec_map_grow key xs)"
  by (simp add: vec_map_grow_def le_max_iff_disj)

lemma vec_map_grow_nth:
  "i < length (vec_map_grow key xs) \<Longrightarrow>
   vec_map_grow key xs ! i = (if i < length xs then xs ! i else None)"
  by (auto simp: vec_map_grow_def nth_append)

text \<open>The insertion without its debug assertion, as the release build runs it.\<close>

definition vec_map_ins :: "nat \<Rightarrow> 'v \<Rightarrow> 'v vec_map \<Rightarrow> 'v vec_map" where
  "vec_map_ins key v m = m\<lparr>vm_inner := (vec_map_grow key (vm_inner m))[key := Some v]\<rparr>"

lemma vec_map_insert_eq:
  "vec_map_insert dbg key v m =
     (if dbg \<and> \<not> key < length (vm_inner m) + 100 then Inl DebugAssert
      else Inr (vec_map_get m key, vec_map_ins key v m))"
  using vec_map_grow_length[of key "vm_inner m"]
  by (simp add: vec_map_insert_def vec_map_ins_def vec_map_get_def vec_map_grow_nth Let_def)

lemma vec_map_get_ins:
  "vec_map_get (vec_map_ins k v m) k' = (if k' = k then Some v else vec_map_get m k')"
proof (cases "k' < length (vec_map_grow k (vm_inner m))")
  case True
  then show ?thesis
    by (auto simp: vec_map_get_def vec_map_ins_def vec_map_grow_nth nth_list_update)
next
  case False
  then have "\<not> k' < length (vm_inner m)" "k' \<noteq> k"
    using vec_map_grow_length[of k "vm_inner m"] vec_map_grow_mono[of "vm_inner m" k]
    by auto
  with False show ?thesis by (simp add: vec_map_get_def vec_map_ins_def)
qed

lemma vec_map_iter_in:
  "(k, v) \<in> set (vec_map_iter m) \<longleftrightarrow> vec_map_get m k = Some v"
  by (force simp: vec_map_iter_def vec_map_get_def in_set_enumerate_eq image_iff)

lemma map_fst_filter_enumerate_sorted:
  "sorted_wrt (<) (map fst (filter P (enumerate n xs)))"
proof -
  have "sorted_wrt (<) (map fst (enumerate n xs))"
    by simp
  then have "sorted_wrt (\<lambda>x y. fst x < fst y) (enumerate n xs)"
    unfolding sorted_wrt_map .
  then show ?thesis
    by (simp add: sorted_wrt_map sorted_wrt_filter)
qed

lemma vec_map_iter_sorted: "sorted_wrt (<) (map fst (vec_map_iter m))"
  using map_fst_filter_enumerate_sorted[of "\<lambda>(i, v). v \<noteq> None" 0 "vm_inner m"]
  by (simp add: vec_map_iter_def comp_def split_beta)

interpretation vm: index_map vec_map_new vec_map_get vec_map_ins vec_map_retain
  vec_map_iter_mut vec_map_iter
proof unfold_locales
  fix k
  show "vec_map_get vec_map_new k = None"
    by (simp add: vec_map_get_def vec_map_new_def)
next
  fix k k' :: nat and v :: 'a and m
  show "vec_map_get (vec_map_ins k v m) k' = (if k' = k then Some v else vec_map_get m k')"
    by (rule vec_map_get_ins)
next
  fix f :: "nat \<Rightarrow> 'a \<Rightarrow> bool" and m k
  show "vec_map_get (vec_map_retain f m) k =
     (case vec_map_get m k of None \<Rightarrow> None | Some v \<Rightarrow> if f k v then Some v else None)"
    by (simp add: vec_map_get_def vec_map_retain_def nth_enumerate_eq)
next
  fix g :: "nat \<Rightarrow> 'a \<Rightarrow> 'a" and m k
  show "vec_map_get (vec_map_iter_mut g m) k = map_option (g k) (vec_map_get m k)"
    by (simp add: vec_map_get_def vec_map_iter_mut_def nth_enumerate_eq)
next
  fix k and v :: 'a and m
  show "(k, v) \<in> set (vec_map_iter m) \<longleftrightarrow> vec_map_get m k = Some v"
    by (rule vec_map_iter_in)
next
  fix m :: "'a vec_map"
  show "sorted_wrt (<) (map fst (vec_map_iter m))"
    by (rule vec_map_iter_sorted)
qed

lemma vec_map_modify_get:
  "vec_map_get (vec_map_modify k f m) k' =
     (if k' = k then map_option f (vec_map_get m k) else vec_map_get m k')"
  by (auto simp: vec_map_modify_def vec_map_get_def split: option.splits if_splits)

lemma vec_map_clear_get: "vec_map_get (vec_map_clear m) k = None"
  by (simp add: vec_map_get_def vec_map_clear_def)

end
