(* ===== verification/Task_Exchange.thy ===== *)
theory Task_Exchange
  imports Task_Data Vec_Map
begin

text \<open>
  How executors pass tasks to each other: the list a work-sharing executor lets others take from
  (\<open>src/src/runtime/task/shared_task_list.rs\<close>), the queue each executor receives tasks in and the
  interactor that batches the tasks it sends
  (\<open>src/src/runtime/interaction_between_executors\<close>). Every operation moves tasks and loses none,
  whatever lock attempts fail.
\<close>

section \<open>The list of shared tasks\<close>

record shared_task_list =
  stl_executor_id :: nat
  stl_list :: "task list"

definition shared_task_list_new :: "nat \<Rightarrow> shared_task_list" where
  "shared_task_list_new executor_id = \<lparr>stl_executor_id = executor_id, stl_list = []\<rparr>"

text \<open>
  A lock of this list never waits: \<open>free\<close> says whether the attempt finds it unlocked. The loop
  copies the elements from \<open>first_index\<close>, which is not after the end, on and then cuts the length.
\<close>

function copy_batch :: "task list \<Rightarrow> nat \<Rightarrow> task list \<Rightarrow> task list" where
  "copy_batch guard first_index other =
     (if first_index < length guard then copy_batch guard (first_index + 1) (other @ [guard ! first_index])
      else other)"
  by auto
termination
  by (relation "measure (\<lambda>(guard, first_index, other). length guard - first_index)") auto

definition shared_task_list_take_batch ::
  "bool \<Rightarrow> nat \<Rightarrow> task list \<Rightarrow> shared_task_list \<Rightarrow> task list \<times> shared_task_list" where
  "shared_task_list_take_batch free limit other l =
     (if free then
        (let number_of_elems = min (length (stl_list l)) limit;
             new_len = length (stl_list l) - number_of_elems in
         (copy_batch (stl_list l) new_len other, l\<lparr>stl_list := take new_len (stl_list l)\<rparr>))
      else (other, l))"

declare copy_batch.simps [simp del]

lemma copy_batch_eq: "copy_batch guard i other = other @ drop i guard"
proof (induction guard i other rule: copy_batch.induct)
  case (1 guard i other)
  then show ?case
    by (subst copy_batch.simps) (auto simp: Cons_nth_drop_Suc)
qed

lemma mset_drop_take: "mset (drop n xs) + mset (take n xs) = mset xs"
  by (metis append_take_drop_id mset_append union_commute)

lemma take_batch_balance:
  assumes "shared_task_list_take_batch free limit other l = (other', l')"
  shows "other' = other @ drop (length other) other' \<and>
    mset other' + mset (stl_list l') = mset other + mset (stl_list l) \<and>
    length other' \<le> length other + limit \<and> stl_executor_id l' = stl_executor_id l"
  using assms
  by (auto simp: shared_task_list_take_batch_def copy_batch_eq Let_def mset_drop_take
      split: if_splits)

section \<open>The queue of received tasks\<close>

record task_deque =
  tdq_local_tasks :: "task list"
  tdq_shared_tasks :: "task list"

definition task_deque_new :: task_deque where
  "task_deque_new = \<lparr>tdq_local_tasks = [], tdq_shared_tasks = []\<rparr>"

text \<open>
  \<open>try_to_append_tasks\<close>: the debug build checks the localities and hands local tasks over to
  the executor. The result is the success and the batches that are left.
\<close>

definition try_to_append_tasks ::
  "bool \<Rightarrow> bool \<Rightarrow> nat \<Rightarrow> task list \<Rightarrow> task list \<Rightarrow> task_deque \<Rightarrow> (bool \<times> task list \<times> task list \<times> task_deque) res" where
  "try_to_append_tasks dbg free executor_id ls ss q =
     (if ls = [] \<and> ss = [] then Inr (True, ls, ss, q)
      else if free then
        (if \<not> dbg then
           Inr (True, [], [], \<lparr>tdq_local_tasks = tdq_local_tasks q @ ls, tdq_shared_tasks = tdq_shared_tasks q @ ss\<rparr>)
         else if \<not> list_all task_is_local ls \<or> list_ex task_is_local ss then Inl Asserted
         else Inr (True, [], [],
           \<lparr>tdq_local_tasks = tdq_local_tasks q @ map (\<lambda>t. t\<lparr>task_executor_id := executor_id\<rparr>) ls,
            tdq_shared_tasks = tdq_shared_tasks q @ ss\<rparr>))
      else Inr (False, ls, ss, q))"

definition try_to_take_batch_of_tasks ::
  "bool \<Rightarrow> task list \<Rightarrow> task list \<Rightarrow> task_deque \<Rightarrow> bool \<times> task list \<times> task list \<times> task_deque" where
  "try_to_take_batch_of_tasks free ls ss q =
     (if free then (True, ls @ tdq_local_tasks q, ss @ tdq_shared_tasks q, task_deque_new)
      else (False, ls, ss, q))"

section \<open>The interactor\<close>

datatype send_task_result = SendOk | ExecutorIsNotRegistered

definition send_task_result_is_ok :: "send_task_result \<Rightarrow> bool" where
  "send_task_result_is_ok r \<longleftrightarrow> r = SendOk"

definition send_task_result_expect :: "send_task_result \<Rightarrow> unit res" where
  "send_task_result_expect r = (if send_task_result_is_ok r then Inr () else Inl Asserted)"

definition send_task_result_or_else :: "('w \<Rightarrow> send_task_result \<times> 'w) \<Rightarrow> send_task_result \<Rightarrow> 'w \<Rightarrow> 'w" where
  "send_task_result_or_else f r w = (if \<not> send_task_result_is_ok r then snd (f w) else w)"

text \<open>Queues are shared between executors; a queue is named by a number, and \<open>queues\<close> are all of them.\<close>

type_synonym queue_id = nat

type_synonym queues = "queue_id \<Rightarrow> task_deque"

record send_list =
  sl_queue :: queue_id
  sl_local_batch :: "task list"
  sl_shared_batch :: "task list"

definition send_list_new :: "queue_id \<Rightarrow> send_list" where
  "send_list_new q = \<lparr>sl_queue = q, sl_local_batch = [], sl_shared_batch = []\<rparr>"

record interactor =
  ia_queue :: queue_id
  ia_all :: "send_list vec_map"
  ia_id_to_retry :: "nat list"
  ia_last_executed_time :: nat

definition interactor_new :: "queue_id \<Rightarrow> interactor" where
  "interactor_new q = \<lparr>ia_queue = q, ia_all = vec_map_new, ia_id_to_retry = [], ia_last_executed_time = 0\<rparr>"

definition interactor_send :: "task \<Rightarrow> nat \<Rightarrow> interactor \<Rightarrow> send_task_result \<times> interactor" where
  "interactor_send t executor_id it =
     (case vec_map_get (ia_all it) executor_id of
        Some _ \<Rightarrow>
          (SendOk, it\<lparr>ia_all := vec_map_modify executor_id
             (\<lambda>e. if task_is_local t then e\<lparr>sl_local_batch := sl_local_batch e @ [t]\<rparr>
                  else e\<lparr>sl_shared_batch := sl_shared_batch e @ [t]\<rparr>) (ia_all it)\<rparr>)
      | None \<Rightarrow> (ExecutorIsNotRegistered, it))"

text \<open>One list of batches to its queue: the success, the interactor and the queues.\<close>

definition append_batches ::
  "bool \<Rightarrow> bool \<Rightarrow> nat \<Rightarrow> interactor \<times> queues \<Rightarrow> (bool \<times> interactor \<times> queues) res" where
  "append_batches dbg free i s =
     (case s of (it, qs) \<Rightarrow>
       (case vec_map_get (ia_all it) i of
          None \<Rightarrow> Inl Undefined
        | Some e \<Rightarrow>
            bindR (try_to_append_tasks dbg free i (sl_local_batch e) (sl_shared_batch e) (qs (sl_queue e)))
              (\<lambda>(ok, ls, ss, q). Inr (ok,
                 it\<lparr>ia_all := vec_map_modify i (\<lambda>e. e\<lparr>sl_local_batch := ls, sl_shared_batch := ss\<rparr>) (ia_all it)\<rparr>,
                 qs(sl_queue e := q)))))"

text \<open>\<open>frees\<close> says of each executor whether its queue can be locked when its turn comes.\<close>

fun flush_ids :: "bool \<Rightarrow> (nat \<Rightarrow> bool) \<Rightarrow> nat list \<Rightarrow> interactor \<times> queues \<Rightarrow> (interactor \<times> queues) res" where
  "flush_ids dbg frees [] s = Inr s"
| "flush_ids dbg frees (i # ids) s =
     bindR (append_batches dbg (frees i) i s) (\<lambda>(ok, it, qs).
       flush_ids dbg frees ids ((if ok then it else it\<lparr>ia_id_to_retry := ia_id_to_retry it @ [i]\<rparr>), qs))"

definition interactor_flush :: "bool \<Rightarrow> (nat \<Rightarrow> bool) \<Rightarrow> interactor \<times> queues \<Rightarrow> (interactor \<times> queues) res" where
  "interactor_flush dbg frees s =
     (if dbg \<and> ia_id_to_retry (fst s) \<noteq> [] then Inl DebugAssert
      else flush_ids dbg frees (map fst (vec_map_iter (ia_all (fst s)))) s)"

fun retry_ids :: "bool \<Rightarrow> (nat \<Rightarrow> bool) \<Rightarrow> nat list \<Rightarrow> interactor \<times> queues \<Rightarrow> (interactor \<times> queues) res" where
  "retry_ids dbg frees [] s = Inr s"
| "retry_ids dbg frees (i # ids) s =
     bindR (append_batches dbg (frees i) i s) (\<lambda>(ok, it, qs). retry_ids dbg frees ids (it, qs))"

definition interactor_retry_flush :: "bool \<Rightarrow> (nat \<Rightarrow> bool) \<Rightarrow> interactor \<times> queues \<Rightarrow> (interactor \<times> queues) res" where
  "interactor_retry_flush dbg frees s =
     retry_ids dbg frees (ia_id_to_retry (fst s)) ((fst s)\<lparr>ia_id_to_retry := []\<rparr>, snd s)"

definition interactor_try_to_take_tasks ::
  "bool \<Rightarrow> interactor \<Rightarrow> task list \<Rightarrow> task list \<Rightarrow> queues \<Rightarrow> bool \<times> task list \<times> task list \<times> queues" where
  "interactor_try_to_take_tasks free it ls ss qs =
     (case try_to_take_batch_of_tasks free ls ss (qs (ia_queue it)) of
        (ok, ls', ss', q) \<Rightarrow> (ok, ls', ss', qs(ia_queue it := q)))"

text \<open>Times are in nanoseconds; an earlier \<open>now\<close> gives the duration zero.\<close>

definition interactor_do_work ::
  "bool \<Rightarrow> bool \<Rightarrow> bool \<Rightarrow> (nat \<Rightarrow> bool) \<Rightarrow> (nat \<Rightarrow> bool) \<Rightarrow> nat \<Rightarrow>
   interactor \<Rightarrow> task list \<Rightarrow> task list \<Rightarrow> queues \<Rightarrow> (interactor \<times> task list \<times> task list \<times> queues) res" where
  "interactor_do_work dbg free1 free2 frees retries now it ls ss qs =
     (if now - ia_last_executed_time it < 64000 then Inr (it, ls, ss, qs)
      else
        (let it1 = it\<lparr>ia_last_executed_time := now\<rparr> in
         case interactor_try_to_take_tasks free1 it1 ls ss qs of
           (is_success, ls1, ss1, qs1) \<Rightarrow>
             bindR (interactor_flush dbg frees (it1, qs1)) (\<lambda>(it2, qs2).
               case (if \<not> is_success then interactor_try_to_take_tasks free2 it2 ls1 ss1 qs2
                     else (True, ls1, ss1, qs2)) of
                 (_, ls2, ss2, qs3) \<Rightarrow>
                   bindR (interactor_retry_flush dbg retries (it2, qs3)) (\<lambda>(it3, qs4).
                     Inr (it3, ls2, ss2, qs4)))))"

section \<open>No task is lost\<close>

text \<open>
  A task up to the executor a debug build says it belongs to, and the tasks that the batches of
  an interactor and a finite set of queues hold.
\<close>

definition untagged :: "task list \<Rightarrow> task multiset" where
  "untagged ts = mset (map (\<lambda>t. t\<lparr>task_executor_id := 0\<rparr>) ts)"

definition batch_tasks :: "send_list option \<Rightarrow> task multiset" where
  "batch_tasks e = (case e of None \<Rightarrow> {#} | Some e \<Rightarrow> untagged (sl_local_batch e) + untagged (sl_shared_batch e))"

definition batched :: "interactor \<Rightarrow> task multiset" where
  "batched it = sum_list (map batch_tasks (vm_inner (ia_all it)))"

definition queue_tasks :: "task_deque \<Rightarrow> task multiset" where
  "queue_tasks q = untagged (tdq_local_tasks q) + untagged (tdq_shared_tasks q)"

definition queued :: "queue_id set \<Rightarrow> queues \<Rightarrow> task multiset" where
  "queued Q qs = (\<Sum>q \<in> Q. queue_tasks (qs q))"

text \<open>Well-formed batches: by locality, and with a queue of the set.\<close>

definition send_list_wf :: "queue_id set \<Rightarrow> send_list \<Rightarrow> bool" where
  "send_list_wf Q e \<longleftrightarrow> sl_queue e \<in> Q \<and> list_all task_is_local (sl_local_batch e) \<and>
     \<not> list_ex task_is_local (sl_shared_batch e)"

definition interactor_wf :: "queue_id set \<Rightarrow> interactor \<Rightarrow> bool" where
  "interactor_wf Q it \<longleftrightarrow> ia_queue it \<in> Q \<and> (\<forall>k e. vec_map_get (ia_all it) k = Some e \<longrightarrow> send_list_wf Q e)"

lemma untagged_simps [simp]:
  "untagged [] = {#}" "untagged (xs @ ys) = untagged xs + untagged ys"
  "untagged (map (\<lambda>t. t\<lparr>task_executor_id := n\<rparr>) ts) = untagged ts"
  by (simp_all add: untagged_def multiset.map_comp comp_def)

lemma sum_list_update_add:
  fixes xs :: "'a::comm_monoid_add list"
  shows "i < length xs \<Longrightarrow> sum_list (xs[i := x]) + xs ! i = sum_list xs + x"
  by (induction xs arbitrary: i) (auto simp: nth_Cons ac_simps split: nat.splits)

lemma batched_modify:
  assumes "vec_map_get (ia_all it) k = Some e"
  shows "batched (it\<lparr>ia_all := vec_map_modify k f (ia_all it)\<rparr>) + batch_tasks (Some e) =
    batched it + batch_tasks (Some (f e))"
proof -
  from assms have k: "k < length (vm_inner (ia_all it))" "vm_inner (ia_all it) ! k = Some e"
    by (auto simp: vec_map_get_def split: if_splits)
  with assms have "vm_inner (vec_map_modify k f (ia_all it)) = (vm_inner (ia_all it))[k := Some (f e)]"
    by (simp add: vec_map_modify_def)
  with k sum_list_update_add[of k "map batch_tasks (vm_inner (ia_all it))" "batch_tasks (Some (f e))"]
  show ?thesis by (simp add: batched_def map_update)
qed

lemma queued_update:
  assumes "finite Q" and "q \<in> Q"
  shows "queued Q (qs(q := d)) + queue_tasks (qs q) = queued Q qs + queue_tasks d"
proof -
  have "queued Q (qs(q := d)) = queue_tasks d + (\<Sum>r \<in> Q - {q}. queue_tasks (qs r))"
    using assms by (simp add: queued_def sum.remove)
  moreover have "queued Q qs = queue_tasks (qs q) + (\<Sum>r \<in> Q - {q}. queue_tasks (qs r))"
    using assms by (simp add: queued_def sum.remove)
  ultimately show ?thesis by (simp add: ac_simps)
qed

lemma try_to_append_balance:
  assumes "list_all task_is_local ls" and "\<not> list_ex task_is_local ss"
  obtains ok ls' ss' q' where "try_to_append_tasks dbg free i ls ss q = Inr (ok, ls', ss', q')"
    and "untagged ls' + untagged ss' + queue_tasks q' = untagged ls + untagged ss + queue_tasks q"
    and "list_all task_is_local ls'" and "\<not> list_ex task_is_local ss'"
proof -
  obtain r where r: "try_to_append_tasks dbg free i ls ss q = r" by simp
  show thesis
    using assms r that
    by (auto simp: try_to_append_tasks_def queue_tasks_def ac_simps split: if_splits)
qed

lemma append_batches_ok:
  assumes "finite Q" and "interactor_wf Q it" and "vec_map_get (ia_all it) i \<noteq> None"
  obtains ok it' qs' where "append_batches dbg free i (it, qs) = Inr (ok, it', qs')"
    and "interactor_wf Q it'" and "batched it' + queued Q qs' = batched it + queued Q qs"
    and "dom (vec_map_get (ia_all it')) = dom (vec_map_get (ia_all it))"
    and "ia_id_to_retry it' = ia_id_to_retry it" and "ia_queue it' = ia_queue it"
proof -
  from assms(3) obtain e where e: "vec_map_get (ia_all it) i = Some e" by auto
  with assms(2) have wf: "send_list_wf Q e" by (auto simp: interactor_wf_def)
  obtain ok ls ss q where r:
    "try_to_append_tasks dbg free i (sl_local_batch e) (sl_shared_batch e) (qs (sl_queue e)) = Inr (ok, ls, ss, q)"
    "untagged ls + untagged ss + queue_tasks q =
       untagged (sl_local_batch e) + untagged (sl_shared_batch e) + queue_tasks (qs (sl_queue e))"
    "list_all task_is_local ls" "\<not> list_ex task_is_local ss"
    by (rule try_to_append_balance[of "sl_local_batch e" "sl_shared_batch e" dbg free i "qs (sl_queue e)"])
      (use wf in \<open>simp_all add: send_list_wf_def\<close>)
  let ?f = "\<lambda>e. e\<lparr>sl_local_batch := ls, sl_shared_batch := ss\<rparr>"
  let ?it = "it\<lparr>ia_all := vec_map_modify i ?f (ia_all it)\<rparr>" and ?qs = "qs(sl_queue e := q)"
  have "append_batches dbg free i (it, qs) = Inr (ok, ?it, ?qs)"
    by (simp add: append_batches_def e r)
  moreover have "interactor_wf Q ?it"
    using assms(2) wf e r by (auto simp: interactor_wf_def vec_map_modify_get send_list_wf_def split: if_splits)
  moreover have "batched ?it + queued Q ?qs = batched it + queued Q qs"
  proof -
    have "sl_queue e \<in> Q" using wf by (simp add: send_list_wf_def)
    note b = batched_modify[OF e, of ?f] queued_update[OF assms(1) this, of qs q]
    have "(batched ?it + queued Q ?qs) + (batch_tasks (Some e) + queue_tasks (qs (sl_queue e))) =
      (batched it + queued Q qs) + (batch_tasks (Some (?f e)) + queue_tasks q)"
      using arg_cong2[OF b, of "(+)"] by (simp only: ac_simps)
    moreover have "batch_tasks (Some (?f e)) + queue_tasks q = batch_tasks (Some e) + queue_tasks (qs (sl_queue e))"
      using r(2) by (simp add: batch_tasks_def ac_simps)
    ultimately show ?thesis by simp
  qed
  moreover have "dom (vec_map_get (ia_all ?it)) = dom (vec_map_get (ia_all it))"
    using e by (auto simp: dom_def vec_map_modify_get)
  ultimately show thesis using that by simp
qed

lemma flush_ids_ok:
  assumes "finite Q"
  shows "interactor_wf Q it \<Longrightarrow> set ids \<subseteq> dom (vec_map_get (ia_all it)) \<Longrightarrow>
    \<exists>it' qs' r. flush_ids dbg frees ids (it, qs) = Inr (it', qs') \<and> interactor_wf Q it' \<and>
      batched it' + queued Q qs' = batched it + queued Q qs \<and>
      dom (vec_map_get (ia_all it')) = dom (vec_map_get (ia_all it)) \<and>
      ia_id_to_retry it' = ia_id_to_retry it @ r \<and> set r \<subseteq> set ids"
proof (induction ids arbitrary: it qs)
  case (Cons i ids)
  then have "vec_map_get (ia_all it) i \<noteq> None" by auto
  then obtain ok it1 qs1 where a: "append_batches dbg (frees i) i (it, qs) = Inr (ok, it1, qs1)"
    and wf: "interactor_wf Q it1" and bal: "batched it1 + queued Q qs1 = batched it + queued Q qs"
    and d: "dom (vec_map_get (ia_all it1)) = dom (vec_map_get (ia_all it))" "ia_id_to_retry it1 = ia_id_to_retry it"
    by (rule append_batches_ok[OF assms Cons.prems(1)])
  let ?it = "if ok then it1 else it1\<lparr>ia_id_to_retry := ia_id_to_retry it1 @ [i]\<rparr>"
  have w: "interactor_wf Q ?it" "dom (vec_map_get (ia_all ?it)) = dom (vec_map_get (ia_all it))"
      "batched ?it = batched it1" "ia_id_to_retry ?it = ia_id_to_retry it @ (if ok then [] else [i])"
    using wf d by (auto simp: interactor_wf_def batched_def)
  with Cons.prems(2) have "set ids \<subseteq> dom (vec_map_get (ia_all ?it))" by auto
  from Cons.IH[OF w(1) this, of qs1] obtain it2 qs2 r where
    "flush_ids dbg frees ids (?it, qs1) = Inr (it2, qs2)" "interactor_wf Q it2"
    "batched it2 + queued Q qs2 = batched ?it + queued Q qs1"
    "dom (vec_map_get (ia_all it2)) = dom (vec_map_get (ia_all ?it))"
    "ia_id_to_retry it2 = ia_id_to_retry ?it @ r" "set r \<subseteq> set ids" by blast
  note IH = this
  have "flush_ids dbg frees (i # ids) (it, qs) = Inr (it2, qs2)" using a IH(1) by simp
  moreover have "batched it2 + queued Q qs2 = batched it + queued Q qs" using IH(3) w(3) bal by simp
  moreover have "ia_id_to_retry it2 = ia_id_to_retry it @ ((if ok then [] else [i]) @ r)" using IH(5) w(4) by simp
  moreover have "set ((if ok then [] else [i]) @ r) \<subseteq> set (i # ids)" using IH(6) by auto
  ultimately show ?case using IH(2,4) w(2) by blast
qed (simp add: exI[of _ "[]"])

lemma retry_ids_ok:
  assumes "finite Q"
  shows "interactor_wf Q it \<Longrightarrow> set ids \<subseteq> dom (vec_map_get (ia_all it)) \<Longrightarrow>
    \<exists>it' qs'. retry_ids dbg frees ids (it, qs) = Inr (it', qs') \<and> interactor_wf Q it' \<and>
      batched it' + queued Q qs' = batched it + queued Q qs \<and> ia_id_to_retry it' = ia_id_to_retry it"
proof (induction ids arbitrary: it qs)
  case (Cons i ids)
  then have "vec_map_get (ia_all it) i \<noteq> None" by auto
  then obtain ok it1 qs1 where a: "append_batches dbg (frees i) i (it, qs) = Inr (ok, it1, qs1)"
    and w: "interactor_wf Q it1" "batched it1 + queued Q qs1 = batched it + queued Q qs"
      "dom (vec_map_get (ia_all it1)) = dom (vec_map_get (ia_all it))" "ia_id_to_retry it1 = ia_id_to_retry it"
    by (rule append_batches_ok[OF assms Cons.prems(1)])
  with Cons.prems(2) have "set ids \<subseteq> dom (vec_map_get (ia_all it1))" by auto
  from Cons.IH[OF w(1) this, of qs1] obtain it2 qs2 where IH: "retry_ids dbg frees ids (it1, qs1) = Inr (it2, qs2)"
    "interactor_wf Q it2" "batched it2 + queued Q qs2 = batched it1 + queued Q qs1"
    "ia_id_to_retry it2 = ia_id_to_retry it1" by blast
  have "retry_ids dbg frees (i # ids) (it, qs) = Inr (it2, qs2)" using a IH(1) by simp
  moreover have "batched it2 + queued Q qs2 = batched it + queued Q qs" using IH(3) w(2) by simp
  ultimately show ?case using IH(2,4) w(4) by force
qed simp

lemma try_to_take_balance:
  assumes "finite Q" and "interactor_wf Q it" and "interactor_try_to_take_tasks free it ls ss qs = (ok, ls', ss', qs')"
  shows "untagged ls' + untagged ss' + queued Q qs' = untagged ls + untagged ss + queued Q qs"
proof (cases free)
  case True
  then have "ls' = ls @ tdq_local_tasks (qs (ia_queue it))" "ss' = ss @ tdq_shared_tasks (qs (ia_queue it))"
    "qs' = qs(ia_queue it := task_deque_new)"
    using assms(3) by (auto simp: interactor_try_to_take_tasks_def try_to_take_batch_of_tasks_def)
  moreover have "ia_queue it \<in> Q" using assms(2) by (simp add: interactor_wf_def)
  ultimately show ?thesis
    using queued_update[OF assms(1), of "ia_queue it" qs task_deque_new]
    by (simp add: queue_tasks_def task_deque_new_def ac_simps)
next
  case False
  with assms(3) show ?thesis
    by (simp add: interactor_try_to_take_tasks_def try_to_take_batch_of_tasks_def)
qed

lemma interactor_send_wf:
  "interactor_wf Q it \<Longrightarrow> interactor_send t i it = (r, it') \<Longrightarrow> interactor_wf Q it'"
  by (auto simp: interactor_send_def interactor_wf_def vec_map_modify_get send_list_wf_def
      split: option.splits if_splits)

lemma interactor_flush_ok:
  assumes "finite Q" and "interactor_wf Q it" and "ia_id_to_retry it = []"
  shows "\<exists>it' qs'. interactor_flush dbg frees (it, qs) = Inr (it', qs') \<and> interactor_wf Q it' \<and>
    batched it' + queued Q qs' = batched it + queued Q qs \<and>
    set (ia_id_to_retry it') \<subseteq> dom (vec_map_get (ia_all it'))"
proof -
  have ids: "set (map fst (vec_map_iter (ia_all it))) = dom (vec_map_get (ia_all it))"
    using vm.keys_entries[of "ia_all it"] by simp
  from flush_ids_ok[OF assms(1,2), of "map fst (vec_map_iter (ia_all it))" dbg frees qs] ids assms(3)
  show ?thesis by (auto simp: interactor_flush_def)
qed

lemma interactor_do_work_balance:
  assumes "finite Q" and "interactor_wf Q it" and "ia_id_to_retry it = []"
  shows "\<exists>it2 ls' ss' qs'. interactor_do_work dbg free1 free2 frees retries now it ls ss qs = Inr (it2, ls', ss', qs') \<and>
    interactor_wf Q it2 \<and> ia_id_to_retry it2 = [] \<and>
    untagged ls' + untagged ss' + batched it2 + queued Q qs' = untagged ls + untagged ss + batched it + queued Q qs"
proof -
  have w1: "interactor_wf Q (it\<lparr>ia_last_executed_time := now\<rparr>)" "interactor_wf Q it"
      "ia_id_to_retry (it\<lparr>ia_last_executed_time := now\<rparr>) = []" "ia_id_to_retry it = []"
    using assms(2,3) by (auto simp: interactor_wf_def)
  let ?it = "it\<lparr>ia_last_executed_time := now\<rparr>"
  obtain ok ls1 ss1 qs1 where t1: "interactor_try_to_take_tasks free1 ?it ls ss qs = (ok, ls1, ss1, qs1)"
    using prod_cases4 by blast
  obtain it2 qs2 where f: "interactor_flush dbg frees (?it, qs1) = Inr (it2, qs2)" "interactor_wf Q it2"
      "batched it2 + queued Q qs2 = batched ?it + queued Q qs1"
      "set (ia_id_to_retry it2) \<subseteq> dom (vec_map_get (ia_all it2))"
    using interactor_flush_ok[OF assms(1) w1(1,3)] by blast
  obtain ok2 ls2 ss2 qs3 where t2: "(if \<not> ok then interactor_try_to_take_tasks free2 it2 ls1 ss1 qs2
      else (True, ls1, ss1, qs2)) = (ok2, ls2, ss2, qs3)" using prod_cases4 by blast
  have b2: "untagged ls2 + untagged ss2 + queued Q qs3 = untagged ls1 + untagged ss1 + queued Q qs2"
    using t2 try_to_take_balance[OF assms(1) f(2)] by (auto split: if_splits)
  have "interactor_wf Q (it2\<lparr>ia_id_to_retry := []\<rparr>)" using f(2) by (simp add: interactor_wf_def)
  from retry_ids_ok[OF assms(1) this, of "ia_id_to_retry it2" dbg retries qs3] f(4)
  obtain it3 qs4 where rf: "interactor_retry_flush dbg retries (it2, qs3) = Inr (it3, qs4)" "interactor_wf Q it3"
      "batched it3 + queued Q qs4 = batched it2 + queued Q qs3" "ia_id_to_retry it3 = []"
    by (auto simp: interactor_retry_flush_def batched_def)
  have b: "untagged ls2 + untagged ss2 + batched it3 + queued Q qs4 = untagged ls + untagged ss + batched it + queued Q qs"
  proof -
    have "untagged ls2 + untagged ss2 + batched it3 + queued Q qs4 = untagged ls2 + untagged ss2 + queued Q qs3 + batched it2"
      using rf(3) by (simp add: add.assoc add.commute[of "queued Q qs3"])
    also have "\<dots> = untagged ls1 + untagged ss1 + (batched it2 + queued Q qs2)" unfolding b2 by (simp add: ac_simps)
    also have "\<dots> = untagged ls1 + untagged ss1 + queued Q qs1 + batched it"
      unfolding f(3) by (simp add: batched_def ac_simps)
    finally show ?thesis using try_to_take_balance[OF assms(1) w1(1) t1] by (simp add: ac_simps)
  qed
  have "interactor_do_work dbg free1 free2 frees retries now it ls ss qs =
    (if now - ia_last_executed_time it < 64000 then Inr (it, ls, ss, qs) else Inr (it3, ls2, ss2, qs4))"
    using t1 f(1) t2 rf(1) by (simp add: interactor_do_work_def Let_def)
  with w1 rf b show ?thesis by (auto split: if_splits)
qed

section \<open>Properties\<close>

text \<open>
  C10. \<open>Interactor::send_task_to_executor\<close> accepts a task exactly for a registered executor and puts
  it into the batch of its locality. One round of \<open>do_work\<close>, whichever lock attempts fail, returns
  without a panic and without retrying an executor that is gone, leaves nothing to retry, and
  moves tasks without losing or duplicating any: the tasks of the executor's queues, of its
  batches and of all receive queues are the same before and after.
\<close>

theorem interactor_loses_no_task:
  assumes "finite Q" and "interactor_wf Q it" and "ia_id_to_retry it = []"
    and "interactor_send t i it = (r, it1)"
  shows "(send_task_result_is_ok r \<longleftrightarrow> vec_map_get (ia_all it) i \<noteq> None) \<and>
    batched it1 = batched it + (if send_task_result_is_ok r then untagged [t] else {#}) \<and>
    (\<exists>it2 ls' ss' qs'. interactor_do_work dbg free1 free2 frees retries now it1 ls ss qs = Inr (it2, ls', ss', qs') \<and>
       interactor_wf Q it2 \<and> ia_id_to_retry it2 = [] \<and>
       untagged ls' + untagged ss' + batched it2 + queued Q qs' = untagged ls + untagged ss + batched it1 + queued Q qs)"
proof -
  have send: "(send_task_result_is_ok r \<longleftrightarrow> vec_map_get (ia_all it) i \<noteq> None) \<and>
      batched it1 = batched it + (if send_task_result_is_ok r then untagged [t] else {#})"
  proof (cases "vec_map_get (ia_all it) i")
    case (Some e)
    let ?f = "\<lambda>e. if task_is_local t then e\<lparr>sl_local_batch := sl_local_batch e @ [t]\<rparr>
      else e\<lparr>sl_shared_batch := sl_shared_batch e @ [t]\<rparr>"
    have "batch_tasks (Some (?f e)) = untagged [t] + batch_tasks (Some e)"
      by (simp add: batch_tasks_def ac_simps)
    with batched_modify[OF Some, of ?f]
    have "batched (it\<lparr>ia_all := vec_map_modify i ?f (ia_all it)\<rparr>) + batch_tasks (Some e) =
      (batched it + untagged [t]) + batch_tasks (Some e)" by (simp only: add.assoc)
    then have "batched (it\<lparr>ia_all := vec_map_modify i ?f (ia_all it)\<rparr>) = batched it + untagged [t]"
      by (simp only: add_right_cancel)
    with assms(4) Some show ?thesis by (auto simp: interactor_send_def send_task_result_is_ok_def)
  qed (use assms(4) in \<open>simp add: interactor_send_def send_task_result_is_ok_def\<close>)
  have "interactor_wf Q it1" "ia_id_to_retry it1 = []"
    using interactor_send_wf[OF assms(2,4)] assms(3,4) by (auto simp: interactor_send_def split: option.splits)
  from send interactor_do_work_balance[OF assms(1) this] show ?thesis by blast
qed

definition demo_task :: task where
  "demo_task = \<lparr>task_data = \<lparr>td_tagged_ptr = 0\<rparr>, task_executor_id = 3, task_is_executing = 0\<rparr>"

definition demo_interactor :: interactor where
  "demo_interactor = (interactor_new 0)\<lparr>ia_all := \<lparr>vm_inner = [None, Some (send_list_new 1)]\<rparr>\<rparr>"

theorem interactor_loses_no_task_witness:
  "\<exists>it1 it2 qs. interactor_send demo_task 1 demo_interactor = (SendOk, it1) \<and>
     interactor_do_work True True True (\<lambda>_. False) (\<lambda>_. True) 100000 it1 [] [] (\<lambda>_. task_deque_new) = Inr (it2, [], [], qs) \<and>
     batched it2 + queued {0, 1} qs = untagged [demo_task] \<and> tdq_shared_tasks (qs 1) = [demo_task]"
proof -
  obtain r it1 where s: "interactor_send demo_task 1 demo_interactor = (r, it1)" by fastforce
  have wf: "interactor_wf {0, 1} demo_interactor" "ia_id_to_retry demo_interactor = []"
    by (auto simp: interactor_wf_def demo_interactor_def interactor_new_def vec_map_get_def send_list_wf_def
        send_list_new_def nth_Cons split: nat.splits if_splits)
  have "batched demo_interactor = {#}" "queued {0, 1} (\<lambda>_. task_deque_new) = {#}"
      "vec_map_get (ia_all demo_interactor) 1 \<noteq> None"
    by (simp_all add: batched_def demo_interactor_def batch_tasks_def send_list_new_def queued_def
        queue_tasks_def task_deque_new_def vec_map_get_def)
  with interactor_loses_no_task[OF _ wf s, of True True True "\<lambda>_. False" "\<lambda>_. True" 100000 "[]" "[]" "\<lambda>_. task_deque_new"]
  obtain it2 ls ss qs where w: "interactor_do_work True True True (\<lambda>_. False) (\<lambda>_. True) 100000 it1 [] []
      (\<lambda>_. task_deque_new) = Inr (it2, ls, ss, qs)" and r: "r = SendOk"
    and b: "untagged ls + untagged ss + batched it2 + queued {0, 1} qs = untagged [demo_task]"
    by (auto simp: send_task_result_is_ok_def)
  have "(case interactor_do_work True True True (\<lambda>_. False) (\<lambda>_. True) 100000
      (snd (interactor_send demo_task 1 demo_interactor)) [] [] (\<lambda>_. task_deque_new) of
      Inr (it2, ls, ss, qs) \<Rightarrow> ls = [] \<and> ss = [] \<and> tdq_shared_tasks (qs 1) = [demo_task] | Inl _ \<Rightarrow> False)"
    by (simp add: interactor_send_def demo_interactor_def interactor_new_def vec_map_get_def vec_map_modify_def
        send_list_new_def demo_task_def task_is_local_def task_data_is_local_def interactor_do_work_def Let_def
        interactor_try_to_take_tasks_def try_to_take_batch_of_tasks_def interactor_flush_def vec_map_iter_def
        append_batches_def try_to_append_tasks_def interactor_retry_flush_def task_deque_new_def)
  with s w r b show ?thesis by auto
qed

end
