(* ===== verification/Executor_Core.thy ===== *)
theory Executor_Core
  imports Executor_Config Task_Exchange
begin

text \<open>
  The executor (\<open>src/src/runtime/executor/executor.rs\<close>) with what it drives directly: its queues,
  the calls a future leaves for it, the depth limit of \<open>exec_task\<close>, work sharing, sleeping tasks
  (\<open>src/src/sleep.rs\<close>), the thread pool (\<open>src/src/runtime/local_thread_pool\<close>), the progressive
  timeout and the rounds of its loop. Polling a future is an argument: it may do anything to the
  executor.
\<close>

section \<open>The thread pool\<close>

text \<open>
  A worker receives from its own channel, runs the job and pushes the task to the list of results.
  A job is named by a number.
\<close>

record thread_worker_task =
  wt_task :: task
  wt_job :: nat

record thread_pool =
  tp_wait :: nat
  tp_workers :: "thread_worker_task list list"
  tp_result_list :: "task list"

definition thread_pool_new :: "nat \<Rightarrow> thread_pool" where
  "thread_pool_new number_of_workers =
     \<lparr>tp_wait = 0, tp_workers = replicate number_of_workers [], tp_result_list = []\<rparr>"

text \<open>The remainder by zero workers panics.\<close>

definition thread_pool_push :: "task \<Rightarrow> nat \<Rightarrow> thread_pool \<Rightarrow> thread_pool res" where
  "thread_pool_push t job p =
     (if length (tp_workers p) = 0 then Inl Asserted
      else let i = tp_wait p mod length (tp_workers p) in
        Inr (p\<lparr>tp_workers := (tp_workers p)[i := tp_workers p ! i @ [\<lparr>wt_task = t, wt_job = job\<rparr>]],
               tp_wait := tp_wait p + 1\<rparr>))"

text \<open>One turn of the worker \<open>i\<close>: the job, then the push, which a debug build refuses for a local task.\<close>

definition thread_worker_run_once :: "bool \<Rightarrow> nat \<Rightarrow> thread_pool \<Rightarrow> (nat option \<times> thread_pool) res" where
  "thread_worker_run_once dbg i p =
     (case tp_workers p ! i of
        [] \<Rightarrow> Inr (None, p)
      | w # ws \<Rightarrow>
          if dbg \<and> task_is_local (wt_task w) then Inl Asserted
          else Inr (Some (wt_job w), p\<lparr>tp_workers := (tp_workers p)[i := ws],
                                     tp_result_list := tp_result_list p @ [wt_task w]\<rparr>))"

definition thread_pool_poll :: "bool \<Rightarrow> task list \<Rightarrow> thread_pool \<Rightarrow> (bool \<times> task list \<times> thread_pool) res" where
  "thread_pool_poll dbg other p =
     (if tp_wait p = 0 then Inr (False, other, p)
      else let other' = other @ tp_result_list p in
        bindR (usize_sub dbg (tp_wait p) (length other' - length other)) (\<lambda>wait.
          Inr (True, other', p\<lparr>tp_wait := wait, tp_result_list := []\<rparr>)))"

section \<open>The progressive timeout\<close>

text \<open>In microseconds, on 64 bits: \<open>ProgressiveTimeout<64, 131_072>\<close>.\<close>

type_synonym progressive_timeout = "64 word"

definition progressive_timeout_new :: "64 word \<Rightarrow> progressive_timeout" where
  "progressive_timeout_new start = max (drop_bit 1 start) 1"

definition progressive_timeout_timeout :: "64 word \<Rightarrow> progressive_timeout \<Rightarrow> 64 word \<times> progressive_timeout" where
  "progressive_timeout_timeout last_dur cur =
     (let cur' = (if cur < last_dur then push_bit 1 cur else cur) in (cur', cur'))"

definition progressive_timeout_with_shift ::
  "64 word \<Rightarrow> nat \<Rightarrow> progressive_timeout \<Rightarrow> 64 word \<times> progressive_timeout" where
  "progressive_timeout_with_shift last_dur shift cur =
     (let cur' = (if cur < last_dur then push_bit 1 cur else cur) in (push_bit shift cur', cur'))"

definition progressive_timeout_reset :: "64 word \<Rightarrow> progressive_timeout" where
  "progressive_timeout_reset start = max (drop_bit 1 start) 1"

section \<open>The executor\<close>

text \<open>
  The calls point to lists of tasks, counters and flags, which are named by numbers; their
  contents are part of the state.
\<close>

datatype call =
    CallNone
  | PushCurrentTaskAtTheStartOfLIFOSharedQueue
  | PushCurrentTaskTo nat
  | PushCurrentTaskToAndRemoveItIfCounterIsZero nat nat
  | ReleaseAtomicBool nat
  | PushFnToThreadPool nat
  | ChangeCurrentTaskLocality locality

definition call_is_none :: "call \<Rightarrow> bool" where
  "call_is_none c = (case c of CallNone \<Rightarrow> True | _ \<Rightarrow> False)"

text \<open>\<open>PartialEq\<close> of calls compares discriminants.\<close>

fun call_eq :: "call \<Rightarrow> call \<Rightarrow> bool" where
  "call_eq CallNone d = call_is_none d"
| "call_eq PushCurrentTaskAtTheStartOfLIFOSharedQueue d =
     (case d of PushCurrentTaskAtTheStartOfLIFOSharedQueue \<Rightarrow> True | _ \<Rightarrow> False)"
| "call_eq (PushCurrentTaskTo _) d = (case d of PushCurrentTaskTo _ \<Rightarrow> True | _ \<Rightarrow> False)"
| "call_eq (PushCurrentTaskToAndRemoveItIfCounterIsZero _ _) d =
     (case d of PushCurrentTaskToAndRemoveItIfCounterIsZero _ _ \<Rightarrow> True | _ \<Rightarrow> False)"
| "call_eq (ReleaseAtomicBool _) d = (case d of ReleaseAtomicBool _ \<Rightarrow> True | _ \<Rightarrow> False)"
| "call_eq (PushFnToThreadPool _) d = (case d of PushFnToThreadPool _ \<Rightarrow> True | _ \<Rightarrow> False)"
| "call_eq (ChangeCurrentTaskLocality _) d = (case d of ChangeCurrentTaskLocality _ \<Rightarrow> True | _ \<Rightarrow> False)"

record executor =
  ex_id :: nat
  ex_config :: valid_config
  ex_progressive_timeout :: progressive_timeout
  ex_exec_series :: nat
  ex_current_call :: call
  ex_start_round_time :: nat
  ex_start_round_time_for_deadlines :: nat
  ex_local_tasks :: "task list"
  ex_shared_tasks :: "task list"
  ex_shared_tasks_list :: "task list option"
  ex_thread_pool :: thread_pool
  ex_sleeping_tasks :: "(nat \<times> task) list"
  ex_lists :: "nat \<Rightarrow> task list"
  ex_counters :: "nat \<Rightarrow> nat"
  ex_bools :: "nat \<Rightarrow> bool"
  ex_executing :: "64 word \<Rightarrow> bool"
  ex_released :: "task list"

text \<open>
  \<open>init_on_core_with_config\<close> after the configuration was validated. Times are in nanoseconds.
  The two start times read the clock separately.
\<close>

definition executor_init :: "nat \<Rightarrow> valid_config \<Rightarrow> nat \<Rightarrow> nat \<Rightarrow> executor" where
  "executor_init i c now1 now2 =
     \<lparr>ex_id = i, ex_config = c, ex_progressive_timeout = progressive_timeout_new 64,
      ex_exec_series = 0, ex_current_call = CallNone,
      ex_start_round_time = now1, ex_start_round_time_for_deadlines = now2 + 100000,
      ex_local_tasks = [], ex_shared_tasks = [],
      ex_shared_tasks_list = (if valid_config_is_work_sharing_enabled c then Some [] else None),
      ex_thread_pool = thread_pool_new (unat (vc_number_of_thread_workers c)),
      ex_sleeping_tasks = [], ex_lists = (\<lambda>_. []), ex_counters = (\<lambda>_. 0), ex_bools = (\<lambda>_. False),
      ex_executing = (\<lambda>_. False),      ex_released = []\<rparr>"

definition add_task_at_the_start_of_lifo_local_queue :: "bool \<Rightarrow> task \<Rightarrow> executor \<Rightarrow> executor res" where
  "add_task_at_the_start_of_lifo_local_queue dbg t e =
     (if dbg \<and> \<not> task_is_local t then Inl DebugAssert
      else Inr (e\<lparr>ex_local_tasks := t # ex_local_tasks e\<rparr>))"

definition add_task_at_the_start_of_lifo_shared_queue :: "bool \<Rightarrow> task \<Rightarrow> executor \<Rightarrow> executor res" where
  "add_task_at_the_start_of_lifo_shared_queue dbg t e =
     (if dbg \<and> task_is_local t then Inl DebugAssert
      else Inr (e\<lparr>ex_shared_tasks := t # ex_shared_tasks e\<rparr>))"

definition number_of_spawned_tasks :: "executor \<Rightarrow> nat" where
  "number_of_spawned_tasks e = length (ex_shared_tasks e) + length (ex_local_tasks e)"

definition invoke_call :: "bool \<Rightarrow> call \<Rightarrow> executor \<Rightarrow> executor res" where
  "invoke_call dbg c e =
     (if dbg \<and> \<not> call_is_none (ex_current_call e) then Inl DebugAssert else Inr (e\<lparr>ex_current_call := c\<rparr>))"

definition spawn_local_task :: "bool \<Rightarrow> task \<Rightarrow> executor \<Rightarrow> executor res" where
  "spawn_local_task dbg t e =
     (if dbg \<and> \<not> task_is_local t then Inl DebugAssert
      else Inr (e\<lparr>ex_local_tasks := ex_local_tasks e @ [t]\<rparr>))"

text \<open>
  \<open>try_flush\<close> moves the older half of the shared tasks, and one more, to the list others take
  from, if its lock is free; \<open>drain\<close> past the end panics.
\<close>

definition try_flush :: "bool \<Rightarrow> executor \<Rightarrow> executor res" where
  "try_flush free e =
     (case ex_shared_tasks_list e of
        None \<Rightarrow> Inl Undefined
      | Some l \<Rightarrow>
          if free then
            (let number_of_shared = length (ex_shared_tasks e) div 2 + 1 in
             if length (ex_shared_tasks e) < number_of_shared then Inl Asserted
             else Inr (e\<lparr>ex_shared_tasks_list := Some (l @ take number_of_shared (ex_shared_tasks e)),
                         ex_shared_tasks := drop number_of_shared (ex_shared_tasks e)\<rparr>))
          else Inr e)"

definition spawn_shared_task :: "bool \<Rightarrow> bool \<Rightarrow> task \<Rightarrow> executor \<Rightarrow> executor res" where
  "spawn_shared_task dbg free t e =
     (if dbg \<and> task_is_local t then Inl DebugAssert
      else if valid_config_is_work_sharing_enabled (ex_config e) then
        (if length (ex_shared_tasks e) \<le> unat (vc_work_sharing_level (ex_config e)) then
           Inr (e\<lparr>ex_shared_tasks := ex_shared_tasks e @ [t]\<rparr>)
         else bindR (try_flush free e) (\<lambda>e'. Inr (e'\<lparr>ex_shared_tasks := ex_shared_tasks e' @ [t]\<rparr>)))
      else Inr (e\<lparr>ex_shared_tasks := ex_shared_tasks e @ [t]\<rparr>))"

definition spawn_task :: "bool \<Rightarrow> bool \<Rightarrow> task \<Rightarrow> executor \<Rightarrow> executor res" where
  "spawn_task dbg free t e =
     (if task_is_local t then spawn_local_task dbg t e else spawn_shared_task dbg free t e)"

definition send_task_to_executor ::
  "bool \<Rightarrow> bool \<Rightarrow> task \<Rightarrow> nat \<Rightarrow> executor \<times> interactor \<Rightarrow> (send_task_result \<times> executor \<times> interactor) res" where
  "send_task_to_executor dbg free t executor_id w =
     (case w of (e, it) \<Rightarrow>
       if executor_id \<noteq> ex_id e then
         (case interactor_send t executor_id it of (r, it') \<Rightarrow> Inr (r, e, it'))
       else bindR (spawn_task dbg free t e) (\<lambda>e'. Inr (SendOk, e', it)))"

section \<open>Executing tasks\<close>

text \<open>
  \<open>handle_call\<close> does what the future asked for after it returned \<open>Pending\<close>; \<open>exec\<close> is \<open>exec_task\<close>,
  which may not return. \<open>free\<close> says of a state whether the lock of the own list is free.
\<close>

type_synonym exec_fun = "task \<Rightarrow> executor \<Rightarrow> executor res option"

definition handle_call :: "bool \<Rightarrow> (executor \<Rightarrow> bool) \<Rightarrow> exec_fun \<Rightarrow> task \<Rightarrow> executor \<Rightarrow> executor res option" where
  "handle_call dbg free exec t e =
     (let e0 = e\<lparr>ex_current_call := CallNone\<rparr> in
      case ex_current_call e of
        CallNone \<Rightarrow> Some (Inr e0)
      | PushCurrentTaskAtTheStartOfLIFOSharedQueue \<Rightarrow>
          Some (Inr (e0\<lparr>ex_shared_tasks := t # ex_shared_tasks e0\<rparr>))
      | PushCurrentTaskTo l \<Rightarrow>
          (if dbg \<and> task_is_local t then Some (Inl Asserted)
           else Some (Inr (e0\<lparr>ex_lists := (ex_lists e0)(l := ex_lists e0 l @ [t])\<rparr>)))
      | PushCurrentTaskToAndRemoveItIfCounterIsZero l counter \<Rightarrow>
          (if dbg \<and> task_is_local t then Some (Inl Asserted)
           else
             let e1 = e0\<lparr>ex_lists := (ex_lists e0)(l := ex_lists e0 l @ [t])\<rparr> in
             if ex_counters e1 counter = 0 then
               (case pop_back (ex_lists e1 l) of
                  (Some u, rest) \<Rightarrow> exec u (e1\<lparr>ex_lists := (ex_lists e1)(l := rest)\<rparr>)
                | (None, _) \<Rightarrow> Some (Inr e1))
             else Some (Inr e1))
      | ReleaseAtomicBool b \<Rightarrow> Some (Inr (e0\<lparr>ex_bools := (ex_bools e0)(b := False)\<rparr>))
      | PushFnToThreadPool f \<Rightarrow>
          (if dbg \<and> vc_number_of_thread_workers (ex_config e0) = 0 then Some (Inl DebugAssert)
           else Some (bindR (thread_pool_push t f (ex_thread_pool e0)) (\<lambda>p. Inr (e0\<lparr>ex_thread_pool := p\<rparr>))))
      | ChangeCurrentTaskLocality l \<Rightarrow>
          let t' = t\<lparr>task_data := task_data_set_locality l (task_data t)\<rparr> in
          if task_is_local t' \<noteq> locality_is_local l then Some (Inl Asserted)
          else if locality_is_local l then Some (spawn_local_task dbg t' e0)
          else Some (spawn_shared_task dbg (free e0) t' e0))"

text \<open>Polling the future of a task: what it returns and the executor after it, or a panic.\<close>

type_synonym poll_fun = "task \<Rightarrow> executor \<Rightarrow> (unit poll \<times> executor) res"

definition exec_task_now ::
  "bool \<Rightarrow> bool \<Rightarrow> (executor \<Rightarrow> bool) \<Rightarrow> poll_fun \<Rightarrow> exec_fun \<Rightarrow> task \<Rightarrow> executor \<Rightarrow> executor res option" where
  "exec_task_now dbg test free poll exec t e =
     (let e1 = e\<lparr>ex_exec_series := ex_exec_series e + 1\<rparr>;
          flag = (\<lambda>b e. if dbg then e\<lparr>ex_executing := (ex_executing e)(task_is_executing t := b)\<rparr> else e) in
      case (if dbg then task_check_safety test (ex_id e1) (ex_executing e1 (task_is_executing t)) t else Inr t) of
        Inl p \<Rightarrow> Some (Inl p)
      | Inr t' \<Rightarrow>
          (case poll t' (flag True e1) of
             Inl p \<Rightarrow> Some (Inl p)
           | Inr (r, e2) \<Rightarrow>
               let e3 = flag False e2 in
               (case r of
                  Ready _ \<Rightarrow>
                    if dbg \<and> \<not> call_eq (ex_current_call e3) CallNone then Some (Inl DebugAssert)
                    else Some (Inr (e3\<lparr>ex_released := t' # ex_released e3\<rparr>))
                | Pending \<Rightarrow>
                    if \<not> call_is_none (ex_current_call e3) then handle_call dbg free exec t' e3
                    else Some (Inr e3))))"

text \<open>
  \<open>exec_task\<close> runs the task at once up to a depth of 63 and queues it otherwise. The fuel bounds
  the chain of calls that hand over to another task; \<open>None\<close> is a chain that is longer.
\<close>

fun exec_task :: "nat \<Rightarrow> bool \<Rightarrow> bool \<Rightarrow> (executor \<Rightarrow> bool) \<Rightarrow> poll_fun \<Rightarrow> exec_fun" where
  "exec_task 0 dbg test free poll t e = None"
| "exec_task (Suc fuel) dbg test free poll t e =
     (if ex_exec_series e < 63 then
        exec_task_now dbg test free poll (exec_task fuel dbg test free poll) t e
      else
        let e' = e\<lparr>ex_exec_series := 0\<rparr> in
        if task_is_local t then Some (spawn_local_task dbg t e')
        else Some (spawn_shared_task dbg (free e') t e'))"

section \<open>A round\<close>

definition bindO :: "'a res option \<Rightarrow> ('a \<Rightarrow> 'b res option) \<Rightarrow> 'b res option" where
  "bindO r f = (case r of None \<Rightarrow> None | Some (Inl p) \<Rightarrow> Some (Inl p) | Some (Inr a) \<Rightarrow> f a)"

definition prepare_to_new_round :: "nat \<Rightarrow> executor \<Rightarrow> executor" where
  "prepare_to_new_round now e =
     e\<lparr>ex_exec_series := 0, ex_start_round_time := now, ex_start_round_time_for_deadlines := now + 100000\<rparr>"

text \<open>The tasks that were queued at the start of the round; the newest first.\<close>

fun exec_local_tasks :: "bool \<Rightarrow> exec_fun \<Rightarrow> nat \<Rightarrow> executor \<Rightarrow> executor res option" where
  "exec_local_tasks dbg exec 0 e = Some (Inr e)"
| "exec_local_tasks dbg exec (Suc n) e =
     (case pop_back (ex_local_tasks e) of
        (None, _) \<Rightarrow> Some (Inl (if dbg then DebugAssert else Undefined))
      | (Some t, rest) \<Rightarrow> bindO (exec t (e\<lparr>ex_local_tasks := rest\<rparr>)) (exec_local_tasks dbg exec n))"

fun exec_shared_tasks :: "exec_fun \<Rightarrow> nat \<Rightarrow> executor \<Rightarrow> executor res option" where
  "exec_shared_tasks exec 0 e = Some (Inr e)"
| "exec_shared_tasks exec (Suc n) e =
     (case pop_back (ex_shared_tasks e) of
        (None, _) \<Rightarrow> Some (Inr e)
      | (Some t, rest) \<Rightarrow> bindO (exec t (e\<lparr>ex_shared_tasks := rest\<rparr>)) (exec_shared_tasks exec n))"

definition exec_cpu_tasks :: "bool \<Rightarrow> exec_fun \<Rightarrow> executor \<Rightarrow> executor res option" where
  "exec_cpu_tasks dbg exec e =
     bindO (exec_local_tasks dbg exec (length (ex_local_tasks e)) e)
       (\<lambda>e'. exec_shared_tasks exec (length (ex_shared_tasks e')) e')"

text \<open>\<open>take_work_if_needed\<close>: from the own list first, then from some neighbours.\<close>

fun pop_shared :: "nat \<Rightarrow> task list \<Rightarrow> task list \<Rightarrow> task list \<times> task list" where
  "pop_shared 0 l shared = (l, shared)"
| "pop_shared (Suc n) l shared =
     (case pop_back l of
        (Some t, rest) \<Rightarrow> pop_shared n rest (shared @ [t])
      | (None, _) \<Rightarrow> pop_shared n l shared)"

definition MAX_NUMBER_OF_TASKS_TAKEN :: nat where
  "MAX_NUMBER_OF_TASKS_TAKEN = 16"

fun take_from_neighbours ::
  "bool \<Rightarrow> (bool \<times> shared_task_list) list \<Rightarrow> executor \<Rightarrow> (shared_task_list list \<times> executor) res" where
  "take_from_neighbours dbg [] e = Inr ([], e)"
| "take_from_neighbours dbg ((free, l) # ls) e =
     bindR (usize_sub dbg MAX_NUMBER_OF_TASKS_TAKEN (length (ex_shared_tasks e))) (\<lambda>limit.
       if limit = 0 then Inr (l # map snd ls, e)
       else (case shared_task_list_take_batch free limit (ex_shared_tasks e) l of
               (shared, l') \<Rightarrow>
                 bindR (take_from_neighbours dbg ls (e\<lparr>ex_shared_tasks := shared\<rparr>)) (\<lambda>(ls', e').
                   Inr (l' # ls', e'))))"

text \<open>
  \<open>own_free\<close> is the lock of the own list, \<open>neighbours\<close> are the lists of the others with the state
  of their locks, \<open>max_number_of_tries\<close> is one more than the random number below their number.
\<close>

definition take_work_if_needed ::
  "bool \<Rightarrow> bool \<Rightarrow> nat \<Rightarrow> (bool \<times> shared_task_list) list \<Rightarrow> executor \<Rightarrow> (shared_task_list list \<times> executor) res" where
  "take_work_if_needed dbg own_free max_number_of_tries neighbours e =
     (if length (ex_shared_tasks e) \<ge> unat (vc_work_sharing_level (ex_config e)) then Inr (map snd neighbours, e)
      else
        (case ex_shared_tasks_list e of
           None \<Rightarrow> Inr (map snd neighbours, e)
         | Some l \<Rightarrow>
             if own_free \<and> l \<noteq> [] then
               (let limit = unat (vc_work_sharing_level (ex_config e)) - length (ex_shared_tasks e) in
                case pop_shared limit l (ex_shared_tasks e) of
                  (l', shared) \<Rightarrow>
                    Inr (map snd neighbours, e\<lparr>ex_shared_tasks_list := Some l', ex_shared_tasks := shared\<rparr>))
             else if neighbours = [] then Inr ([], e)
             else
               bindR (take_from_neighbours dbg (take max_number_of_tries neighbours) e) (\<lambda>(ls, e').
                 Inr (ls @ map snd (drop max_number_of_tries neighbours), e'))))"

section \<open>Sleeping tasks\<close>

text \<open>The \<open>BTreeMap\<close> of sleeping tasks: an association list in the order of the keys.\<close>

fun btree_insert :: "nat \<Rightarrow> 'v \<Rightarrow> (nat \<times> 'v) list \<Rightarrow> (nat \<times> 'v) list" where
  "btree_insert k v [] = [(k, v)]"
| "btree_insert k v ((k', v') # m) =
     (if k < k' then (k, v) # (k', v') # m
      else if k = k' then (k, v) # m
      else (k', v') # btree_insert k v m)"

lemma sleep_slot_decreases:
  "t \<in> set ks \<Longrightarrow> card {k \<in> set ks. Suc t \<le> k} < card {k \<in> set ks. t \<le> k}"
proof (rule psubset_card_mono)
  assume "t \<in> set ks"
  then have "t \<in> {k \<in> set ks. t \<le> k}" "t \<notin> {k \<in> set ks. Suc t \<le> k}" by simp_all
  moreover have "{k \<in> set ks. Suc t \<le> k} \<subseteq> {k \<in> set ks. t \<le> k}" by (simp add: subset_iff)
  ultimately show "{k \<in> set ks. Suc t \<le> k} \<subset> {k \<in> set ks. t \<le> k}" by blast
qed simp

text \<open>\<open>Sleep::poll\<close> looks for the first free nanosecond from its deadline on.\<close>

function sleep_slot :: "nat list \<Rightarrow> nat \<Rightarrow> nat" where
  "sleep_slot ks sleep_until = (if sleep_until \<in> set ks then sleep_slot ks (sleep_until + 1) else sleep_until)"
  by auto
termination
  by (relation "measure (\<lambda>(ks, t). card {k \<in> set ks. t \<le> k})") (simp_all add: sleep_slot_decreases)

declare sleep_slot.simps [simp del]

definition sleep_poll ::
  "bool \<Rightarrow> nat \<Rightarrow> task \<Rightarrow> executor \<Rightarrow> unit poll \<times> bool \<times> nat \<times> executor" where
  "sleep_poll was_yielded sleep_until t e =
     (if was_yielded then (Ready (), was_yielded, sleep_until, e)
      else let slot = sleep_slot (map fst (ex_sleeping_tasks e)) sleep_until in
        (Pending, True, slot, e\<lparr>ex_sleeping_tasks := btree_insert slot t (ex_sleeping_tasks e)\<rparr>))"

definition sleep_new :: "nat \<Rightarrow> executor \<Rightarrow> bool \<times> nat" where
  "sleep_new duration e = (False, ex_start_round_time_for_deadlines e + duration)"

text \<open>
  The loop of \<open>check_sleeping_tasks\<close>; the tasks it executes may sleep again, so it has fuel. The
  difference of the start time and a later time is the duration zero.
\<close>

fun check_sleeping_loop ::
  "nat \<Rightarrow> bool \<Rightarrow> (executor \<Rightarrow> bool) \<Rightarrow> exec_fun \<Rightarrow> executor \<Rightarrow> (nat option \<times> executor) res option" where
  "check_sleeping_loop 0 dbg free exec e = None"
| "check_sleeping_loop (Suc fuel) dbg free exec e =
     (case ex_sleeping_tasks e of
        [] \<Rightarrow> Some (Inr (None, e))
      | (time_to_wake, t) # rest \<Rightarrow>
          let e1 = e\<lparr>ex_sleeping_tasks := rest\<rparr> in
          if time_to_wake \<le> ex_start_round_time e1 then
            bindO (if task_is_local t then exec t e1 else Some (spawn_shared_task dbg (free e1) t e1))
              (check_sleeping_loop fuel dbg free exec)
          else Some (Inr (Some (ex_start_round_time e1 - time_to_wake),
                      e1\<lparr>ex_sleeping_tasks := btree_insert time_to_wake t (ex_sleeping_tasks e1)\<rparr>)))"

definition check_sleeping_tasks ::
  "nat \<Rightarrow> bool \<Rightarrow> (executor \<Rightarrow> bool) \<Rightarrow> exec_fun \<Rightarrow> nat \<Rightarrow> executor \<Rightarrow> (nat option \<times> executor) res option" where
  "check_sleeping_tasks fuel dbg free exec now e =
     (if ex_sleeping_tasks e \<noteq> [] then check_sleeping_loop fuel dbg free exec (e\<lparr>ex_start_round_time := now\<rparr>)
      else Some (Inr (None, e)))"

section \<open>Futures that use the executor\<close>

definition yield_poll :: "bool \<Rightarrow> bool \<Rightarrow> task \<Rightarrow> executor \<Rightarrow> (unit poll \<times> bool \<times> executor) res" where
  "yield_poll dbg was_yielded t e =
     (if was_yielded then Inr (Ready (), was_yielded, e)
      else if task_is_local t then
        bindR (add_task_at_the_start_of_lifo_local_queue dbg t e) (\<lambda>e'. Inr (Pending, True, e'))
      else bindR (add_task_at_the_start_of_lifo_shared_queue dbg t e) (\<lambda>e'. Inr (Pending, True, e')))"

definition asyncify_poll :: "bool \<Rightarrow> bool \<Rightarrow> nat \<Rightarrow> executor \<Rightarrow> (unit poll \<times> bool \<times> executor) res" where
  "asyncify_poll dbg was_called f e =
     (if \<not> was_called then bindR (invoke_call dbg (PushFnToThreadPool f) e) (\<lambda>e'. Inr (Pending, True, e'))
      else Inr (Ready (), was_called, e))"

definition update_current_task_locality_poll ::
  "bool \<Rightarrow> bool \<Rightarrow> locality \<Rightarrow> executor \<Rightarrow> (unit poll \<times> bool \<times> executor) res" where
  "update_current_task_locality_poll dbg was_called l e =
     (if \<not> was_called then bindR (invoke_call dbg (ChangeCurrentTaskLocality l) e) (\<lambda>e'. Inr (Pending, True, e'))
      else Inr (Ready (), was_called, e))"

definition wake_task :: "bool \<Rightarrow> bool \<Rightarrow> task \<Rightarrow> executor \<Rightarrow> executor res" where
  "wake_task dbg free t e =
     (if task_is_local t then spawn_local_task dbg t e else spawn_shared_task dbg free t e)"

text \<open>\<open>EndLocalThreadAndWriteIntoPtr\<close>: the result is written and the executor is to be stopped.\<close>

definition end_local_thread_poll ::
  "'r poll \<Rightarrow> nat \<Rightarrow> 'r option \<Rightarrow> unit poll \<times> 'r option \<times> nat option" where
  "end_local_thread_poll fut local_executor_id res_ptr =
     (case fut of
        Pending \<Rightarrow> (Pending, res_ptr, None)
      | Ready res \<Rightarrow> (Ready (), Some res, Some local_executor_id))"

section \<open>Waiting at the end of a round\<close>

text \<open>What the executor waits for: a poll of the I/O worker, a sleep of the thread, or nothing.\<close>

datatype round_wait = MustPoll "nat option" | SleepAtMost nat | NoWait

definition micros :: "64 word \<Rightarrow> nat" where
  "micros d = unat d * 1000"

definition END_DUR_MICROS :: "64 word" where
  "END_DUR_MICROS = 131072"

definition wait_for_work ::
  "bool option \<Rightarrow> bool \<Rightarrow> nat option \<Rightarrow> progressive_timeout \<Rightarrow> round_wait \<times> progressive_timeout" where
  "wait_for_work worker_has_work has_cpu_work nearest_timeout_option cur =
     (case worker_has_work of
        Some True \<Rightarrow>
          if \<not> has_cpu_work then
            (case progressive_timeout_with_shift END_DUR_MICROS 2 cur of (max_timeout, cur') \<Rightarrow>
               (case nearest_timeout_option of
                  Some nearest_timeout \<Rightarrow> (MustPoll (Some (min nearest_timeout (micros max_timeout))), cur')
                | None \<Rightarrow> (MustPoll (Some (micros max_timeout)), cur')))
          else (MustPoll None, progressive_timeout_reset 64)
      | Some False \<Rightarrow>
          if \<not> has_cpu_work then
            (case progressive_timeout_timeout END_DUR_MICROS cur of (max_timeout, cur') \<Rightarrow>
               (case nearest_timeout_option of
                  Some nearest_timeout \<Rightarrow> (SleepAtMost (min nearest_timeout (micros max_timeout)), cur')
                | None \<Rightarrow> (SleepAtMost (micros max_timeout), cur')))
          else (NoWait, progressive_timeout_reset 64)
      | None \<Rightarrow>
          (case progressive_timeout_timeout END_DUR_MICROS cur of (max_timeout, cur') \<Rightarrow>
             (case nearest_timeout_option of
                Some nearest_timeout \<Rightarrow>
                  ((if has_cpu_work then NoWait else SleepAtMost (min nearest_timeout (micros max_timeout))),
                   progressive_timeout_reset 64)
              | None \<Rightarrow>
                  if has_cpu_work then (NoWait, progressive_timeout_reset 64)
                  else (SleepAtMost (micros max_timeout), cur'))))"

text \<open>
  The clock readings and lock attempts of a round are its environment. \<open>executor_work\<close> is the part of a round between the
  version check and the wait.
\<close>

record round_env =
  re_now :: nat
  re_free1 :: bool
  re_free2 :: bool
  re_frees :: "nat \<Rightarrow> bool"
  re_retries :: "nat \<Rightarrow> bool"
  re_own_free :: bool
  re_tries :: nat
  re_neighbours :: "(bool \<times> shared_task_list) list"
  re_sleep_now :: nat

definition executor_interact ::
  "bool \<Rightarrow> round_env \<Rightarrow> executor \<times> interactor \<times> queues \<Rightarrow> (executor \<times> interactor \<times> queues) res" where
  "executor_interact dbg env w =
     (case w of (e, it, qs) \<Rightarrow>
        bindR (interactor_do_work dbg (re_free1 env) (re_free2 env) (re_frees env) (re_retries env)
                 (ex_start_round_time e) it (ex_local_tasks e) (ex_shared_tasks e) qs)
          (\<lambda>(it', ls, ss, qs'). Inr (e\<lparr>ex_local_tasks := ls, ex_shared_tasks := ss\<rparr>, it', qs')))"

definition executor_work ::
  "nat \<Rightarrow> bool \<Rightarrow> (executor \<Rightarrow> bool) \<Rightarrow> exec_fun \<Rightarrow> round_env \<Rightarrow> executor \<times> interactor \<times> queues \<Rightarrow>
   (nat option \<times> shared_task_list list \<times> executor \<times> interactor \<times> queues) res option" where
  "executor_work fuel dbg free exec env w =
     (case w of (e, it, qs) \<Rightarrow>
      bindO (Some (executor_interact dbg env (prepare_to_new_round (re_now env) e, it, qs))) (\<lambda>(e1, it', qs').
      bindO (exec_cpu_tasks dbg exec e1) (\<lambda>e2.
      bindO (Some (take_work_if_needed dbg (re_own_free env) (re_tries env) (re_neighbours env) e2)) (\<lambda>(ls, e3).
      bindO (Some (thread_pool_poll dbg (ex_local_tasks e3) (ex_thread_pool e3))) (\<lambda>(_, local_tasks, pool).
      bindO (check_sleeping_tasks fuel dbg free exec (re_sleep_now env)
               (e3\<lparr>ex_local_tasks := local_tasks, ex_thread_pool := pool\<rparr>)) (\<lambda>(nearest, e4).
        Some (Inr (nearest, ls, e4, it', qs'))))))))"

text \<open>
  \<open>graceful_stop\<close>: the shared tasks go to the first neighbour; the local executor of the thread is
  cleared. The spins for the locks are not part of the state.
\<close>

definition graceful_stop :: "shared_task_list list \<Rightarrow> executor \<Rightarrow> shared_task_list list" where
  "graceful_stop neighbours e =
     (if valid_config_is_work_sharing_enabled (ex_config e) then
        (case neighbours of
           [] \<Rightarrow> []
         | first_neighbour # ns \<Rightarrow>
             first_neighbour\<lparr>stl_list := stl_list first_neighbour @ ex_shared_tasks e @
               (case ex_shared_tasks_list e of None \<Rightarrow> [] | Some l \<Rightarrow> l)\<rparr> # ns)
      else neighbours)"

section \<open>No task is lost\<close>

text \<open>
  A task is identified by its future and its flag, which neither a change of locality nor the
  adoption by an executor touches. \<open>tasks_of L\<close> are the tasks an executor holds, with those in the
  lists named by \<open>L\<close> and the finished ones.
\<close>

type_synonym task_key = "fat_ptr \<times> 64 word"

definition task_key :: "task \<Rightarrow> task_key" where
  "task_key t = (task_future_ptr t, task_is_executing t)"

definition keys :: "task list \<Rightarrow> task_key multiset" where
  "keys ts = mset (map task_key ts)"

definition pool_keys :: "thread_pool \<Rightarrow> task_key multiset" where
  "pool_keys p = keys (map wt_task (concat (tp_workers p))) + keys (tp_result_list p)"

definition tasks_of :: "nat set \<Rightarrow> executor \<Rightarrow> task_key multiset" where
  "tasks_of L e = keys (ex_local_tasks e) + keys (ex_shared_tasks e) +
     (case ex_shared_tasks_list e of None \<Rightarrow> {#} | Some l \<Rightarrow> keys l) +
     keys (map snd (ex_sleeping_tasks e)) + pool_keys (ex_thread_pool e) + keys (ex_released e) +
     (\<Sum>l \<in> L. keys (ex_lists e l))"

lemma keys_simps [simp]:
  "keys [] = {#}" "keys (t # ts) = add_mset (task_key t) (keys ts)" "keys (xs @ ys) = keys xs + keys ys"
  by (simp_all add: keys_def)

lemma keys_take_drop: "keys (take n xs) + keys (drop n xs) = keys xs"
  by (metis append_take_drop_id keys_simps(3))

lemma tasks_of_simps [simp]:
  "tasks_of L (e\<lparr>ex_current_call := c\<rparr>) = tasks_of L e"
  "tasks_of L (e\<lparr>ex_exec_series := n\<rparr>) = tasks_of L e"
  "tasks_of L (e\<lparr>ex_executing := f\<rparr>) = tasks_of L e"
  "tasks_of L (e\<lparr>ex_bools := b\<rparr>) = tasks_of L e"
  "tasks_of L (e\<lparr>ex_start_round_time := now\<rparr>) = tasks_of L e"
  "tasks_of L (e\<lparr>ex_progressive_timeout := cur\<rparr>) = tasks_of L e"
  by (simp_all add: tasks_of_def)

lemma keys_list_update:
  assumes "finite L" and "l \<in> L"
  shows "(\<Sum>m \<in> L. keys ((f(l := ts)) m)) + keys (f l) = (\<Sum>m \<in> L. keys (f m)) + keys ts"
proof -
  have "(\<Sum>m \<in> L. keys ((f(l := ts)) m)) = keys ts + (\<Sum>m \<in> L - {l}. keys (f m))"
    using assms by (simp add: sum.remove)
  moreover have "(\<Sum>m \<in> L. keys (f m)) = keys (f l) + (\<Sum>m \<in> L - {l}. keys (f m))"
    using assms by (simp add: sum.remove)
  ultimately show ?thesis by (simp add: ac_simps)
qed

lemma tasks_of_list:
  assumes "finite L" and "l \<in> L"
  shows "tasks_of L (e\<lparr>ex_lists := (ex_lists e)(l := ts)\<rparr>) + keys (ex_lists e l) = tasks_of L e + keys ts"
  using keys_list_update[OF assms, of "ex_lists e" ts] by (simp add: tasks_of_def add.assoc)

lemma task_key_set_locality:
  assumes "is_locality l"
  shows "task_key (t\<lparr>task_data := task_data_set_locality l (task_data t)\<rparr>) = task_key t"
proof -
  let ?p = "td_tagged_ptr (task_data t)"
  have "((?p AND NOT IS_LOCAL_MASK) OR lo_value l) AND TASK_MASK = ?p AND TASK_MASK"
  proof (rule bit_word_eqI)
    fix n assume "n < LENGTH(128)"
    then show "bit (((?p AND NOT IS_LOCAL_MASK) OR lo_value l) AND TASK_MASK) n \<longleftrightarrow> bit (?p AND TASK_MASK) n"
      using assms by (cases "n = 127") (auto simp: bit_and_iff bit_or_iff bit_not_iff bit_IS_LOCAL_MASK
          bit_TASK_MASK locality_bit)
  qed
  then show ?thesis
    by (simp add: task_key_def task_future_ptr_def task_data_future_ptr_def task_data_set_locality_def Let_def)
qed

lemma task_key_check_safety: "task_check_safety test i b t = Inr t' \<Longrightarrow> task_key t' = task_key t"
  by (auto simp: task_check_safety_def task_key_def task_future_ptr_def split: if_splits)

lemma spawn_local_tasks_of:
  "spawn_local_task dbg t e = Inr e' \<Longrightarrow> tasks_of L e' = add_mset (task_key t) (tasks_of L e)"
  by (auto simp: spawn_local_task_def tasks_of_def split: if_splits)

lemma try_flush_tasks_of: "try_flush free e = Inr e' \<Longrightarrow> tasks_of L e' = tasks_of L e"
  using keys_take_drop[of "length (ex_shared_tasks e) div 2 + 1" "ex_shared_tasks e"]
  by (auto simp: try_flush_def tasks_of_def Let_def ac_simps split: option.splits if_splits)

lemma spawn_shared_tasks_of:
  "spawn_shared_task dbg free t e = Inr e' \<Longrightarrow> tasks_of L e' = add_mset (task_key t) (tasks_of L e)"
  using try_flush_tasks_of[of free e]
  by (auto simp: spawn_shared_task_def bindR_Inr_conv tasks_of_def split: if_splits)

lemma concat_update_keys:
  "i < length ws \<Longrightarrow> keys (map wt_task (concat (ws[i := ws ! i @ [w]]))) = add_mset (task_key (wt_task w)) (keys (map wt_task (concat ws)))"
  by (induction ws arbitrary: i) (auto simp: nth_Cons split: nat.splits)

lemma thread_pool_push_keys:
  "thread_pool_push t f p = Inr p' \<Longrightarrow> pool_keys p' = add_mset (task_key t) (pool_keys p)"
  using concat_update_keys[of "tp_wait p mod length (tp_workers p)" "tp_workers p" "\<lparr>wt_task = t, wt_job = f\<rparr>"]
  by (auto simp: thread_pool_push_def pool_keys_def Let_def split: if_splits)

lemma thread_pool_poll_keys:
  "thread_pool_poll dbg ts p = Inr (b, ts', p') \<Longrightarrow> keys ts' + pool_keys p' = keys ts + pool_keys p"
  by (auto simp: thread_pool_poll_def pool_keys_def Let_def bindR_Inr_conv ac_simps split: if_splits)

text \<open>
  What a future may leave behind: a call whose list is counted and whose locality is one, and, when
  it returns \<open>Pending\<close> without a call that stores the task, the task put somewhere by itself.
\<close>

definition call_ok :: "nat set \<Rightarrow> call \<Rightarrow> bool" where
  "call_ok L c \<longleftrightarrow> (case c of
     PushCurrentTaskTo l \<Rightarrow> l \<in> L
   | PushCurrentTaskToAndRemoveItIfCounterIsZero l _ \<Rightarrow> l \<in> L
   | ChangeCurrentTaskLocality l \<Rightarrow> is_locality l
   | _ \<Rightarrow> True)"

definition stores_task :: "call \<Rightarrow> bool" where
  "stores_task c \<longleftrightarrow> (case c of CallNone \<Rightarrow> False | ReleaseAtomicBool _ \<Rightarrow> False | _ \<Rightarrow> True)"

definition wf_sleep :: "executor \<Rightarrow> bool" where
  "wf_sleep e \<longleftrightarrow> sorted_wrt (<) (map fst (ex_sleeping_tasks e))"

definition idle :: "executor \<Rightarrow> bool" where
  "idle e \<longleftrightarrow> ex_current_call e = CallNone"

text \<open>
  The account is kept of the tasks in a set \<open>K\<close>. Polls may do what they like with the others: spawn them, or hand them to
  the I/O worker.
\<close>

definition kept :: "task_key set \<Rightarrow> task_key multiset \<Rightarrow> task_key multiset" where
  "kept K M = filter_mset (\<lambda>k. k \<in> K) M"

definition kept_task :: "task_key set \<Rightarrow> task \<Rightarrow> task_key multiset" where
  "kept_task K t = kept K {#task_key t#}"

definition poll_conserves :: "task_key set \<Rightarrow> nat set \<Rightarrow> poll_fun \<Rightarrow> bool" where
  "poll_conserves K L poll \<longleftrightarrow> (\<forall>t e r e'. idle e \<and> poll t e = Inr (r, e') \<longrightarrow>
     (r \<noteq> Pending \<longrightarrow> idle e') \<and> call_ok L (ex_current_call e') \<and> (wf_sleep e \<longrightarrow> wf_sleep e') \<and>
     kept K (tasks_of L e') = kept K (tasks_of L e) +
       (if r = Pending \<and> \<not> stores_task (ex_current_call e') then kept_task K t else {#}))"

definition exec_conserves :: "task_key set \<Rightarrow> nat set \<Rightarrow> exec_fun \<Rightarrow> bool" where
  "exec_conserves K L exec \<longleftrightarrow>
     (\<forall>t e e'. idle e \<and> exec t e = Some (Inr e') \<longrightarrow> idle e' \<and> (wf_sleep e \<longrightarrow> wf_sleep e') \<and>
        kept K (tasks_of L e') = kept_task K t + kept K (tasks_of L e))"

lemma kept_simps [simp]:
  "kept K {#} = {#}" "kept K (M + N) = kept K M + kept K N"
  "kept K (add_mset (task_key t) M) = kept_task K t + kept K M"
  by (simp_all add: kept_def kept_task_def)

lemma kept_task_cong: "task_key t = task_key u \<Longrightarrow> kept_task K t = kept_task K u"
  by (simp only: kept_task_def)

lemma kept_spawn:
  "spawn_local_task dbg t e = Inr e' \<Longrightarrow> kept K (tasks_of L e') = kept_task K t + kept K (tasks_of L e)"
  "spawn_shared_task dbg free t e = Inr e' \<Longrightarrow> kept K (tasks_of L e') = kept_task K t + kept K (tasks_of L e)"
  using arg_cong[OF spawn_local_tasks_of, of dbg t e e' "kept K" L] arg_cong[OF spawn_shared_tasks_of, of dbg free t e e' "kept K" L]
  by simp_all

lemma idle_simps [simp]:
  "idle (e\<lparr>ex_current_call := CallNone\<rparr>)" "idle (e\<lparr>ex_exec_series := n\<rparr>) = idle e"
  "idle (e\<lparr>ex_executing := f\<rparr>) = idle e" "idle (e\<lparr>ex_lists := ls\<rparr>) = idle e"
  "idle (e\<lparr>ex_released := ts\<rparr>) = idle e" "idle (e\<lparr>ex_shared_tasks := ts\<rparr>) = idle e"
  "idle (e\<lparr>ex_local_tasks := ts\<rparr>) = idle e" "idle (e\<lparr>ex_bools := b\<rparr>) = idle e"
  "idle (e\<lparr>ex_thread_pool := p\<rparr>) = idle e" "idle (e\<lparr>ex_shared_tasks_list := l\<rparr>) = idle e"
  "idle (e\<lparr>ex_start_round_time := now\<rparr>) = idle e" "idle (e\<lparr>ex_sleeping_tasks := m\<rparr>) = idle e"
  by (simp_all add: idle_def)

lemma wf_sleep_simps [simp]:
  "wf_sleep (e\<lparr>ex_current_call := c\<rparr>) = wf_sleep e" "wf_sleep (e\<lparr>ex_exec_series := n\<rparr>) = wf_sleep e"
  "wf_sleep (e\<lparr>ex_executing := f\<rparr>) = wf_sleep e" "wf_sleep (e\<lparr>ex_lists := ls\<rparr>) = wf_sleep e"
  "wf_sleep (e\<lparr>ex_released := ts\<rparr>) = wf_sleep e" "wf_sleep (e\<lparr>ex_shared_tasks := ts\<rparr>) = wf_sleep e"
  "wf_sleep (e\<lparr>ex_local_tasks := ts\<rparr>) = wf_sleep e" "wf_sleep (e\<lparr>ex_bools := b\<rparr>) = wf_sleep e"
  "wf_sleep (e\<lparr>ex_thread_pool := p\<rparr>) = wf_sleep e" "wf_sleep (e\<lparr>ex_shared_tasks_list := l\<rparr>) = wf_sleep e"
  "wf_sleep (e\<lparr>ex_start_round_time := now\<rparr>) = wf_sleep e"
  by (simp_all add: wf_sleep_def)

lemma spawn_wf_sleep:
  "spawn_local_task dbg t e = Inr e' \<Longrightarrow> wf_sleep e' = wf_sleep e"
  "spawn_shared_task dbg free t e = Inr e' \<Longrightarrow> wf_sleep e' = wf_sleep e"
  by (auto simp: spawn_local_task_def spawn_shared_task_def try_flush_def bindR_Inr_conv Let_def
      split: if_splits option.splits)

lemma spawn_idle:
  "spawn_local_task dbg t e = Inr e' \<Longrightarrow> idle e' = idle e"
  "spawn_shared_task dbg free t e = Inr e' \<Longrightarrow> idle e' = idle e"
  by (auto simp: spawn_local_task_def spawn_shared_task_def try_flush_def bindR_Inr_conv Let_def
      split: if_splits option.splits)

lemma handle_call_wf_sleep:
  assumes "exec_conserves K L exec" and "handle_call dbg free exec t e = Some (Inr e')"
  shows "idle e' \<and> (wf_sleep e \<longrightarrow> wf_sleep e')"
proof (cases "ex_current_call e")
  case (PushCurrentTaskToAndRemoveItIfCounterIsZero l c)
  have "idle e' \<and> (wf_sleep s \<longrightarrow> wf_sleep e')" if "idle s" "exec u s = Some (Inr e')" for u s
    using assms(1) that unfolding exec_conserves_def by blast
  note x = this[of "e\<lparr>ex_current_call := CallNone, ex_lists := (ex_lists e)(l := ex_lists e l)\<rparr>" t]
  show ?thesis
  proof (cases "ex_counters e c = 0")
    case True
    with PushCurrentTaskToAndRemoveItIfCounterIsZero assms(2) x show ?thesis
      by (auto simp: handle_call_def Let_def split: if_splits)
  next
    case False
    with PushCurrentTaskToAndRemoveItIfCounterIsZero assms(2) show ?thesis
      by (auto simp: handle_call_def Let_def split: if_splits)
  qed
qed (use assms(2) in \<open>auto simp: handle_call_def Let_def bindR_Inr_conv spawn_wf_sleep spawn_idle split: if_splits\<close>)

lemma handle_call_push:
  assumes "finite L" and "l \<in> L"
  shows "tasks_of L (e\<lparr>ex_lists := (ex_lists e)(l := ex_lists e l @ [t])\<rparr>) = add_mset (task_key t) (tasks_of L e)"
  using tasks_of_list[OF assms, of e "ex_lists e l @ [t]"] by simp

lemma handle_call_conserves:
  assumes "finite L" and "exec_conserves K L exec" and "call_ok L (ex_current_call e)"
    and "stores_task (ex_current_call e)" and "handle_call dbg free exec t e = Some (Inr e')"
  shows "kept K (tasks_of L e') = kept_task K t + kept K (tasks_of L e)"
proof (cases "ex_current_call e")
  case (PushCurrentTaskToAndRemoveItIfCounterIsZero l c)
  let ?e0 = "e\<lparr>ex_current_call := CallNone\<rparr>"
  let ?e1 = "?e0\<lparr>ex_lists := (ex_lists ?e0)(l := ex_lists ?e0 l @ [t])\<rparr>"
  have l: "l \<in> L" using assms(3) PushCurrentTaskToAndRemoveItIfCounterIsZero by (simp add: call_ok_def)
  have e1: "tasks_of L ?e1 = add_mset (task_key t) (tasks_of L e)"
    using handle_call_push[OF assms(1) l, of ?e0 t] by simp
  show ?thesis
  proof (cases "ex_counters e c = 0")
    case True
    let ?e2 = "?e1\<lparr>ex_lists := (ex_lists ?e1)(l := ex_lists e l)\<rparr>"
    have "exec t ?e2 = Some (Inr e')"
      using assms(5) True PushCurrentTaskToAndRemoveItIfCounterIsZero
      by (simp add: handle_call_def Let_def split: if_splits)
    moreover have "idle ?e2" by simp
    ultimately have "kept K (tasks_of L e') = kept_task K t + kept K (tasks_of L ?e2)"
      using assms(2) unfolding exec_conserves_def by blast
    moreover have "tasks_of L ?e2 + keys (ex_lists e l @ [t]) = tasks_of L ?e1 + keys (ex_lists e l)"
      using tasks_of_list[OF assms(1) l, of ?e1 "ex_lists e l"] by simp
    then have "tasks_of L ?e2 = tasks_of L e" using e1 by simp
    ultimately show ?thesis by simp
  next
    case False
    with assms(5) PushCurrentTaskToAndRemoveItIfCounterIsZero e1 show ?thesis
      by (auto simp: handle_call_def Let_def split: if_splits)
  qed
next
  case (PushCurrentTaskTo l)
  then have "l \<in> L" using assms(3) by (simp add: call_ok_def)
  with handle_call_push[OF assms(1), of l "e\<lparr>ex_current_call := CallNone\<rparr>" t] PushCurrentTaskTo assms(5)
  show ?thesis by (auto simp: handle_call_def Let_def split: if_splits)
next
  case (PushFnToThreadPool f)
  with assms(5) show ?thesis
    by (auto simp: handle_call_def Let_def bindR_Inr_conv tasks_of_def ac_simps dest!: thread_pool_push_keys split: if_splits)
next
  case (ChangeCurrentTaskLocality l)
  then have "is_locality l" using assms(3) by (simp add: call_ok_def)
  then have "kept_task K (t\<lparr>task_data := task_data_set_locality l (task_data t)\<rparr>) = kept_task K t"
    using task_key_set_locality by (intro kept_task_cong) simp
  with ChangeCurrentTaskLocality assms(5) show ?thesis
    by (auto simp: handle_call_def Let_def kept_spawn[where K = K and L = L] split: if_splits)
qed (use assms(4,5) in \<open>auto simp: handle_call_def Let_def stores_task_def tasks_of_def ac_simps\<close>)

lemma exec_task_now_conserves:
  assumes "finite L" and "exec_conserves K L exec" and "poll_conserves K L poll"
    and "exec_task_now dbg test free poll exec t e = Some (Inr e')" and "idle e"
  shows "idle e' \<and> (wf_sleep e \<longrightarrow> wf_sleep e') \<and> kept K (tasks_of L e') = kept_task K t + kept K (tasks_of L e)"
proof -
  let ?flag = "\<lambda>b e. if dbg then e\<lparr>ex_executing := (ex_executing e)(task_is_executing t := b)\<rparr> else e"
  have flag: "tasks_of L (?flag b s) = tasks_of L s" "ex_current_call (?flag b s) = ex_current_call s"
    "wf_sleep (?flag b s) = wf_sleep s" "idle (?flag b s) = idle s" for b s
    by simp_all
  from assms(4) obtain t' r e2 where t': "task_key t' = task_key t"
    and p: "poll t' (?flag True (e\<lparr>ex_exec_series := ex_exec_series e + 1\<rparr>)) = Inr (r, e2)"
    and res: "(case r of Ready _ \<Rightarrow> if dbg \<and> \<not> call_eq (ex_current_call (?flag False e2)) CallNone then Some (Inl DebugAssert)
          else Some (Inr ((?flag False e2)\<lparr>ex_released := t' # ex_released (?flag False e2)\<rparr>))
        | Pending \<Rightarrow> if \<not> call_is_none (ex_current_call (?flag False e2)) then handle_call dbg free exec t' (?flag False e2)
          else Some (Inr (?flag False e2))) = Some (Inr e')"
    by (auto simp: exec_task_now_def Let_def dest: task_key_check_safety split: sum.splits prod.splits if_splits)
  let ?s = "?flag True (e\<lparr>ex_exec_series := ex_exec_series e + 1\<rparr>)"
  have i: "idle ?s \<and> poll t' ?s = Inr (r, e2)" using assms(5) p by (simp only: flag idle_simps)
  have c: "call_ok L (ex_current_call e2)"
    "kept K (tasks_of L e2) = kept K (tasks_of L e) + (if r = Pending \<and> \<not> stores_task (ex_current_call e2) then kept_task K t' else {#})"
    "wf_sleep e \<longrightarrow> wf_sleep e2" "r \<noteq> Pending \<longrightarrow> idle e2"
    using assms(3)[unfolded poll_conserves_def, rule_format, OF i] by (simp_all only: flag wf_sleep_simps tasks_of_simps) blast+
  note kt = kept_task_cong[OF t', of K]
  show ?thesis
  proof (cases r)
    case (Ready x)
    with res have "tasks_of L e' = add_mset (task_key t') (tasks_of L e2)" by (auto simp: tasks_of_def split: if_splits)
    moreover have "idle e' = idle e2" "wf_sleep e' = wf_sleep e2" using res Ready by (auto split: if_splits)
    ultimately show ?thesis using c kt Ready by simp
  next
    case Pending
    show ?thesis
    proof (cases "stores_task (ex_current_call e2)")
      case True
      then have "\<not> call_is_none (ex_current_call e2)" by (auto simp: stores_task_def call_is_none_def split: call.splits)
      with res Pending have "handle_call dbg free exec t' (?flag False e2) = Some (Inr e')" by (cases dbg) simp_all
      from handle_call_conserves[OF assms(1,2) _ _ this] handle_call_wf_sleep[OF assms(2) this] c True Pending flag kt show ?thesis by simp
    next
      case False
      with res Pending c kt show ?thesis
        by (cases "ex_current_call e2")
          (auto simp: idle_def stores_task_def call_is_none_def handle_call_def Let_def flag add.commute split: if_splits)
    qed
  qed
qed

lemma exec_task_conserves:
  assumes "finite L" and "poll_conserves K L poll"
  shows "exec_conserves K L (exec_task fuel dbg test free poll)"
proof (induction fuel)
  case (Suc fuel)
  show ?case
    unfolding exec_conserves_def
  proof (intro allI impI)
    fix t e e'
    assume "idle e \<and> exec_task (Suc fuel) dbg test free poll t e = Some (Inr e')"
    then have i: "idle e" and r: "exec_task (Suc fuel) dbg test free poll t e = Some (Inr e')" by simp_all
    show "idle e' \<and> (wf_sleep e \<longrightarrow> wf_sleep e') \<and> kept K (tasks_of L e') = kept_task K t + kept K (tasks_of L e)"
    proof (cases "ex_exec_series e < 63")
      case True
      with r i exec_task_now_conserves[OF assms(1) Suc.IH assms(2)] show ?thesis by simp
    next
      case False
      with r i show ?thesis
        by (auto simp: Let_def kept_spawn[where K = K and L = L] spawn_wf_sleep spawn_idle split: if_splits)
    qed
  qed
qed (simp add: exec_conserves_def)

subsection \<open>A round keeps the tasks\<close>

lemma bindO_Inr: "bindO r f = Some (Inr b) \<longleftrightarrow> (\<exists>a. r = Some (Inr a) \<and> f a = Some (Inr b))"
  by (auto simp: bindO_def split: option.splits sum.splits)

lemma tasks_of_pop_local:
  "ex_local_tasks e = rest @ [t] \<Longrightarrow> add_mset (task_key t) (tasks_of L (e\<lparr>ex_local_tasks := rest\<rparr>)) = tasks_of L e"
  by (simp add: tasks_of_def)

lemma tasks_of_pop_shared:
  "ex_shared_tasks e = rest @ [t] \<Longrightarrow> add_mset (task_key t) (tasks_of L (e\<lparr>ex_shared_tasks := rest\<rparr>)) = tasks_of L e"
  by (simp add: tasks_of_def)

lemma exec_conservesD:
  assumes "exec_conserves K L exec" and "exec t e = Some (Inr e')" and "idle e"
  shows "idle e'" and "wf_sleep e \<Longrightarrow> wf_sleep e'" and "kept K (tasks_of L e') = kept_task K t + kept K (tasks_of L e)"
  using assms unfolding exec_conserves_def by blast+

lemma exec_local_tasks_conserves:
  assumes "exec_conserves K L exec"
  shows "exec_local_tasks dbg exec n e = Some (Inr e') \<Longrightarrow> idle e \<Longrightarrow> idle e' \<and> (wf_sleep e \<longrightarrow> wf_sleep e') \<and> kept K (tasks_of L e') = kept K (tasks_of L e)"
proof (induction n arbitrary: e)
  case (Suc n)
  from Suc.prems(1) obtain t rest e1 where q: "ex_local_tasks e = rest @ [t]"
    and x: "exec t (e\<lparr>ex_local_tasks := rest\<rparr>) = Some (Inr e1)" "exec_local_tasks dbg exec n e1 = Some (Inr e')"
    by (auto simp: bindO_Inr pop_convs split: option.splits prod.splits)
  from Suc.IH[OF x(2)] exec_conservesD[OF assms x(1)] arg_cong[OF tasks_of_pop_local[OF q, of L], of "kept K"] Suc.prems(2) show ?case by simp
qed simp

lemma exec_shared_tasks_conserves:
  assumes "exec_conserves K L exec"
  shows "exec_shared_tasks exec n e = Some (Inr e') \<Longrightarrow> idle e \<Longrightarrow> idle e' \<and> (wf_sleep e \<longrightarrow> wf_sleep e') \<and> kept K (tasks_of L e') = kept K (tasks_of L e)"
proof (induction n arbitrary: e)
  case (Suc n)
  show ?case
  proof (cases "ex_shared_tasks e" rule: rev_cases)
    case (snoc rest t)
    with Suc.prems(1) obtain e1 where x: "exec t (e\<lparr>ex_shared_tasks := rest\<rparr>) = Some (Inr e1)"
        "exec_shared_tasks exec n e1 = Some (Inr e')"
      by (auto simp: bindO_Inr)
    from Suc.IH[OF x(2)] exec_conservesD[OF assms x(1)] arg_cong[OF tasks_of_pop_shared[OF snoc, of L], of "kept K"] Suc.prems(2) show ?thesis by simp
  qed (use Suc.prems in simp)
qed simp

lemma exec_cpu_tasks_conserves:
  assumes "exec_conserves K L exec" and "exec_cpu_tasks dbg exec e = Some (Inr e')" and "idle e"
  shows "idle e' \<and> (wf_sleep e \<longrightarrow> wf_sleep e') \<and> kept K (tasks_of L e') = kept K (tasks_of L e)"
  using assms(2,3) exec_local_tasks_conserves[OF assms(1)] exec_shared_tasks_conserves[OF assms(1)]
  by (auto simp: exec_cpu_tasks_def bindO_Inr)

definition shared_keys :: "shared_task_list list \<Rightarrow> task_key multiset" where
  "shared_keys ls = sum_list (map (\<lambda>l. keys (stl_list l)) ls)"

lemma shared_keys_append: "shared_keys (xs @ ys) = shared_keys xs + shared_keys ys"
  by (simp add: shared_keys_def)

lemma pop_shared_keys: "pop_shared n l ts = (l', ts') \<Longrightarrow> keys l' + keys ts' = keys l + keys ts"
  by (induction n arbitrary: l ts)
     (auto simp: pop_convs ac_simps split: option.splits prod.splits)

lemma take_batch_keys:
  "shared_task_list_take_batch free limit ts l = (ts', l') \<Longrightarrow> keys ts' + keys (stl_list l') = keys ts + keys (stl_list l)"
  using take_batch_balance[of free limit ts l ts' l']
  by (simp add: keys_def flip: image_mset_union)

lemma balance_chain:
  fixes a :: "'a multiset"
  assumes "a + x = b + y" and "b + u = c + v"
  shows "a + (u + x) = c + (v + y)"
proof -
  have "a + (u + x) = (a + x) + u" by (simp add: ac_simps)
  also have "\<dots> = (b + u) + y" unfolding assms(1) by (simp add: ac_simps)
  finally show ?thesis unfolding assms(2) by (simp add: ac_simps)
qed

lemma take_from_neighbours_keys:
  "take_from_neighbours dbg ls e = Inr (ls', e') \<Longrightarrow>
   (idle e' \<longleftrightarrow> idle e) \<and> (wf_sleep e' \<longleftrightarrow> wf_sleep e) \<and> tasks_of L e' + shared_keys ls' = tasks_of L e + shared_keys (map snd ls)"
proof (induction ls arbitrary: e ls')
  case (Cons fl ls)
  obtain free l where fl: "fl = (free, l)" by fastforce
  with Cons.prems obtain limit where lim: "usize_sub dbg MAX_NUMBER_OF_TASKS_TAKEN (length (ex_shared_tasks e)) = Inr limit"
    by (auto simp: bindR_Inr_conv)
  show ?case
  proof (cases "limit = 0")
    case True
    with Cons.prems lim fl show ?thesis by (auto simp: shared_keys_def)
  next
    case False
    obtain ts l' where tb: "shared_task_list_take_batch free limit (ex_shared_tasks e) l = (ts, l')" by fastforce
    let ?e = "e\<lparr>ex_shared_tasks := ts\<rparr>"
    from Cons.prems lim fl False tb obtain ls1 where r: "take_from_neighbours dbg ls ?e = Inr (ls1, e')" "ls' = l' # ls1"
      by (auto simp: bindR_Inr_conv)
    have "tasks_of L ?e + keys (stl_list l') = tasks_of L e + keys (stl_list l)"
      using take_batch_keys[OF tb] by (simp add: tasks_of_def ac_simps)
    note b = balance_chain[OF conjunct2[OF conjunct2[OF Cons.IH[OF r(1)]]] this]
    have "idle e' \<longleftrightarrow> idle e" "wf_sleep e' \<longleftrightarrow> wf_sleep e" using Cons.IH[OF r(1)] by simp_all
    with b r(2) fl show ?thesis by (simp add: shared_keys_def)
  qed
qed (simp add: shared_keys_def)

lemma take_work_keys:
  assumes "take_work_if_needed dbg own tries ns e = Inr (ls, e')"
  shows "(idle e' \<longleftrightarrow> idle e) \<and> (wf_sleep e' \<longleftrightarrow> wf_sleep e) \<and> tasks_of L e' + shared_keys ls = tasks_of L e + shared_keys (map snd ns)"
proof -
  let ?level = "unat (vc_work_sharing_level (ex_config e))"
  consider (idle) "ls = map snd ns" "e' = e"
    | (own) l l' ts where "ex_shared_tasks_list e = Some l" "ls = map snd ns"
        "pop_shared (?level - length (ex_shared_tasks e)) l (ex_shared_tasks e) = (l', ts)"
        "e' = e\<lparr>ex_shared_tasks_list := Some l', ex_shared_tasks := ts\<rparr>"
    | (others) ls1 where "take_from_neighbours dbg (take tries ns) e = Inr (ls1, e')" "ls = ls1 @ map snd (drop tries ns)"
  proof (cases "length (ex_shared_tasks e) \<ge> ?level")
    case True
    then have "take_work_if_needed dbg own tries ns e = Inr (map snd ns, e)"
      unfolding take_work_if_needed_def by (simp only: if_True)
    with assms show thesis by (intro idle) simp_all
  next
    case len: False
    show thesis
    proof (cases "ex_shared_tasks_list e")
      case None
      then have "take_work_if_needed dbg own tries ns e = Inr (map snd ns, e)"
        unfolding take_work_if_needed_def by (simp only: option.case if_cancel)
      with assms show thesis by (intro idle) simp_all
    next
      case (Some l)
      obtain l' ts where p: "pop_shared (?level - length (ex_shared_tasks e)) l (ex_shared_tasks e) = (l', ts)" by fastforce
      have eq: "take_work_if_needed dbg own tries ns e =
        (if own \<and> l \<noteq> [] then Inr (map snd ns, e\<lparr>ex_shared_tasks_list := Some l', ex_shared_tasks := ts\<rparr>)
         else if ns = [] then Inr ([], e)
         else bindR (take_from_neighbours dbg (take tries ns) e)
           (\<lambda>(ls, e'). Inr (ls @ map snd (drop tries ns), e')))"
        using len unfolding take_work_if_needed_def Some option.case Let_def p prod.case by (simp only: if_False)
      show thesis
      proof (cases "own \<and> l \<noteq> []")
        case True
        with assms eq have "ls = map snd ns" "e' = e\<lparr>ex_shared_tasks_list := Some l', ex_shared_tasks := ts\<rparr>" by simp_all
        with Some p show thesis by (intro own) simp_all
      next
        case False
        show thesis
        proof (cases "ns = []")
          case True
          with assms eq False have "ls = map snd ns" "e' = e" by simp_all
          then show thesis by (rule idle)
        next
          case ns: False
          with assms eq False show thesis by (auto simp: bindR_Inr_conv intro: others)
        qed
      qed
    qed
  qed
  then show ?thesis
  proof cases
    case own
    from pop_shared_keys[OF own(3)] own show ?thesis by (simp add: tasks_of_def ac_simps)
  next
    case others
    have "shared_keys (map snd ns) = shared_keys (map snd (take tries ns)) + shared_keys (map snd (drop tries ns))"
      using shared_keys_append[of "map snd (take tries ns)" "map snd (drop tries ns)"] by (simp flip: map_append)
    moreover have "shared_keys ls = shared_keys ls1 + shared_keys (map snd (drop tries ns))"
      unfolding others(2) by (rule shared_keys_append)
    ultimately show ?thesis
      using take_from_neighbours_keys[OF others(1), of L] by (simp only: add.assoc[symmetric])
  qed simp
qed

lemma btree_insert_first:
  assumes "sorted_wrt (<) (map fst ((k, v) # m))"
  shows "btree_insert k w m = (k, w) # m"
  using assms by (cases m) auto

lemma check_sleeping_loop_conserves:
  assumes "exec_conserves K L exec"
  shows "check_sleeping_loop fuel dbg free exec e = Some (Inr (d, e')) \<Longrightarrow> wf_sleep e \<Longrightarrow> idle e \<Longrightarrow>
    idle e' \<and> wf_sleep e' \<and> kept K (tasks_of L e') = kept K (tasks_of L e)"
proof (induction fuel arbitrary: e)
  case (Suc fuel)
  show ?case
  proof (cases "ex_sleeping_tasks e")
    case Nil
    with Suc.prems show ?thesis by simp
  next
    case (Cons kt rest)
    obtain k t where kt: "kt = (k, t)" by fastforce
    let ?e1 = "e\<lparr>ex_sleeping_tasks := rest\<rparr>"
    have wf: "wf_sleep ?e1" using Suc.prems(2) Cons by (simp add: wf_sleep_def)
    have "add_mset (task_key t) (tasks_of L ?e1) = tasks_of L e" using Cons kt by (simp add: tasks_of_def)
    from arg_cong[OF this, of "kept K"] have t1: "kept_task K t + kept K (tasks_of L ?e1) = kept K (tasks_of L e)" by simp
    show ?thesis
    proof (cases "k \<le> ex_start_round_time e")
      case True
      with Suc.prems(1) Cons kt obtain e2 where
        r: "(if task_is_local t then exec t ?e1 else Some (spawn_shared_task dbg (free ?e1) t ?e1)) = Some (Inr e2)"
        and n: "check_sleeping_loop fuel dbg free exec e2 = Some (Inr (d, e'))"
        by (auto simp: bindO_Inr Let_def)
      have "idle e2 \<and> wf_sleep e2 \<and> kept K (tasks_of L e2) = kept K (tasks_of L e)"
      proof (cases "task_is_local t")
        case True
        with r have "exec t ?e1 = Some (Inr e2)" by simp
        from exec_conservesD[OF assms this] Suc.prems(3) wf t1 show ?thesis by simp
      next
        case False
        with r have "spawn_shared_task dbg (free ?e1) t ?e1 = Inr e2" by simp
        from spawn_wf_sleep(2)[OF this] spawn_idle(2)[OF this] Suc.prems(3) kept_spawn(2)[OF this, of K L] wf t1 show ?thesis by simp
      qed
      with Suc.IH[OF n] show ?thesis by simp
    next
      case False
      have "btree_insert k t rest = (k, t) # rest"
        using Suc.prems(2) Cons kt by (intro btree_insert_first) (simp add: wf_sleep_def)
      with False Suc.prems Cons kt show ?thesis by (auto simp: wf_sleep_def tasks_of_def)
    qed
  qed
qed simp

lemma check_sleeping_tasks_conserves:
  assumes "exec_conserves K L exec" and "check_sleeping_tasks fuel dbg free exec now e = Some (Inr (d, e'))" and "wf_sleep e" and "idle e"
  shows "idle e' \<and> wf_sleep e' \<and> kept K (tasks_of L e') = kept K (tasks_of L e)"
  using assms check_sleeping_loop_conserves[OF assms(1), of fuel dbg free "e\<lparr>ex_start_round_time := now\<rparr>"]
  by (auto simp: check_sleeping_tasks_def split: if_splits)

text \<open>The tasks between executors: in the batches of an interactor and in the receive queues \<open>Q\<close>.\<close>

definition in_transit :: "nat set \<Rightarrow> interactor \<Rightarrow> queues \<Rightarrow> task_key multiset" where
  "in_transit Q it qs = image_mset task_key (batched it + queued Q qs)"

lemma keys_untagged: "keys ts = image_mset task_key (untagged ts)"
  by (induction ts) (simp_all add: untagged_def task_key_def task_future_ptr_def)

lemma executor_interact_ok:
  assumes "finite Q" and "interactor_wf Q it" and "ia_id_to_retry it = []"
  shows "\<exists>e' it' qs'. executor_interact dbg env (e, it, qs) = Inr (e', it', qs') \<and>
    interactor_wf Q it' \<and> ia_id_to_retry it' = [] \<and> (idle e' \<longleftrightarrow> idle e) \<and> (wf_sleep e' \<longleftrightarrow> wf_sleep e) \<and>
    tasks_of L e' + in_transit Q it' qs' = tasks_of L e + in_transit Q it qs"
proof -
  from interactor_do_work_balance[OF assms, of dbg "re_free1 env" "re_free2 env" "re_frees env" "re_retries env"
      "ex_start_round_time e" "ex_local_tasks e" "ex_shared_tasks e" qs]
  obtain it' ls ss qs' where w: "interactor_do_work dbg (re_free1 env) (re_free2 env) (re_frees env) (re_retries env)
      (ex_start_round_time e) it (ex_local_tasks e) (ex_shared_tasks e) qs = Inr (it', ls, ss, qs')"
    and wf: "interactor_wf Q it'" "ia_id_to_retry it' = []"
    and b: "untagged ls + untagged ss + batched it' + queued Q qs' =
      untagged (ex_local_tasks e) + untagged (ex_shared_tasks e) + batched it + queued Q qs" by blast
  from arg_cong[OF b, of "image_mset task_key"]
  have "keys ls + keys ss + in_transit Q it' qs' = keys (ex_local_tasks e) + keys (ex_shared_tasks e) + in_transit Q it qs"
    by (simp add: keys_untagged in_transit_def add.assoc)
  from arg_cong[OF this, of "\<lambda>m. m + (tasks_of L (e\<lparr>ex_local_tasks := [], ex_shared_tasks := []\<rparr>))"]
  have "tasks_of L (e\<lparr>ex_local_tasks := ls, ex_shared_tasks := ss\<rparr>) + in_transit Q it' qs' = tasks_of L e + in_transit Q it qs"
    by (simp add: tasks_of_def ac_simps)
  with w wf show ?thesis by (simp add: executor_interact_def)
qed

lemma executor_work_cases:
  assumes "executor_work fuel dbg free exec env (e, it, qs) = Some (Inr (nearest, ls, e', it', qs'))"
  obtains e1 e2 e3 b ts pool where
    "executor_interact dbg env (prepare_to_new_round (re_now env) e, it, qs) = Inr (e1, it', qs')"
    "exec_cpu_tasks dbg exec e1 = Some (Inr e2)"
    "take_work_if_needed dbg (re_own_free env) (re_tries env) (re_neighbours env) e2 = Inr (ls, e3)"
    "thread_pool_poll dbg (ex_local_tasks e3) (ex_thread_pool e3) = Inr (b, ts, pool)"
    "check_sleeping_tasks fuel dbg free exec (re_sleep_now env) (e3\<lparr>ex_local_tasks := ts, ex_thread_pool := pool\<rparr>) =
       Some (Inr (nearest, e'))"
  using assms by (auto simp: executor_work_def bindO_Inr)

lemma prepare_simps [simp]:
  "tasks_of L (prepare_to_new_round now e) = tasks_of L e" "wf_sleep (prepare_to_new_round now e) = wf_sleep e"
  "idle (prepare_to_new_round now e) = idle e"
  by (simp_all add: prepare_to_new_round_def tasks_of_def wf_sleep_def idle_def)

lemma executor_work_conserves:
  assumes "exec_conserves K L exec" and "finite Q" and "interactor_wf Q it" and "ia_id_to_retry it = []"
    and "wf_sleep e" and "idle e"
    and "executor_work fuel dbg free exec env (e, it, qs) = Some (Inr (nearest, ls, e', it', qs'))"
  shows "idle e' \<and> wf_sleep e' \<and> interactor_wf Q it' \<and> ia_id_to_retry it' = [] \<and>
    kept K (tasks_of L e' + shared_keys ls + in_transit Q it' qs') =
    kept K (tasks_of L e + shared_keys (map snd (re_neighbours env)) + in_transit Q it qs)"
proof -
  from assms(7) obtain e1 e2 e3 b ts pool where
    r: "executor_interact dbg env (prepare_to_new_round (re_now env) e, it, qs) = Inr (e1, it', qs')"
    "exec_cpu_tasks dbg exec e1 = Some (Inr e2)"
    "take_work_if_needed dbg (re_own_free env) (re_tries env) (re_neighbours env) e2 = Inr (ls, e3)"
    "thread_pool_poll dbg (ex_local_tasks e3) (ex_thread_pool e3) = Inr (b, ts, pool)"
    "check_sleeping_tasks fuel dbg free exec (re_sleep_now env) (e3\<lparr>ex_local_tasks := ts, ex_thread_pool := pool\<rparr>) =
       Some (Inr (nearest, e'))"
    by (rule executor_work_cases)
  have 1: "interactor_wf Q it'" "ia_id_to_retry it' = []" "idle e1" "wf_sleep e1"
      "tasks_of L e1 + in_transit Q it' qs' = tasks_of L e + in_transit Q it qs"
    using executor_interact_ok[OF assms(2-4), of dbg env "prepare_to_new_round (re_now env) e" qs L] r(1) assms(5,6) by auto
  have 2: "idle e2" "wf_sleep e2" "kept K (tasks_of L e2) = kept K (tasks_of L e1)"
    using exec_cpu_tasks_conserves[OF assms(1) r(2) 1(3)] 1(4) by auto
  have 3: "idle e3" "wf_sleep e3" "tasks_of L e3 + shared_keys ls = tasks_of L e2 + shared_keys (map snd (re_neighbours env))"
    using take_work_keys[OF r(3), of L] 2 by auto
  let ?e = "e3\<lparr>ex_local_tasks := ts, ex_thread_pool := pool\<rparr>"
  have 4: "tasks_of L ?e = tasks_of L e3"
    using thread_pool_poll_keys[OF r(4)] by (simp add: tasks_of_def ac_simps)
  have 5: "idle e'" "wf_sleep e'" "kept K (tasks_of L e') = kept K (tasks_of L ?e)"
    using check_sleeping_tasks_conserves[OF assms(1) r(5)] 3(1,2) by simp_all
  have "kept K (tasks_of L e') + kept K (shared_keys ls) = kept K (tasks_of L e1) + kept K (shared_keys (map snd (re_neighbours env)))"
    using 5(3) 4 arg_cong[OF 3(3), of "kept K"] 2(3) by simp
  moreover have "kept K (tasks_of L e1) + kept K (in_transit Q it' qs') = kept K (tasks_of L e) + kept K (in_transit Q it qs)"
    using arg_cong[OF 1(5), of "kept K"] by simp
  ultimately have "kept K (tasks_of L e') + (kept K (in_transit Q it' qs') + kept K (shared_keys ls)) =
      kept K (tasks_of L e) + (kept K (in_transit Q it qs) + kept K (shared_keys (map snd (re_neighbours env))))"
    by (rule balance_chain)
  then have "kept K (tasks_of L e' + shared_keys ls + in_transit Q it' qs') =
      kept K (tasks_of L e + shared_keys (map snd (re_neighbours env)) + in_transit Q it qs)"
    by (simp only: kept_simps ac_simps)
  with 1(1,2) 5(1,2) show ?thesis by simp
qed

section \<open>The depth limit\<close>

text \<open>A poll that does not lower the depth: the limit makes every chain of hand-overs end.\<close>

definition poll_deepens :: "poll_fun \<Rightarrow> bool" where
  "poll_deepens poll \<longleftrightarrow> (\<forall>t e r e'. poll t e = Inr (r, e') \<longrightarrow> ex_exec_series e \<le> ex_exec_series e')"

lemma handle_call_returns:
  assumes "\<And>u s. ex_exec_series s = ex_exec_series e \<Longrightarrow> exec u s \<noteq> None"
  shows "handle_call dbg free exec t e \<noteq> None"
  using assms
  by (auto simp: handle_call_def Let_def split: call.splits prod.splits option.splits)

lemma exec_task_returns:
  assumes "poll_deepens poll"
  shows "64 \<le> ex_exec_series e + fuel \<Longrightarrow> 0 < fuel \<Longrightarrow> exec_task fuel dbg test free poll t e \<noteq> None"
proof (induction fuel arbitrary: t e)
  case (Suc fuel)
  show ?case
  proof (cases "ex_exec_series e < 63")
    case True
    let ?flag = "\<lambda>b e. if dbg then e\<lparr>ex_executing := (ex_executing e)(task_is_executing t := b)\<rparr> else e"
    have h: "handle_call dbg free (exec_task fuel dbg test free poll) t' (?flag False e2) \<noteq> None"
      if "poll t' (?flag True (e\<lparr>ex_exec_series := ex_exec_series e + 1\<rparr>)) = Inr (r, e2)" for t' r e2
    proof (rule handle_call_returns)
      have "ex_exec_series e + 1 \<le> ex_exec_series e2"
        using assms that unfolding poll_deepens_def by (fastforce split: if_splits)
      then show "exec_task fuel dbg test free poll u s \<noteq> None" if "ex_exec_series s = ex_exec_series (?flag False e2)" for u s
        using Suc.prems True that by (intro Suc.IH) (auto split: if_splits)
    qed
    then show ?thesis
      using True by (auto simp: exec_task_now_def Let_def split: sum.splits prod.splits poll.splits)
  qed (simp add: Let_def)
qed simp

section \<open>Sleeping\<close>

lemma sleep_slot_free: "sleep_slot ks t \<notin> set ks \<and> t \<le> sleep_slot ks t \<and> (\<forall>u. t \<le> u \<and> u < sleep_slot ks t \<longrightarrow> u \<in> set ks)"
proof (induction ks t rule: sleep_slot.induct)
  case (1 ks t)
  show ?case
  proof (cases "t \<in> set ks")
    case True
    then have eq: "sleep_slot ks t = sleep_slot ks (t + 1)" by (simp add: sleep_slot.simps)
    have "u \<in> set ks" if "t \<le> u" "u < sleep_slot ks t" for u
      using that 1[OF True] True by (cases "u = t") (auto simp: eq)
    with 1[OF True] show ?thesis by (simp add: eq)
  next
    case False
    then have "sleep_slot ks t = t" by (simp add: sleep_slot.simps)
    with False show ?thesis by auto
  qed
qed

lemma btree_insert_new:
  "sorted_wrt (<) (map fst m) \<Longrightarrow> k \<notin> fst ` set m \<Longrightarrow>
   sorted_wrt (<) (map fst (btree_insert k v m)) \<and> mset (btree_insert k v m) = add_mset (k, v) (mset m)"
proof (induction m)
  case (Cons e m)
  obtain k' v' where e: "e = (k', v')" by fastforce
  have s: "fst ` set (btree_insert k v m) = insert k (fst ` set m)"
    using arg_cong[of _ _ set_mset, OF conjunct2[OF Cons.IH]] Cons.prems by force
  with Cons e show ?case by (auto simp: add_mset_commute)
qed simp

lemma sleep_poll_first:
  assumes "wf_sleep e" and "sleep_poll False until t e = (r, b, slot, e')"
  shows "wf_sleep e' \<and> until \<le> slot \<and> mset (ex_sleeping_tasks e') = add_mset (slot, t) (mset (ex_sleeping_tasks e)) \<and>
    tasks_of L e' = add_mset (task_key t) (tasks_of L e)"
proof -
  have slot: "slot = sleep_slot (map fst (ex_sleeping_tasks e)) until"
    and e': "e' = e\<lparr>ex_sleeping_tasks := btree_insert slot t (ex_sleeping_tasks e)\<rparr>"
    using assms(2) by (auto simp: sleep_poll_def Let_def)
  have free: "slot \<notin> fst ` set (ex_sleeping_tasks e)" "until \<le> slot"
    using sleep_slot_free[of "map fst (ex_sleeping_tasks e)" until] by (auto simp: slot)
  note i = btree_insert_new[OF _ free(1), of t] assms(1)
  then have m: "mset (btree_insert slot t (ex_sleeping_tasks e)) = add_mset (slot, t) (mset (ex_sleeping_tasks e))"
    by (simp add: wf_sleep_def)
  then have "keys (map snd (btree_insert slot t (ex_sleeping_tasks e))) =
      add_mset (task_key t) (keys (map snd (ex_sleeping_tasks e)))"
    by (simp add: keys_def multiset.map_comp comp_def)
  with i m free(2) e' show ?thesis by (simp add: wf_sleep_def tasks_of_def)
qed

text \<open>
  Tasks that do not sleep again when they are resumed. \<open>resume_each\<close> is what the pass over the sleeping tasks amounts to then: it takes the first
  sleeping task off the map and resumes it, as often as there are due tasks.
\<close>

definition poll_awake :: "poll_fun \<Rightarrow> bool" where
  "poll_awake poll \<longleftrightarrow> (\<forall>t e r e'. poll t e = Inr (r, e') \<longrightarrow>
     ex_sleeping_tasks e' = ex_sleeping_tasks e \<and> ex_start_round_time e' = ex_start_round_time e)"

definition exec_awake :: "exec_fun \<Rightarrow> bool" where
  "exec_awake exec \<longleftrightarrow> (\<forall>t e e'. exec t e = Some (Inr e') \<longrightarrow>
     ex_sleeping_tasks e' = ex_sleeping_tasks e \<and> ex_start_round_time e' = ex_start_round_time e)"

fun resume_each :: "bool \<Rightarrow> (executor \<Rightarrow> bool) \<Rightarrow> exec_fun \<Rightarrow> task list \<Rightarrow> executor \<Rightarrow> executor res option" where
  "resume_each dbg free exec [] e = Some (Inr e)"
| "resume_each dbg free exec (t # ts) e =
     (let e1 = e\<lparr>ex_sleeping_tasks := tl (ex_sleeping_tasks e)\<rparr> in
      bindO (if task_is_local t then exec t e1 else Some (spawn_shared_task dbg (free e1) t e1))
        (resume_each dbg free exec ts))"

lemma spawn_awake:
  "spawn_local_task dbg t e = Inr e' \<Longrightarrow> ex_sleeping_tasks e' = ex_sleeping_tasks e \<and> ex_start_round_time e' = ex_start_round_time e"
  "spawn_shared_task dbg free t e = Inr e' \<Longrightarrow> ex_sleeping_tasks e' = ex_sleeping_tasks e \<and> ex_start_round_time e' = ex_start_round_time e"
  by (auto simp: spawn_local_task_def spawn_shared_task_def try_flush_def bindR_Inr_conv Let_def
      split: if_splits option.splits)

lemma handle_call_awake:
  assumes "exec_awake exec" and "handle_call dbg free exec t e = Some (Inr e')"
  shows "ex_sleeping_tasks e' = ex_sleeping_tasks e \<and> ex_start_round_time e' = ex_start_round_time e"
proof (cases "ex_current_call e")
  case (PushCurrentTaskToAndRemoveItIfCounterIsZero l c)
  let ?s = "e\<lparr>ex_current_call := CallNone, ex_lists := (ex_lists e)(l := ex_lists e l)\<rparr>"
  have x: "ex_sleeping_tasks e' = ex_sleeping_tasks ?s \<and> ex_start_round_time e' = ex_start_round_time ?s"
    if "exec t ?s = Some (Inr e')"
    using assms(1) that unfolding exec_awake_def by blast
  show ?thesis
  proof (cases "ex_counters e c = 0")
    case True
    with PushCurrentTaskToAndRemoveItIfCounterIsZero assms(2) x show ?thesis
      by (auto simp: handle_call_def Let_def split: if_splits)
  next
    case False
    with PushCurrentTaskToAndRemoveItIfCounterIsZero assms(2) show ?thesis
      by (auto simp: handle_call_def Let_def split: if_splits)
  qed
qed (use assms(2) in \<open>auto simp: handle_call_def Let_def bindR_Inr_conv dest!: spawn_awake split: if_splits\<close>)

lemma exec_task_now_awake:
  assumes "poll_awake poll" and "exec_awake exec" and "exec_task_now dbg test free poll exec t e = Some (Inr e')"
  shows "ex_sleeping_tasks e' = ex_sleeping_tasks e \<and> ex_start_round_time e' = ex_start_round_time e"
proof -
  let ?flag = "\<lambda>b e. if dbg then e\<lparr>ex_executing := (ex_executing e)(task_is_executing t := b)\<rparr> else e"
  from assms(3) obtain t' r e2 where p: "poll t' (?flag True (e\<lparr>ex_exec_series := ex_exec_series e + 1\<rparr>)) = Inr (r, e2)"
    and res: "(case r of Ready _ \<Rightarrow> if dbg \<and> \<not> call_eq (ex_current_call (?flag False e2)) CallNone then Some (Inl DebugAssert)
          else Some (Inr ((?flag False e2)\<lparr>ex_released := t' # ex_released (?flag False e2)\<rparr>))
        | Pending \<Rightarrow> if \<not> call_is_none (ex_current_call (?flag False e2)) then handle_call dbg free exec t' (?flag False e2)
          else Some (Inr (?flag False e2))) = Some (Inr e')"
    by (auto simp: exec_task_now_def Let_def split: sum.splits prod.splits if_splits)
  have e2: "ex_sleeping_tasks e2 = ex_sleeping_tasks e \<and> ex_start_round_time e2 = ex_start_round_time e"
    using assms(1)[unfolded poll_awake_def, rule_format, OF p] by (simp split: if_splits)
  have "ex_sleeping_tasks e' = ex_sleeping_tasks (?flag False e2) \<and> ex_start_round_time e' = ex_start_round_time (?flag False e2)"
  proof (cases "r = Pending \<and> \<not> call_is_none (ex_current_call (?flag False e2))")
    case True
    with res have "handle_call dbg free exec t' (?flag False e2) = Some (Inr e')" by (simp split: if_splits)
    then show ?thesis by (rule handle_call_awake[OF assms(2)])
  qed (use res in \<open>auto split: poll.splits if_splits\<close>)
  with e2 show ?thesis by (simp split: if_splits)
qed

lemma exec_task_awake:
  assumes "poll_awake poll"
  shows "exec_awake (exec_task fuel dbg test free poll)"
proof (induction fuel)
  case (Suc fuel)
  have "ex_sleeping_tasks e' = ex_sleeping_tasks e \<and> ex_start_round_time e' = ex_start_round_time e"
    if "exec_task (Suc fuel) dbg test free poll t e = Some (Inr e')" for t e e'
  proof (cases "ex_exec_series e < 63")
    case True
    with that exec_task_now_awake[OF assms Suc] show ?thesis by simp
  next
    case False
    with that show ?thesis by (auto simp: Let_def dest!: spawn_awake split: if_splits)
  qed
  then show ?case by (simp only: exec_awake_def) blast
qed (simp add: exec_awake_def)

abbreviation resume_due :: "bool \<Rightarrow> (executor \<Rightarrow> bool) \<Rightarrow> exec_fun \<Rightarrow> nat \<Rightarrow> executor \<Rightarrow> executor res option" where
  "resume_due dbg free exec now e \<equiv>
     resume_each dbg free exec (map snd (filter (\<lambda>(k, t). k \<le> now) (ex_sleeping_tasks e))) e"

abbreviation nearest_of :: "nat \<Rightarrow> (nat \<times> task) list \<Rightarrow> nat option" where
  "nearest_of now m \<equiv> (if \<forall>(k, t) \<in> set m. k \<le> now then None else Some 0)"

lemma check_sleeping_loop_late:
  assumes "wf_sleep e" and "ex_start_round_time e = now" and "ex_sleeping_tasks e = (k, t) # rest" and "now < k"
  shows "check_sleeping_loop (Suc fuel) dbg free exec e = Some (Inr (Some 0, e)) \<and>
    resume_due dbg free exec now e = Some (Inr e) \<and> filter (\<lambda>(k, t). now < k) (ex_sleeping_tasks e) = ex_sleeping_tasks e"
proof -
  have rest: "\<forall>(k', t') \<in> set rest. now < k'" using assms by (fastforce simp: wf_sleep_def)
  have "btree_insert k t rest = (k, t) # rest"
    using assms by (intro btree_insert_first) (simp add: wf_sleep_def)
  moreover have "e\<lparr>ex_sleeping_tasks := (k, t) # rest\<rparr> = e" using assms(3) by simp
  moreover have "filter (\<lambda>(k, t). k \<le> now) (ex_sleeping_tasks e) = []"
    "filter (\<lambda>(k, t). now < k) (ex_sleeping_tasks e) = ex_sleeping_tasks e"
    using assms(3,4) rest by (fastforce simp: filter_empty_conv filter_id_conv)+
  ultimately show ?thesis using assms by (auto simp: Let_def)
qed

lemma check_sleeping_loop_awake:
  assumes "exec_awake exec"
  shows "length (ex_sleeping_tasks e) < fuel \<Longrightarrow> wf_sleep e \<Longrightarrow> ex_start_round_time e = now \<Longrightarrow>
    check_sleeping_loop fuel dbg free exec e =
      bindO (resume_due dbg free exec now e) (\<lambda>e'. Some (Inr (nearest_of now (ex_sleeping_tasks e), e'))) \<and>
    (\<forall>e'. resume_due dbg free exec now e = Some (Inr e') \<longrightarrow>
      ex_sleeping_tasks e' = filter (\<lambda>(k, t). now < k) (ex_sleeping_tasks e))"
proof (induction fuel arbitrary: e)
  case (Suc fuel)
  show ?case
  proof (cases "ex_sleeping_tasks e")
    case (Cons kt rest)
    obtain k t where kt: "kt = (k, t)" by fastforce
    let ?e1 = "e\<lparr>ex_sleeping_tasks := rest\<rparr>"
    let ?r = "if task_is_local t then exec t ?e1 else Some (spawn_shared_task dbg (free ?e1) t ?e1)"
    show ?thesis
    proof (cases "k \<le> now")
      case True
      have late: "nearest_of now (ex_sleeping_tasks e) = nearest_of now rest"
        "filter (\<lambda>(k, t). now < k) (ex_sleeping_tasks e) = filter (\<lambda>(k, t). now < k) rest"
        "map snd (filter (\<lambda>(k, t). k \<le> now) (ex_sleeping_tasks e)) = t # map snd (filter (\<lambda>(k, t). k \<le> now) rest)"
        using Cons kt True by simp_all
      have step: "check_sleeping_loop (Suc fuel) dbg free exec e = bindO ?r (check_sleeping_loop fuel dbg free exec)"
        "resume_each dbg free exec (t # ts) e = bindO ?r (resume_each dbg free exec ts)" for ts
        using Cons kt True Suc.prems(3) by (simp_all add: Let_def)
      consider "?r = None" | pn where "?r = Some (Inl pn)" | e2 where "?r = Some (Inr e2)"
        by (metis not_Some_eq sum.exhaust)
      then show ?thesis
      proof cases
        case (3 e2)
        have e2: "ex_sleeping_tasks e2 = rest" "ex_start_round_time e2 = now"
          using 3 assms Suc.prems(3) unfolding exec_awake_def by (fastforce dest: spawn_awake split: if_splits)+
        then have "length (ex_sleeping_tasks e2) < fuel" "wf_sleep e2" using Suc.prems(1,2) Cons by (simp_all add: wf_sleep_def)
        note IH = Suc.IH[OF this e2(2), unfolded e2(1)]
        have "bindO ?r f = f e2" for f :: "executor \<Rightarrow> (nat option \<times> executor) res option" unfolding 3 by (simp add: bindO_def)
        moreover have "bindO ?r f = f e2" for f :: "executor \<Rightarrow> executor res option" unfolding 3 by (simp add: bindO_def)
        ultimately show ?thesis unfolding late step using IH by simp
      qed (simp_all only: late step, simp_all add: bindO_def)
    next
      case False
      then have "nearest_of now (ex_sleeping_tasks e) = Some 0" using Cons kt by auto
      with check_sleeping_loop_late[OF Suc.prems(2,3), of k t rest fuel dbg free exec] False Cons kt show ?thesis
        by (simp add: bindO_def)
    qed
  qed (simp add: bindO_def)
qed simp

section \<open>Timeouts\<close>

lemma up_to_17:
  "k \<le> 17 \<Longrightarrow> k = 0 \<or> k = 1 \<or> k = 2 \<or> k = 3 \<or> k = 4 \<or> k = 5 \<or> k = 6 \<or> k = 7 \<or> k = 8 \<or> k = 9 \<or>
   k = 10 \<or> k = 11 \<or> k = 12 \<or> k = 13 \<or> k = 14 \<or> k = 15 \<or> k = 16 \<or> k = (17 :: nat)"
  by presburger

lemma progressive_timeout_step:
  assumes "k \<le> 17"
  shows "progressive_timeout_timeout END_DUR_MICROS (2 ^ k) = (2 ^ min (Suc k) 17, 2 ^ min (Suc k) 17)"
  using up_to_17[OF assms]
  by (elim disjE) (simp_all add: progressive_timeout_timeout_def END_DUR_MICROS_def Let_def)

lemma progressive_timeout_start: "progressive_timeout_reset 64 = 2 ^ 5" "progressive_timeout_new 64 = 2 ^ 5"
  by (simp_all add: progressive_timeout_reset_def progressive_timeout_new_def)

definition timeout_wf :: "progressive_timeout \<Rightarrow> bool" where
  "timeout_wf cur \<longleftrightarrow> (\<exists>k \<le> 17. cur = 2 ^ k)"

lemma timeout_wf_step:
  assumes "timeout_wf cur" and "progressive_timeout_timeout END_DUR_MICROS cur = (d, cur')"
  shows "timeout_wf cur' \<and> d = cur' \<and> unat d \<le> 131072"
proof -
  obtain k where k: "k \<le> 17" "cur = 2 ^ k" using assms(1) by (auto simp: timeout_wf_def)
  define n where "n = min (Suc k) 17"
  have n: "n \<le> 17" by (simp add: n_def)
  have "(d, cur') = (2 ^ n, 2 ^ n)"
    using assms(2) unfolding k(2) progressive_timeout_step[OF k(1)] n_def by (rule sym)
  then have c: "cur' = 2 ^ n" "d = cur'" by simp_all
  have "unat ((2 :: 64 word) ^ n) \<le> 131072" using up_to_17[OF n] by (elim disjE) simp_all
  with c n show ?thesis unfolding timeout_wf_def by blast
qed

lemma progressive_timeout_with_shift_eq:
  "progressive_timeout_with_shift m n cur = (case progressive_timeout_timeout m cur of (d, cur') \<Rightarrow> (push_bit n d, cur'))"
  by (simp add: progressive_timeout_with_shift_def progressive_timeout_timeout_def Let_def)

lemma push_bit_2_bound: "unat d \<le> 131072 \<Longrightarrow> unat (push_bit 2 d :: 64 word) \<le> 524288"
  by (simp add: push_bit_eq_mult unat_mult_lem[THEN iffD1])

definition wait_at_most :: "nat \<Rightarrow> round_wait \<Rightarrow> bool" where
  "wait_at_most n w = (case w of MustPoll d \<Rightarrow> (case d of None \<Rightarrow> True | Some d \<Rightarrow> d \<le> n) | SleepAtMost d \<Rightarrow> d \<le> n | NoWait \<Rightarrow> True)"

lemma check_sleeping_loop_duration:
  "check_sleeping_loop fuel dbg free exec e = Some (Inr (Some d, e')) \<Longrightarrow> d = 0 \<and> ex_sleeping_tasks e' \<noteq> []"
proof (induction fuel arbitrary: e)
  case (Suc fuel)
  show ?case
  proof (cases "ex_sleeping_tasks e")
    case (Cons kt rest)
    obtain k t where kt: "kt = (k, t)" by fastforce
    have ne: "btree_insert k t m \<noteq> []" for m by (cases m) (auto split: if_splits)
    show ?thesis
    proof (cases "k \<le> ex_start_round_time e")
      case True
      with Suc.prems Cons kt obtain e2 where "check_sleeping_loop fuel dbg free exec e2 = Some (Inr (Some d, e'))"
        by (auto simp: bindO_Inr Let_def)
      then show ?thesis by (rule Suc.IH)
    qed (use Suc.prems Cons kt ne in \<open>auto simp: Let_def\<close>)
  qed (use Suc.prems in simp)
qed simp

section \<open>Properties\<close>

definition demo_config :: valid_config where
  "demo_config = \<lparr>vc_buffer_cap = 4096, vc_io_worker_config = None, vc_number_of_thread_workers = 1,
     vc_work_sharing_level = 1\<rparr>"

definition yield_once :: poll_fun where
  "yield_once t e = bindR (yield_poll False (ex_counters e 0 = 1) t e)
     (\<lambda>(r, _, e'). Inr (r, e'\<lparr>ex_counters := (ex_counters e')(0 := 1)\<rparr>))"

definition demo_env :: round_env where
  "demo_env = \<lparr>re_now = 1000, re_free1 = True, re_free2 = True, re_frees = (\<lambda>_. True), re_retries = (\<lambda>_. True),
     re_own_free = True, re_tries = 1, re_neighbours = [], re_sleep_now = 2000\<rparr>"

lemma yield_once_conserves: "poll_conserves K {} yield_once"
  by (auto simp: poll_conserves_def yield_once_def yield_poll_def add_task_at_the_start_of_lifo_local_queue_def
      add_task_at_the_start_of_lifo_shared_queue_def bindR_Inr_conv idle_def call_ok_def wf_sleep_def stores_task_def
      tasks_of_def ac_simps split: if_splits)

text \<open>
  \<open>exec_task\<close> at the depth limit queues the task and starts to count again. A chain of hand-overs from one
  task to the next is at most 64 calls long if no poll lowers the counter. A poll that itself executes a task at the limit does
  lower it, although the calls around it have not returned: the limit does not bound the stack then.
\<close>

theorem exec_task_bounded:
  assumes "poll_deepens poll"
  shows "(\<exists>r. exec_task 64 dbg test free poll t e = Some r) \<and>
    (63 \<le> ex_exec_series e \<longrightarrow> exec_task 64 dbg test free poll t e =
       Some (spawn_task dbg (free (e\<lparr>ex_exec_series := 0\<rparr>)) t (e\<lparr>ex_exec_series := 0\<rparr>)))"
proof (rule conjI)
  show "\<exists>r. exec_task 64 dbg test free poll t e = Some r"
    using exec_task_returns[OF assms, of e 64 dbg test free t] by auto
  show "63 \<le> ex_exec_series e \<longrightarrow> exec_task 64 dbg test free poll t e =
      Some (spawn_task dbg (free (e\<lparr>ex_exec_series := 0\<rparr>)) t (e\<lparr>ex_exec_series := 0\<rparr>))"
    using exec_task.simps(2)[of 63 dbg test free poll t e] by (simp add: spawn_task_def Let_def)
qed

definition hand_over :: poll_fun where
  "hand_over t e = Inr (Pending, e\<lparr>ex_current_call := PushCurrentTaskToAndRemoveItIfCounterIsZero 0 0\<rparr>)"

theorem exec_task_bounded_witness:
  "\<exists>r. exec_task 64 False False (\<lambda>_. True) hand_over demo_task (executor_init 0 demo_config 0 0) = Some r"
proof -
  have "poll_deepens hand_over" by (auto simp: poll_deepens_def hand_over_def)
  from exec_task_bounded[OF this] show ?thesis by blast
qed

text \<open>
  C30. Sleeping. The first poll of a sleep registers the task at a time that was free and is not before its deadline,
  moves no other task, and keeps the times sorted. Then take a pass over the sleeping tasks whose polls put no task to sleep and leave the time of the round alone,
  with fuel for all of them: it resumes the due tasks, all of them and no other, in the order of their times, each by
  \<open>exec_task\<close> if it is local and by queueing it if it is shared, ends as these resumptions end, and when none of them panics the
  tasks that are still asleep are exactly those whose time has not come.
\<close>

theorem sleep_wakes_due_tasks:
  assumes "wf_sleep e" and "sleep_poll False until t e = (r, b, slot, e1)" and "poll_awake poll"
    and "length (ex_sleeping_tasks e) + 1 < fuel"
  shows "until \<le> slot \<and> slot \<notin> set (map fst (ex_sleeping_tasks e)) \<and> wf_sleep e1 \<and>
    mset (ex_sleeping_tasks e1) = add_mset (slot, t) (mset (ex_sleeping_tasks e)) \<and>
    (let exec = exec_task depth dbg test free poll;
         due = map snd (filter (\<lambda>(k, u). k \<le> now) (ex_sleeping_tasks e1));
         late = filter (\<lambda>(k, u). now < k) (ex_sleeping_tasks e1);
         resumed = resume_each dbg free exec due (e1\<lparr>ex_start_round_time := now\<rparr>) in
     check_sleeping_tasks fuel dbg free exec now e1 =
       bindO resumed (\<lambda>e2. Some (Inr (if late = [] then None else Some 0, e2))) \<and>
     (\<forall>e2. resumed = Some (Inr e2) \<longrightarrow> ex_sleeping_tasks e2 = late))"
proof -
  note s = sleep_poll_first[OF assms(1,2)]
  let ?e = "e1\<lparr>ex_start_round_time := now\<rparr>"
  have slot: "slot \<notin> set (map fst (ex_sleeping_tasks e))"
    using sleep_slot_free[of "map fst (ex_sleeping_tasks e)" until] assms(2) by (auto simp: sleep_poll_def Let_def)
  have "ex_sleeping_tasks e1 \<noteq> []" using s by auto
  then have c: "check_sleeping_tasks fuel dbg free exec now e1 = check_sleeping_loop fuel dbg free exec ?e" for exec
    by (simp add: check_sleeping_tasks_def)
  have "length (ex_sleeping_tasks e1) = length (ex_sleeping_tasks e) + 1"
    using s[of "{}"] size_mset[of "ex_sleeping_tasks e1"] by (metis One_nat_def add.commute plus_1_eq_Suc size_add_mset size_mset)
  then have "length (ex_sleeping_tasks ?e) < fuel" "wf_sleep ?e" "ex_start_round_time ?e = now"
    using s assms(4) by simp_all
  note loop = check_sleeping_loop_awake[OF exec_task_awake[OF assms(3), of depth dbg test free] this, of dbg free]
  have near: "nearest_of now m = (if filter (\<lambda>(k, u). now < k) m = [] then None else Some 0)" for m :: "(nat \<times> task) list"
  proof -
    have "(\<forall>(k, u) \<in> set m. k \<le> now) \<longleftrightarrow> filter (\<lambda>(k, u). now < k) m = []" by (induction m) auto
    then show ?thesis by simp
  qed
  have up: "ex_sleeping_tasks ?e = ex_sleeping_tasks e1" by simp
  show ?thesis
    unfolding Let_def c using s slot loop[unfolded near up] by blast
qed

definition local_demo_task :: task where
  "local_demo_task = demo_task\<lparr>task_data := \<lparr>td_tagged_ptr = - 1\<rparr>\<rparr>"

lemma local_demo_task_local: "task_is_local local_demo_task"
  by (simp add: local_demo_task_def task_is_local_def task_data_is_local_def IS_LOCAL_MASK_def)

definition queue_exec :: exec_fun where
  "queue_exec t e = Some (Inr (e\<lparr>ex_local_tasks := ex_local_tasks e @ [t]\<rparr>))"

definition finish_at_once :: poll_fun where
  "finish_at_once t e = Inr (Ready (), e)"

theorem sleep_wakes_due_tasks_witness:
  "\<exists>e1 e2. sleep_poll False 500 local_demo_task ((executor_init 0 demo_config 0 0)\<lparr>ex_sleeping_tasks := [(500, local_demo_task)]\<rparr>) =
       (Pending, True, 501, e1) \<and>
     check_sleeping_tasks 4 False (\<lambda>_. True) (exec_task 64 False False (\<lambda>_. True) finish_at_once) 500 e1 = Some (Inr (Some 0, e2)) \<and>
     ex_sleeping_tasks e2 = [(501, local_demo_task)] \<and> ex_released e2 = [local_demo_task]"
proof -
  let ?e = "(executor_init 0 demo_config 0 0)\<lparr>ex_sleeping_tasks := [(500, local_demo_task)]\<rparr>"
  let ?exec = "exec_task 64 False False (\<lambda>_. True) finish_at_once"
  have slot: "sleep_slot [500] 500 = 501" by (simp add: sleep_slot.simps)
  define e1 where "e1 = ?e\<lparr>ex_sleeping_tasks := [(500, local_demo_task), (501, local_demo_task)]\<rparr>"
  have s: "sleep_poll False 500 local_demo_task ?e = (Pending, True, 501, e1)"
    by (simp add: sleep_poll_def slot Let_def e1_def)
  have "wf_sleep ?e" "poll_awake finish_at_once" "length (ex_sleeping_tasks ?e) + 1 < 4"
    by (simp_all add: wf_sleep_def poll_awake_def finish_at_once_def)
  note w = sleep_wakes_due_tasks[OF this(1) s this(2,3), of 64 False False "\<lambda>_. True" 500, unfolded Let_def]
  have x: "?exec local_demo_task u = Some (Inr (u\<lparr>ex_exec_series := 1, ex_released := local_demo_task # ex_released u\<rparr>))"
    if "ex_exec_series u = 0" "idle u" for u
    using that exec_task.simps(2)[of 63 False False "\<lambda>_. True" finish_at_once local_demo_task u]
    by (simp add: exec_task_now_def finish_at_once_def Let_def)
  obtain e2 where r: "resume_each False (\<lambda>_. True) ?exec [local_demo_task] (e1\<lparr>ex_start_round_time := 500\<rparr>) = Some (Inr e2)"
    "ex_released e2 = [local_demo_task]"
    using x[of "e1\<lparr>ex_start_round_time := 500, ex_sleeping_tasks := [(501, local_demo_task)]\<rparr>"]
    by (simp add: local_demo_task_local e1_def executor_init_def idle_def bindO_def Let_def)
  have d: "map snd (filter (\<lambda>(k, u). k \<le> 500) (ex_sleeping_tasks e1)) = [local_demo_task]"
    "filter (\<lambda>(k, u). 500 < k) (ex_sleeping_tasks e1) = [(501, local_demo_task)]" by (simp_all add: e1_def)
  from w[unfolded d r(1)] have "check_sleeping_tasks 4 False (\<lambda>_. True) ?exec 500 e1 = Some (Inr (Some 0, e2))"
    "ex_sleeping_tasks e2 = [(501, local_demo_task)]" by (simp_all add: bindO_def)
  with s r(2) show ?thesis by blast
qed

text \<open>
  The duration that \<open>check_sleeping_tasks\<close> reports for the nearest deadline is always zero when
  a task is still asleep, since it subtracts the later time from the earlier one. So an executor with
  a sleeping task and nothing to do never waits: it polls its I/O worker with a zero timeout or sleeps zero time.
\<close>

theorem sleeping_executor_never_waits:
  assumes "check_sleeping_tasks fuel dbg free exec now e = Some (Inr (nearest, e'))" and "nearest \<noteq> None"
  shows "nearest = Some 0 \<and> ex_sleeping_tasks e' \<noteq> [] \<and>
    map (\<lambda>io. fst (wait_for_work io False nearest cur)) [None, Some False, Some True] =
      [SleepAtMost 0, SleepAtMost 0, MustPoll (Some 0)]"
  using assms check_sleeping_loop_duration[of fuel dbg free exec "e\<lparr>ex_start_round_time := now\<rparr>"]
  by (auto simp: check_sleeping_tasks_def wait_for_work_def split: if_splits prod.splits)

theorem sleeping_executor_never_waits_witness:
  "\<exists>e'. check_sleeping_tasks 2 False (\<lambda>_. True) queue_exec 500
        ((executor_init 0 demo_config 0 0)\<lparr>ex_sleeping_tasks := [(10000500, local_demo_task)]\<rparr>) = Some (Inr (Some 0, e')) \<and>
     fst (wait_for_work (Some False) False (Some 0) 32) = SleepAtMost 0"
proof -
  let ?r = "check_sleeping_tasks 2 False (\<lambda>_. True) queue_exec 500
        ((executor_init 0 demo_config 0 0)\<lparr>ex_sleeping_tasks := [(10000500, local_demo_task)]\<rparr>)"
  obtain n e' where r: "?r = Some (Inr (n, e'))" "n \<noteq> None"
    by (simp add: check_sleeping_tasks_def numeral_2_eq_2 Let_def)
  from sleeping_executor_never_waits[OF this, of 32] r show ?thesis by auto
qed

text \<open>
  C31. The wait at the end of a round is bounded: the progressive timeout stays a power of two of at most
  131072 microseconds and starts at 32, a thread sleeps at most that and a poll of the I/O worker lasts at
  most four times that, neither is longer than the time to the nearest deadline, and with CPU
  work there is no wait.
\<close>

theorem wait_for_work_bounded:
  assumes "timeout_wf cur" and "wait_for_work io cpu nearest cur = (w, cur')"
  shows "timeout_wf (progressive_timeout_new 64) \<and> timeout_wf cur' \<and> wait_at_most (524288 * 1000) w \<and>
    (case w of SleepAtMost d \<Rightarrow> d \<le> 131072 * 1000 | _ \<Rightarrow> True) \<and>
    (case nearest of None \<Rightarrow> True | Some n \<Rightarrow> wait_at_most n w) \<and> (cpu \<longrightarrow> w = (if io = Some True then MustPoll None else NoWait))"
proof -
  obtain d c where t: "progressive_timeout_timeout END_DUR_MICROS cur = (d, c)" by fastforce
  note wf = timeout_wf_step[OF assms(1) t]
  have start: "timeout_wf (progressive_timeout_reset 64)" "timeout_wf (progressive_timeout_new 64)"
    unfolding progressive_timeout_start timeout_wf_def by (intro exI[of _ 5]; simp)+
  have "unat (push_bit 2 d) \<le> 524288" using wf push_bit_2_bound by blast
  with wf start assms(2) show ?thesis
    unfolding wait_for_work_def progressive_timeout_with_shift_eq t prod.case
    by (auto simp: wait_at_most_def micros_def split: option.splits if_splits bool.splits)
qed

theorem wait_for_work_bounded_witness:
  "timeout_wf 32 \<and> timeout_wf 64 \<and> wait_for_work (Some False) False (Some 5000) 32 = (SleepAtMost 5000, 64)"
proof -
  have 1: "timeout_wf 32" unfolding timeout_wf_def by (intro exI[of _ 5]) simp
  have 2: "wait_for_work (Some False) False (Some 5000) 32 = (SleepAtMost 5000, 64)"
    by (simp add: wait_for_work_def progressive_timeout_timeout_def END_DUR_MICROS_def micros_def Let_def)
  from wait_for_work_bounded[OF 1 2] 1 2 show ?thesis by simp
qed

text \<open>
  With a work sharing level above 17, an executor with more than 16 shared tasks but fewer than the level whose
  own list has nothing to take computes a negative limit for its neighbours: a debug build panics, a
  release build takes everything the first free neighbour has.
\<close>

theorem take_work_limit_underflows:
  assumes "16 < length (ex_shared_tasks e)" and "length (ex_shared_tasks e) < unat (vc_work_sharing_level (ex_config e))"
    and "ex_shared_tasks_list e = Some []" and "length (ex_shared_tasks e) + length (stl_list l) \<le> usize_max"
  shows "take_work_if_needed True own 1 [(True, l)] e = Inl Overflow \<and>
    take_work_if_needed False own 1 [(True, l)] e =
      Inr ([l\<lparr>stl_list := []\<rparr>], e\<lparr>ex_shared_tasks := ex_shared_tasks e @ stl_list l\<rparr>)"
proof -
  have eq: "take_work_if_needed d own 1 [(True, l)] e =
      bindR (take_from_neighbours d [(True, l)] e) (\<lambda>(ls, e'). Inr (ls, e'))" for d
    unfolding take_work_if_needed_def using assms(2,3) by (simp add: not_le[symmetric])
  have "min (length (stl_list l)) (16 + (usize_max + 1) - length (ex_shared_tasks e)) = length (stl_list l)"
    using assms(4) by simp
  with assms(1,4) show ?thesis
    unfolding eq by (simp add: usize_sub_def MAX_NUMBER_OF_TASKS_TAKEN_def shared_task_list_take_batch_def copy_batch_eq Let_def)
qed

theorem take_work_limit_underflows_witness:
  "\<exists>e. length (ex_shared_tasks e) = 17 \<and> take_work_if_needed True False 1 [(True, \<lparr>stl_executor_id = 1, stl_list = [demo_task]\<rparr>)] e = Inl Overflow"
proof -
  let ?e = "(executor_init 0 (demo_config\<lparr>vc_work_sharing_level := 100\<rparr>) 0 0)\<lparr>ex_shared_tasks := replicate 17 demo_task\<rparr>"
  have "ex_shared_tasks_list ?e = Some []" "length (ex_shared_tasks ?e) = 17" "unat (vc_work_sharing_level (ex_config ?e)) = 100"
    by (simp_all add: executor_init_def demo_config_def valid_config_is_work_sharing_enabled_def)
  moreover from this(2) have "length (ex_shared_tasks ?e) + length (stl_list \<lparr>stl_executor_id = 1, stl_list = [demo_task]\<rparr>) \<le> usize_max"
    by (simp add: usize_max_def)
  ultimately show ?thesis
    using take_work_limit_underflows[of ?e "\<lparr>stl_executor_id = 1, stl_list = [demo_task]\<rparr>" False] by (intro exI[of _ ?e]) auto
qed

text \<open>
  \<open>asyncify\<close> from a local task: the job runs on the worker, but the worker of a debug build panics when it
  hands the task back, since the list of results accepts shared tasks only; the task is in no queue
  then. In a release build the next poll of the pool resumes the task.
\<close>

theorem asyncify_local_task_panics:
  assumes "task_is_local t" and "idle e" and "ex_thread_pool e = thread_pool_new 1"
    and "vc_number_of_thread_workers (ex_config e) = 1"
  shows "\<exists>e1 e2. asyncify_poll dbg False f e = Inr (Pending, True, e1) \<and>
    handle_call dbg free exec t e1 = Some (Inr e2) \<and>
    thread_worker_run_once True 0 (ex_thread_pool e2) = Inl Asserted \<and>
    (\<exists>p. thread_worker_run_once False 0 (ex_thread_pool e2) = Inr (Some f, p) \<and>
       thread_pool_poll False ls p = Inr (True, ls @ [t], thread_pool_new 1))"
  using assms
  by (simp add: asyncify_poll_def invoke_call_def idle_def call_is_none_def handle_call_def thread_pool_push_def
      thread_pool_new_def thread_worker_run_once_def thread_pool_poll_def Let_def)

theorem asyncify_local_task_panics_witness:
  "\<exists>e1 e2. asyncify_poll True False 7 (executor_init 0 demo_config 0 0) = Inr (Pending, True, e1) \<and>
     handle_call True (\<lambda>_. True) queue_exec local_demo_task e1 = Some (Inr e2) \<and>
     thread_worker_run_once True 0 (ex_thread_pool e2) = Inl Asserted"
proof -
  have "idle (executor_init 0 demo_config 0 0)" "ex_thread_pool (executor_init 0 demo_config 0 0) = thread_pool_new 1"
    "vc_number_of_thread_workers (ex_config (executor_init 0 demo_config 0 0)) = 1"
    by (simp_all add: idle_def executor_init_def demo_config_def)
  from asyncify_local_task_panics[OF local_demo_task_local this, of True 7 "\<lambda>_. True" queue_exec] show ?thesis by blast
qed

end
