(* ===== verification/Io_Requests.thy ===== *)
theory Io_Requests
  imports Executor_Core
begin

text \<open>
  What all I/O requests share: \<open>src/src/io/io_request_data.rs\<close>, the ordered set of deadlines
  (\<open>src/src/io/time_bounded_io_task.rs\<close>) and the polls that the macros of
  \<open>src/orengine-macros/src/lib.rs\<close> generate for the futures of \<open>src/src/io\<close>.
\<close>

section \<open>Errors and results\<close>

text \<open>
  \<open>std::io::Error\<close> from a kind or from an error number of Linux; \<open>kind\<close> decodes the numbers that
  the code distinguishes.
\<close>

datatype io_error_kind = TimedOut | WouldBlock | Interrupted | OtherKind

datatype io_error = FromKind io_error_kind | RawOs nat

definition ETIMEDOUT :: nat where "ETIMEDOUT = 110"
definition EAGAIN :: nat where "EAGAIN = 11"
definition EINTR :: nat where "EINTR = 4"
definition EINPROGRESS :: nat where "EINPROGRESS = 115"
definition ECANCELED :: nat where "ECANCELED = 125"

fun io_error_kind_of :: "io_error \<Rightarrow> io_error_kind" where
  "io_error_kind_of (FromKind k) = k"
| "io_error_kind_of (RawOs n) =
     (if n = ETIMEDOUT then TimedOut else if n = EAGAIN then WouldBlock else if n = EINTR then Interrupted else OtherKind)"

type_synonym io_result = "io_error + nat"

definition UNINIT_RESULT :: io_result where
  "UNINIT_RESULT = Inr (2 ^ 32 - 1)"

section \<open>The data of a request\<close>

text \<open>
  It is a field of the future, at an address that is the user data of the request. A memory maps
  the addresses of such fields to their value.
\<close>

record io_request_data =
  rd_ret :: io_result
  rd_task :: task
  rd_was_executed :: bool

type_synonym request_ptr = "64 word"

type_synonym request_memory = "request_ptr \<Rightarrow> io_request_data option"

definition io_request_new :: "task \<Rightarrow> io_request_data" where
  "io_request_new t = \<lparr>rd_ret = UNINIT_RESULT, rd_task = t, rd_was_executed = False\<rparr>"

definition io_request_set_ret :: "io_result \<Rightarrow> io_request_data \<Rightarrow> io_request_data" where
  "io_request_set_ret ret r = r\<lparr>rd_ret := ret\<rparr>"

definition io_request_ret :: "bool \<Rightarrow> io_request_data \<Rightarrow> io_result \<times> io_request_data" where
  "io_request_ret dbg r = (rd_ret r, if dbg then r\<lparr>rd_ret := UNINIT_RESULT\<rparr> else r)"

definition io_request_task :: "bool \<Rightarrow> io_request_data \<Rightarrow> (task \<times> io_request_data) res" where
  "io_request_task dbg r =
     (if dbg then if rd_was_executed r then Inl Asserted else Inr (rd_task r, r\<lparr>rd_was_executed := True\<rparr>)
      else Inr (rd_task r, r))"

text \<open>What a worker does with the task of a finished request.\<close>

definition wake_finished :: "task \<Rightarrow> task wake" where
  "wake_finished t = (if task_is_local t then ExecTask t else SpawnSharedTask t)"

section \<open>Deadlines\<close>

text \<open>
  The ordered set compares deadlines only. An insertion into it fails if the deadline is taken, and the callers try
  the next nanosecond; this is the loop of \<open>Sleep::poll\<close>.
\<close>

definition time_bounded_insert :: "nat \<Rightarrow> 'd \<Rightarrow> (nat \<times> 'd) list \<Rightarrow> bool \<times> (nat \<times> 'd) list" where
  "time_bounded_insert deadline d q =
     (if deadline \<in> fst ` set q then (False, q) else (True, btree_insert deadline d q))"

definition time_bounded_remove :: "nat \<Rightarrow> (nat \<times> 'd) list \<Rightarrow> bool \<times> (nat \<times> 'd) list" where
  "time_bounded_remove deadline q = (deadline \<in> fst ` set q, filter (\<lambda>(k, _). k \<noteq> deadline) q)"

lemma register_decreases:
  "deadline \<in> fst ` set q \<Longrightarrow> card {k \<in> fst ` set q. Suc deadline \<le> k} < card {k \<in> fst ` set q. deadline \<le> k}"
  using sleep_slot_decreases[of deadline "map fst q"] by simp

function register_deadline :: "nat \<Rightarrow> 'd \<Rightarrow> (nat \<times> 'd) list \<Rightarrow> nat \<times> (nat \<times> 'd) list" where
  "register_deadline deadline d q =
     (case time_bounded_insert deadline d q of
        (True, q') \<Rightarrow> (deadline, q')
      | (False, _) \<Rightarrow> register_deadline (deadline + 1) d q)"
  by pat_completeness auto
termination
  by (relation "measure (\<lambda>(t, _, q). card {k \<in> fst ` set q. t \<le> k})")
     (auto simp: time_bounded_insert_def intro: register_decreases split: if_splits)

declare register_deadline.simps [simp del]

lemma register_deadline_eq:
  "register_deadline deadline d q =
     (sleep_slot (map fst q) deadline, btree_insert (sleep_slot (map fst q) deadline) d q)"
proof (induction deadline d q rule: register_deadline.induct)
  case (1 deadline d q)
  show ?case
  proof (cases "deadline \<in> fst ` set q")
    case True
    then have "time_bounded_insert deadline d q = (False, q)" by (simp add: time_bounded_insert_def)
    with 1[of False] True show ?thesis
      by (simp add: register_deadline.simps[of deadline] sleep_slot.simps[of _ deadline])
  next
    case False
    then show ?thesis
      by (simp add: register_deadline.simps[of deadline] sleep_slot.simps[of _ deadline] time_bounded_insert_def)
  qed
qed

abbreviation deadlines_wf :: "(nat \<times> 'd) list \<Rightarrow> bool" where
  "deadlines_wf q \<equiv> sorted_wrt (<) (map fst q)"

lemma register_deadline_ok:
  assumes "deadlines_wf q" and "register_deadline deadline d q = (deadline', q')"
  shows "deadlines_wf q' \<and> deadline \<le> deadline' \<and> deadline' \<notin> fst ` set q \<and>
    mset q' = add_mset (deadline', d) (mset q)"
proof -
  have "deadline' = sleep_slot (map fst q) deadline" "q' = btree_insert deadline' d q"
    using assms(2) by (auto simp: register_deadline_eq)
  with sleep_slot_free[of "map fst q" deadline] btree_insert_new[OF assms(1), of deadline' d] show ?thesis by auto
qed

lemma deadlines_wf_filter: "deadlines_wf q \<Longrightarrow> deadlines_wf (filter P q)"
  by (induction q) auto

lemma deadlines_wf_distinct: "deadlines_wf q \<Longrightarrow> distinct (map fst q)"
  by (induction q) auto

section \<open>Polling the future of a request\<close>

text \<open>
  The field \<open>io_request_data\<close> of the future at the address \<open>f\<close> and the worker. \<open>do_request\<close> hands the request to
  the worker; a request with a deadline may change the deadline of the future.
\<close>

definition poll_for_io_request ::
  "bool \<Rightarrow> (request_ptr \<Rightarrow> 'w \<Rightarrow> 'w) \<Rightarrow> task \<Rightarrow> request_ptr \<Rightarrow> request_memory \<times> 'w \<Rightarrow>
   io_result poll \<times> request_memory \<times> 'w" where
  "poll_for_io_request dbg do_request t f s =
     (case s of (mem, w) \<Rightarrow>
        (case mem f of
           Some io_request_data \<Rightarrow> (Ready (fst (io_request_ret dbg io_request_data)), mem(f := None), w)
         | None \<Rightarrow> (Pending, mem(f \<mapsto> io_request_new t), do_request f w)))"

definition poll_for_time_bounded_io_request ::
  "bool \<Rightarrow> (request_ptr \<Rightarrow> nat \<Rightarrow> 'w \<Rightarrow> nat \<times> 'w) \<Rightarrow> (nat \<Rightarrow> 'w \<Rightarrow> 'w) \<Rightarrow> task \<Rightarrow> request_ptr \<Rightarrow> nat \<Rightarrow>
   request_memory \<times> 'w \<Rightarrow> io_result poll \<times> nat \<times> request_memory \<times> 'w" where
  "poll_for_time_bounded_io_request dbg do_request deregister t f deadline s =
     (case s of (mem, w) \<Rightarrow>
        (case mem f of
           Some io_request_data \<Rightarrow>
             (case fst (io_request_ret dbg io_request_data) of
                Inr ret \<Rightarrow> (Ready (Inr ret), deadline, mem(f := None), deregister deadline w)
              | Inl err \<Rightarrow>
                  (Ready (Inl err), deadline, mem(f := None),
                   if io_error_kind_of err \<noteq> TimedOut then deregister deadline w else w))
         | None \<Rightarrow>
             (case do_request f deadline w of
                (deadline', w') \<Rightarrow> (Pending, deadline', mem(f \<mapsto> io_request_new t), w'))))"

end
