(* ===== verification/Io_Methods.thy ===== *)
theory Io_Methods
  imports Io_Requests
begin

text \<open>
  The interface of the I/O workers, the trait \<open>IoWorker\<close> of \<open>src/src/io/worker.rs\<close>, and the worker of a thread.
  A call of a method is a value, so that a worker is a few functions with an equation for each method, and a future
  names the call it makes. The methods on sockets come with a variant \<open>_with_deadline\<close>, whose deadline is a
  further argument of these functions; the address of the request is another.
\<close>

section \<open>Arguments\<close>

type_synonym fd = int
type_synonym addr = "64 word"

text \<open>Where a future keeps its deadline.\<close>

type_synonym deadline_ptr = "64 word"

text \<open>The values of \<open>Shutdown\<close> are \<open>SHUT_RD\<close>, \<open>SHUT_WR\<close> and \<open>SHUT_RDWR\<close>.\<close>

datatype shutdown = ShutRead | ShutWrite | ShutBoth

section \<open>Methods\<close>

datatype conn_method =
    MAccept fd addr addr
  | MConnect fd addr nat
  | MPollSocketRead fd
  | MPollSocketWrite fd

datatype recv_method =
    MRecv fd addr "32 word"
  | MRecvFixed fd addr "32 word" "16 word"
  | MRecvFrom fd addr

datatype send_method =
    MSend fd addr "32 word"
  | MSendFixed fd addr "32 word" "16 word"
  | MSendTo fd addr

datatype peek_method =
    MPeek fd addr "32 word"
  | MPeekFixed fd addr "32 word" "16 word"
  | MPeekFrom fd addr

text \<open>The methods without a deadline: those that read, and those that write or change a directory or a descriptor.\<close>

datatype file_method =
    MShutdown fd shutdown
  | MOpen addr addr
  | MFallocate fd "64 word" "64 word" int
  | MSyncAll fd
  | MSyncData fd
  | MRead fd addr "32 word"
  | MReadFixed fd addr "32 word" "16 word"
  | MPread fd addr "32 word" "64 word"
  | MPreadFixed fd addr "32 word" "16 word" "64 word"

datatype write_method =
    MWrite fd addr "32 word"
  | MWriteFixed fd addr "32 word" "16 word"
  | MPwrite fd addr "32 word" "64 word"
  | MPwriteFixed fd addr "32 word" "16 word" "64 word"
  | MCloseFile fd
  | MCloseSocket fd
  | MRename addr addr
  | MCreateDir addr "32 word"
  | MRemoveFile addr
  | MRemoveDir addr

text \<open>A call of any method but \<open>socket\<close>.\<close>

datatype io_method =
    ConnMethod conn_method
  | RecvMethod recv_method
  | SendMethod send_method
  | PeekMethod peek_method
  | FileMethod file_method
  | WriteMethod write_method

section \<open>The worker of a thread\<close>

text \<open>The thread-local variable holds \<open>None\<close> until the thread starts its executor.\<close>

definition init_local_worker :: "('c \<Rightarrow> 'w) \<Rightarrow> 'c \<Rightarrow> 'w option \<Rightarrow> 'w option res" where
  "init_local_worker new config local = (if local \<noteq> None then Inl Asserted else Inr (Some (new config)))"

definition local_worker :: "bool \<Rightarrow> 'w option \<Rightarrow> 'w res" where
  "local_worker dbg local =
     (case local of Some w \<Rightarrow> Inr w | None \<Rightarrow> Inl (if dbg then Asserted else Undefined))"

lemma local_worker_initialised:
  assumes "init_local_worker new config local = Inr local'"
  shows "local_worker dbg local' = Inr (new config) \<and> init_local_worker new config' local' = Inl Asserted"
  using assms by (auto simp: init_local_worker_def local_worker_def split: if_splits)

end
