(* ===== verification/Io_Uring.thy ===== *)
theory Io_Uring
  imports Io_Methods
begin

text \<open>
  The I/O worker of Linux (\<open>src/src/io/sys/linux/io_uring.rs\<close>): entries of the submission queue,
  the backlog, deadlines, submission and completion. The kernel is an argument: what a submission
  takes and which completions a poll finds.
\<close>

section \<open>Entries\<close>

text \<open>The opcodes with what the worker sets of them. \<open>msg_flags\<close> is 0 or \<open>MSG_PEEK\<close>; an offset of all ones is the file position.\<close>

datatype sqe_op =
    SqSocket int int int
  | SqAccept fd addr addr
  | SqConnect fd addr nat
  | SqPollAdd fd nat
  | SqRecv fd addr "32 word" nat
  | SqReadFixed fd addr "32 word" "16 word" "64 word"
  | SqRecvMsg fd addr nat
  | SqSend fd addr "32 word"
  | SqWriteFixed fd addr "32 word" "16 word" "64 word"
  | SqSendMsg fd addr
  | SqShutdown fd nat
  | SqOpenAt2 fd addr addr
  | SqFallocate fd "64 word" "64 word" int
  | SqFsync fd bool
  | SqRead fd addr "32 word" "64 word"
  | SqWrite fd addr "32 word" "64 word"
  | SqClose fd
  | SqRenameAt fd addr fd addr
  | SqMkDirAt fd addr "32 word"
  | SqUnlinkAt fd addr nat
  | SqAsyncCancel "64 word"

record sqe =
  sq_op :: sqe_op
  sq_user_data :: "64 word"

definition ASYNC_CLOSE_DATA :: "64 word" where "ASYNC_CLOSE_DATA = - 1"
definition POLLIN :: nat where "POLLIN = 1"
definition POLLOUT :: nat where "POLLOUT = 4"
definition MSG_PEEK :: nat where "MSG_PEEK = 2"
definition AT_FDCWD :: fd where "AT_FDCWD = - 100"
definition AT_REMOVEDIR :: nat where "AT_REMOVEDIR = 0x200"

record io_uring_worker =
  iu_entries :: nat
  iu_sq :: "sqe list"
  iu_backlog :: "sqe list"
  iu_socket_supported :: bool
  iu_time_bounded_io_task_queue :: "(nat \<times> 64 word) list"
  iu_number_of_active_tasks :: nat

definition io_uring_new :: "nat \<Rightarrow> bool \<Rightarrow> io_uring_worker" where
  "io_uring_new number_of_entries socket_supported =
     \<lparr>iu_entries = number_of_entries, iu_sq = [], iu_backlog = [], iu_socket_supported = socket_supported,
      iu_time_bounded_io_task_queue = [], iu_number_of_active_tasks = 0\<rparr>"

definition add_sqe :: "sqe \<Rightarrow> io_uring_worker \<Rightarrow> io_uring_worker" where
  "add_sqe sqe w =
     (let w1 = w\<lparr>iu_number_of_active_tasks := iu_number_of_active_tasks w + 1\<rparr> in
      if length (iu_sq w1) < iu_entries w1 then w1\<lparr>iu_sq := iu_sq w1 @ [sqe]\<rparr>
      else w1\<lparr>iu_backlog := iu_backlog w1 @ [sqe]\<rparr>)"

definition register_entry :: "sqe_op \<Rightarrow> request_ptr \<Rightarrow> io_uring_worker \<Rightarrow> io_uring_worker" where
  "register_entry op data w = add_sqe \<lparr>sq_op = op, sq_user_data = data\<rparr> w"

definition cancel_entry :: "64 word \<Rightarrow> io_uring_worker \<Rightarrow> io_uring_worker" where
  "cancel_entry data w = add_sqe \<lparr>sq_op = SqAsyncCancel data, sq_user_data = ASYNC_CLOSE_DATA\<rparr> w"

fun cancel_expired :: "nat \<Rightarrow> (nat \<times> 64 word) list \<Rightarrow> io_uring_worker \<Rightarrow> io_uring_worker" where
  "cancel_expired now [] w = w\<lparr>iu_time_bounded_io_task_queue := []\<rparr>"
| "cancel_expired now ((deadline, user_data) # q) w =
     (if deadline \<le> now then cancel_expired now q (cancel_entry user_data w)
      else w\<lparr>iu_time_bounded_io_task_queue := btree_insert deadline user_data q\<rparr>)"

definition io_uring_check_deadlines :: "nat \<Rightarrow> io_uring_worker \<Rightarrow> io_uring_worker" where
  "io_uring_check_deadlines start_round_time w =
     (if iu_time_bounded_io_task_queue w = [] then w
      else cancel_expired start_round_time (iu_time_bounded_io_task_queue w) w)"

definition register_time_bounded_io_task ::
  "request_ptr \<Rightarrow> nat \<Rightarrow> io_uring_worker \<Rightarrow> nat \<times> io_uring_worker" where
  "register_time_bounded_io_task data deadline w =
     (case register_deadline deadline data (iu_time_bounded_io_task_queue w) of
        (deadline', q) \<Rightarrow> (deadline', w\<lparr>iu_time_bounded_io_task_queue := q\<rparr>))"

definition deregister_time_bounded_io_task :: "nat \<Rightarrow> io_uring_worker \<Rightarrow> io_uring_worker" where
  "deregister_time_bounded_io_task deadline w =
     w\<lparr>iu_time_bounded_io_task_queue := snd (time_bounded_remove deadline (iu_time_bounded_io_task_queue w))\<rparr>"

definition io_uring_has_work :: "io_uring_worker \<Rightarrow> bool" where
  "io_uring_has_work w = (iu_number_of_active_tasks w > 0)"

section \<open>Submission and completion\<close>

text \<open>
  A submission takes a number of entries, is refused because the completion queue is full, runs
  into its timeout, or fails. \<open>submit\<close> says what it does with the entries of the ring and those
  the kernel has. The kernel's entries are the second component of the state.
\<close>

datatype submit_outcome = Took nat | Busy | Elapsed | Failed

type_synonym submit_fun = "sqe list \<Rightarrow> sqe list \<Rightarrow> submit_outcome"

text \<open>
  The loop of \<open>submit_and_poll\<close>: the result is whether it failed. A push into a full ring is ignored.
\<close>

fun push_backlog ::
  "submit_fun \<Rightarrow> nat \<Rightarrow> sqe list \<Rightarrow> sqe list \<Rightarrow> sqe list \<Rightarrow> bool \<times> sqe list \<times> sqe list \<times> sqe list" where
  "push_backlog submit n [] sq k =
     (if n \<le> length sq then
        (case submit sq k of
           Took j \<Rightarrow> (True, [], drop j sq, k @ take j sq)
         | Busy \<Rightarrow> (True, [], sq, k)
         | _ \<Rightarrow> (False, [], sq, k))
      else (True, [], sq, k))"
| "push_backlog submit n (sqe # backlog) sq k =
     (if n \<le> length sq then
        (case submit sq k of
           Took j \<Rightarrow>
             let sq' = drop j sq in
             push_backlog submit n backlog (if length sq' < n then sq' @ [sqe] else sq') (k @ take j sq)
         | Busy \<Rightarrow> (True, sqe # backlog, sq, k)
         | _ \<Rightarrow> (False, sqe # backlog, sq, k))
      else push_backlog submit n backlog (sq @ [sqe]) k)"

definition submit_and_poll :: "submit_fun \<Rightarrow> io_uring_worker \<times> sqe list \<Rightarrow> bool \<times> io_uring_worker \<times> sqe list" where
  "submit_and_poll submit s =
     (case s of (w, k) \<Rightarrow>
       (case push_backlog submit (iu_entries w) (iu_backlog w) (iu_sq w) k of
          (False, backlog, sq, k1) \<Rightarrow> (False, w\<lparr>iu_backlog := backlog, iu_sq := sq\<rparr>, k1)
        | (True, backlog, sq, k1) \<Rightarrow>
            (case submit sq k1 of
               Took j \<Rightarrow> (True, w\<lparr>iu_backlog := backlog, iu_sq := drop j sq\<rparr>, k1 @ take j sq)
             | Failed \<Rightarrow> (False, w\<lparr>iu_backlog := backlog, iu_sq := sq\<rparr>, k1)
             | _ \<Rightarrow> (True, w\<lparr>iu_backlog := backlog, iu_sq := sq\<rparr>, k1))))"

text \<open>The timeout of a submission is passed as \<open>nsec\<close>, a \<open>u32\<close>.\<close>

definition submit_timespec_nsec :: "nat \<Rightarrow> 32 word" where
  "submit_timespec_nsec timeout_nanos = of_nat timeout_nanos"

definition completion_result :: "int \<Rightarrow> io_result" where
  "completion_result ret =
     (if ret \<ge> 0 then Inr (nat ret)
      else if ret = - int ECANCELED then Inl (FromKind TimedOut)
      else Inl (RawOs (nat (- ret))))"

text \<open>
  The loop over the completions. A user data that is no address of a request is a dangling pointer.
  What a woken task does comes after it in the order of the wake-ups.
\<close>

fun complete_all ::
  "bool \<Rightarrow> (64 word \<times> int) list \<Rightarrow> request_memory \<Rightarrow> (task wake list \<times> request_memory) res" where
  "complete_all dbg [] mem = Inr ([], mem)"
| "complete_all dbg ((user_data, ret) # cq) mem =
     (if user_data = ASYNC_CLOSE_DATA then complete_all dbg cq mem
      else (case mem user_data of
              None \<Rightarrow> Inl Undefined
            | Some io_request \<Rightarrow>
                bindR (io_request_task dbg (io_request_set_ret (completion_result ret) io_request)) (\<lambda>(t, r).
                bindR (complete_all dbg cq (mem(user_data \<mapsto> r))) (\<lambda>(wakes, mem').
                  Inr (wake_finished t # wakes, mem')))))"

definition io_uring_must_poll ::
  "bool \<Rightarrow> submit_fun \<Rightarrow> nat \<Rightarrow> (64 word \<times> int) list \<Rightarrow> io_uring_worker \<times> sqe list \<times> request_memory \<Rightarrow>
   (task wake list \<times> io_uring_worker \<times> sqe list \<times> request_memory) res" where
  "io_uring_must_poll dbg submit start_round_time cq s =
     (case s of (w, k, mem) \<Rightarrow>
       (case submit_and_poll submit (io_uring_check_deadlines start_round_time w, k) of
          (False, _) \<Rightarrow> Inl Asserted
        | (True, w1, k1) \<Rightarrow>
            bindR (usize_sub dbg (iu_number_of_active_tasks w1) (length cq)) (\<lambda>n.
            bindR (complete_all dbg cq mem) (\<lambda>(wakes, mem').
              Inr (wakes, w1\<lparr>iu_number_of_active_tasks := n\<rparr>, k1, mem')))))"

section \<open>The operations\<close>

text \<open>
  Each takes the address of its request. \<open>socket\<close> on a kernel without the opcode makes the socket itself, with
  the result \<open>made\<close>, and spawns the running task.
\<close>

definition io_uring_socket ::
  "bool \<Rightarrow> io_result \<Rightarrow> int \<Rightarrow> int \<Rightarrow> int \<Rightarrow> request_ptr \<Rightarrow> io_uring_worker \<times> request_memory \<Rightarrow>
   (task option \<times> io_uring_worker \<times> request_memory) res" where
  "io_uring_socket dbg made domain sock_type protocol request s =
     (case s of (w, mem) \<Rightarrow>
        if iu_socket_supported w then Inr (None, register_entry (SqSocket domain sock_type protocol) request w, mem)
        else (case mem request of
                None \<Rightarrow> Inl Undefined
              | Some r \<Rightarrow>
                  bindR (io_request_task dbg (io_request_set_ret made r)) (\<lambda>(t, r').
                    if dbg \<and> \<not> task_is_local t then Inl DebugAssert
                    else Inr (Some t, w, mem(request \<mapsto> r')))))"

text \<open>A method with a deadline registers it first and may change it; then it does what the method without one does.\<close>

definition io_uring_request ::
  "sqe_op \<Rightarrow> request_ptr \<Rightarrow> nat option \<Rightarrow> io_uring_worker \<Rightarrow> nat option \<times> io_uring_worker" where
  "io_uring_request op request deadline w =
     (case deadline of
        None \<Rightarrow> (None, register_entry op request w)
      | Some d \<Rightarrow> (case register_time_bounded_io_task request d w of (d', w') \<Rightarrow> (Some d', register_entry op request w')))"

fun io_uring_conns ::
  "conn_method \<Rightarrow> request_ptr \<Rightarrow> nat option \<Rightarrow> io_uring_worker \<Rightarrow> nat option \<times> io_uring_worker" where
  "io_uring_conns (MAccept raw_socket addr_ptr addr_len) = io_uring_request (SqAccept raw_socket addr_ptr addr_len)"
| "io_uring_conns (MConnect raw_socket addr_ptr addr_len) = io_uring_request (SqConnect raw_socket addr_ptr addr_len)"
| "io_uring_conns (MPollSocketRead raw_socket) = io_uring_request (SqPollAdd raw_socket POLLIN)"
| "io_uring_conns (MPollSocketWrite raw_socket) = io_uring_request (SqPollAdd raw_socket POLLOUT)"

fun io_uring_recvs ::
  "recv_method \<Rightarrow> request_ptr \<Rightarrow> nat option \<Rightarrow> io_uring_worker \<Rightarrow> nat option \<times> io_uring_worker" where
  "io_uring_recvs (MRecv raw_socket p len) = io_uring_request (SqRecv raw_socket p len 0)"
| "io_uring_recvs (MRecvFixed raw_socket p len buf_index) = io_uring_request (SqReadFixed raw_socket p len buf_index 0)"
| "io_uring_recvs (MRecvFrom raw_socket msg_header) = io_uring_request (SqRecvMsg raw_socket msg_header 0)"

fun io_uring_sends ::
  "send_method \<Rightarrow> request_ptr \<Rightarrow> nat option \<Rightarrow> io_uring_worker \<Rightarrow> nat option \<times> io_uring_worker" where
  "io_uring_sends (MSend raw_socket p len) = io_uring_request (SqSend raw_socket p len)"
| "io_uring_sends (MSendFixed raw_socket p len buf_index) = io_uring_request (SqWriteFixed raw_socket p len buf_index 0)"
| "io_uring_sends (MSendTo raw_socket msg_header) = io_uring_request (SqSendMsg raw_socket msg_header)"

text \<open>A peek into a fixed buffer is a peek into an ordinary one.\<close>

fun io_uring_peeks ::
  "peek_method \<Rightarrow> request_ptr \<Rightarrow> nat option \<Rightarrow> io_uring_worker \<Rightarrow> nat option \<times> io_uring_worker" where
  "io_uring_peeks (MPeek raw_socket p len) = io_uring_request (SqRecv raw_socket p len MSG_PEEK)"
| "io_uring_peeks (MPeekFixed raw_socket p len buf_index) = io_uring_request (SqRecv raw_socket p len MSG_PEEK)"
| "io_uring_peeks (MPeekFrom raw_socket msg_header) = io_uring_request (SqRecvMsg raw_socket msg_header MSG_PEEK)"

fun io_uring_files :: "file_method \<Rightarrow> request_ptr \<Rightarrow> io_uring_worker \<Rightarrow> io_uring_worker" where
  "io_uring_files (MShutdown raw_socket how) =
     register_entry (SqShutdown raw_socket (case how of ShutRead \<Rightarrow> 0 | ShutWrite \<Rightarrow> 1 | ShutBoth \<Rightarrow> 2))"
| "io_uring_files (MOpen path open_how) = register_entry (SqOpenAt2 AT_FDCWD path open_how)"
| "io_uring_files (MFallocate raw_file offset len flags) = register_entry (SqFallocate raw_file len offset flags)"
| "io_uring_files (MSyncAll raw_file) = register_entry (SqFsync raw_file False)"
| "io_uring_files (MSyncData raw_file) = register_entry (SqFsync raw_file True)"
| "io_uring_files (MRead raw_file p len) = register_entry (SqRead raw_file p len (- 1))"
| "io_uring_files (MReadFixed raw_file p len buf_index) = register_entry (SqReadFixed raw_file p len buf_index (- 1))"
| "io_uring_files (MPread raw_file p len offset) = register_entry (SqRead raw_file p len offset)"
| "io_uring_files (MPreadFixed raw_file p len buf_index offset) =
     register_entry (SqReadFixed raw_file p len buf_index offset)"

fun io_uring_writes :: "write_method \<Rightarrow> request_ptr \<Rightarrow> io_uring_worker \<Rightarrow> io_uring_worker" where
  "io_uring_writes (MWrite raw_file p len) = register_entry (SqWrite raw_file p len (- 1))"
| "io_uring_writes (MWriteFixed raw_file p len buf_index) = register_entry (SqWriteFixed raw_file p len buf_index (- 1))"
| "io_uring_writes (MPwrite raw_file p len offset) = register_entry (SqWrite raw_file p len offset)"
| "io_uring_writes (MPwriteFixed raw_file p len buf_index offset) =
     register_entry (SqWriteFixed raw_file p len buf_index offset)"
| "io_uring_writes (MCloseFile raw_file) = register_entry (SqClose raw_file)"
| "io_uring_writes (MCloseSocket raw_socket) = register_entry (SqClose raw_socket)"
| "io_uring_writes (MRename old_path new_path) = register_entry (SqRenameAt AT_FDCWD old_path AT_FDCWD new_path)"
| "io_uring_writes (MCreateDir path mode) = register_entry (SqMkDirAt AT_FDCWD path mode)"
| "io_uring_writes (MRemoveFile path) = register_entry (SqUnlinkAt AT_FDCWD path 0)"
| "io_uring_writes (MRemoveDir path) = register_entry (SqUnlinkAt AT_FDCWD path AT_REMOVEDIR)"

text \<open>A call of a method, without a deadline and with one.\<close>

fun io_uring_call :: "io_method \<Rightarrow> request_ptr \<Rightarrow> io_uring_worker \<Rightarrow> io_uring_worker" where
  "io_uring_call (ConnMethod m) f w = snd (io_uring_conns m f None w)"
| "io_uring_call (RecvMethod m) f w = snd (io_uring_recvs m f None w)"
| "io_uring_call (SendMethod m) f w = snd (io_uring_sends m f None w)"
| "io_uring_call (PeekMethod m) f w = snd (io_uring_peeks m f None w)"
| "io_uring_call (FileMethod m) f w = io_uring_files m f w"
| "io_uring_call (WriteMethod m) f w = io_uring_writes m f w"

fun io_uring_call_with_deadline ::
  "io_method \<Rightarrow> request_ptr \<Rightarrow> nat \<Rightarrow> io_uring_worker \<Rightarrow> nat \<times> io_uring_worker" where
  "io_uring_call_with_deadline (ConnMethod m) f d w = map_prod the id (io_uring_conns m f (Some d) w)"
| "io_uring_call_with_deadline (RecvMethod m) f d w = map_prod the id (io_uring_recvs m f (Some d) w)"
| "io_uring_call_with_deadline (SendMethod m) f d w = map_prod the id (io_uring_sends m f (Some d) w)"
| "io_uring_call_with_deadline (PeekMethod m) f d w = map_prod the id (io_uring_peeks m f (Some d) w)"
| "io_uring_call_with_deadline m f d w = (d, io_uring_call m f w)"

text \<open>Every method puts one entry with the address of its request into the ring or the backlog.\<close>

lemma io_uring_conns_entry: "\<exists>op. io_uring_conns m = io_uring_request op"
  by (cases m; simp; blast)

lemma io_uring_recvs_entry: "\<exists>op. io_uring_recvs m = io_uring_request op"
  by (cases m; simp; blast)

lemma io_uring_sends_entry: "\<exists>op. io_uring_sends m = io_uring_request op"
  by (cases m; simp; blast)

lemma io_uring_peeks_entry: "\<exists>op. io_uring_peeks m = io_uring_request op"
  by (cases m; simp; blast)

lemma io_uring_files_entry: "\<exists>op. io_uring_files m = register_entry op"
  by (cases m; simp; blast)

lemma io_uring_writes_entry: "\<exists>op. io_uring_writes m = register_entry op"
  by (cases m; simp; blast)

lemma io_uring_call_entry: "\<exists>op. io_uring_call m f w = register_entry op f w"
proof (cases m)
  case (ConnMethod x)
  then show ?thesis using io_uring_conns_entry[of x] by (auto simp: io_uring_request_def)
next
  case (RecvMethod x)
  then show ?thesis using io_uring_recvs_entry[of x] by (auto simp: io_uring_request_def)
next
  case (SendMethod x)
  then show ?thesis using io_uring_sends_entry[of x] by (auto simp: io_uring_request_def)
next
  case (PeekMethod x)
  then show ?thesis using io_uring_peeks_entry[of x] by (auto simp: io_uring_request_def)
next
  case (FileMethod x)
  then show ?thesis using io_uring_files_entry[of x] by auto
next
  case (WriteMethod x)
  then show ?thesis using io_uring_writes_entry[of x] by auto
qed

lemma io_uring_call_with_deadline_entry:
  "\<exists>op d' w'. io_uring_call_with_deadline m f d w = (d', register_entry op f w') \<and>
     (w' = w \<or> register_time_bounded_io_task f d w = (d', w'))"
proof -
  obtain d1 w1 where w1: "register_time_bounded_io_task f d w = (d1, w1)" by fastforce
  then have r: "map_prod the id (io_uring_request op f (Some d) w) = (d1, register_entry op f w1)" for op
    by (simp add: io_uring_request_def)
  show ?thesis
  proof (cases m)
    case (ConnMethod x)
    then show ?thesis using io_uring_conns_entry[of x] r w1 by (metis io_uring_call_with_deadline.simps(1))
  next
    case (RecvMethod x)
    then show ?thesis using io_uring_recvs_entry[of x] r w1 by (metis io_uring_call_with_deadline.simps(2))
  next
    case (SendMethod x)
    then show ?thesis using io_uring_sends_entry[of x] r w1 by (metis io_uring_call_with_deadline.simps(3))
  next
    case (PeekMethod x)
    then show ?thesis using io_uring_peeks_entry[of x] r w1 by (metis io_uring_call_with_deadline.simps(4))
  qed (use io_uring_call_entry[of m f w] in auto)
qed

section \<open>Accounting\<close>

text \<open>
  The entries the worker and the kernel have, and the requests among them: all but the
  cancellations.
\<close>

type_synonym uring_world = "io_uring_worker \<times> sqe list \<times> request_memory"

definition entries :: "uring_world \<Rightarrow> sqe list" where
  "entries s = (case s of (w, k, mem) \<Rightarrow> iu_sq w @ iu_backlog w @ k)"

abbreviation is_request :: "64 word \<Rightarrow> bool" where
  "is_request u \<equiv> u \<noteq> ASYNC_CLOSE_DATA"

definition users :: "sqe list \<Rightarrow> 64 word multiset" where
  "users es = filter_mset is_request (mset (map sq_user_data es))"

definition outstanding :: "uring_world \<Rightarrow> 64 word multiset" where
  "outstanding s = users (entries s)"

lemma users_append [simp]: "users (xs @ ys) = users xs + users ys"
  by (simp add: users_def)

lemma users_Nil [simp]: "users [] = {#}"
  by (simp add: users_def)

lemma users_Cons [simp]: "users (e # es) = (if is_request (sq_user_data e) then {#sq_user_data e#} else {#}) + users es"
  by (simp add: users_def)

text \<open>What the operations do to the entries.\<close>

lemma add_sqe_simps [simp]:
  "iu_number_of_active_tasks (add_sqe e w) = Suc (iu_number_of_active_tasks w)"
  "mset (iu_sq (add_sqe e w)) + mset (iu_backlog (add_sqe e w)) = add_mset e (mset (iu_sq w) + mset (iu_backlog w))"
  "iu_entries (add_sqe e w) = iu_entries w"
  "iu_time_bounded_io_task_queue (add_sqe e w) = iu_time_bounded_io_task_queue w"
  "iu_socket_supported (add_sqe e w) = iu_socket_supported w"
  by (simp_all add: add_sqe_def Let_def)

lemma add_sqe_room: "length (iu_sq w) \<le> iu_entries w \<Longrightarrow> length (iu_sq (add_sqe e w)) \<le> iu_entries w"
  by (auto simp: add_sqe_def Let_def)

definition balanced :: "io_uring_worker \<Rightarrow> sqe list \<Rightarrow> bool" where
  "balanced w k \<longleftrightarrow> length (iu_sq w) \<le> iu_entries w \<and> 0 < iu_entries w \<and> deadlines_wf (iu_time_bounded_io_task_queue w) \<and>
     iu_number_of_active_tasks w = length (iu_sq w) + length (iu_backlog w) + length k"

definition waiting_of :: "io_uring_worker \<Rightarrow> 64 word multiset" where
  "waiting_of w = users (iu_sq w @ iu_backlog w)"

lemma add_sqe_balanced:
  assumes "balanced w k"
  shows "balanced (add_sqe e w) k \<and> waiting_of (add_sqe e w) = users [e] + waiting_of w"
proof -
  have m: "mset (iu_sq (add_sqe e w) @ iu_backlog (add_sqe e w)) = mset (e # iu_sq w @ iu_backlog w)" by simp
  then have "length (iu_sq (add_sqe e w)) + length (iu_backlog (add_sqe e w)) = Suc (length (iu_sq w) + length (iu_backlog w))"
    using mset_eq_length[OF m] by simp
  moreover have "waiting_of (add_sqe e w) = users (e # iu_sq w @ iu_backlog w)"
    unfolding waiting_of_def users_def by (metis m mset_map)
  ultimately show ?thesis using assms add_sqe_room[of w e] by (simp add: balanced_def waiting_of_def)
qed

lemma btree_insert_head: "deadlines_wf ((k, v) # q) \<Longrightarrow> btree_insert k v q = (k, v) # q"
  by (rule btree_insert_first)

lemma cancel_expired_balanced:
  assumes "balanced w k" and "deadlines_wf q"
  shows "balanced (cancel_expired now q w) k \<and> waiting_of (cancel_expired now q w) = waiting_of w \<and>
    iu_entries (cancel_expired now q w) = iu_entries w"
  using assms
proof (induction now q w rule: cancel_expired.induct)
  case (2 now deadline user_data q w)
  show ?case
  proof (cases "deadline \<le> now")
    case True
    let ?e = "\<lparr>sq_op = SqAsyncCancel user_data, sq_user_data = ASYNC_CLOSE_DATA\<rparr>"
    have "balanced (cancel_entry user_data w) k" "waiting_of (cancel_entry user_data w) = waiting_of w"
      using add_sqe_balanced[OF "2.prems"(1), of ?e] by (simp_all add: cancel_entry_def)
    with 2 True show ?thesis by (simp add: cancel_entry_def)
  next
    case False
    with 2 btree_insert_head[OF "2.prems"(2)] show ?thesis by (simp add: balanced_def waiting_of_def)
  qed
qed (simp add: balanced_def waiting_of_def)

lemma check_deadlines_balanced:
  assumes "balanced w k"
  shows "balanced (io_uring_check_deadlines now w) k \<and> waiting_of (io_uring_check_deadlines now w) = waiting_of w \<and>
    iu_entries (io_uring_check_deadlines now w) = iu_entries w"
  using assms cancel_expired_balanced[OF assms, of "iu_time_bounded_io_task_queue w" now]
  by (auto simp: io_uring_check_deadlines_def balanced_def)

text \<open>
  A kernel that never fails and takes an entry of a full ring unless it is busy: then the backlog
  reaches the ring in order and nothing is lost.
\<close>

definition submit_ok :: "nat \<Rightarrow> submit_fun \<Rightarrow> bool" where
  "submit_ok n submit \<longleftrightarrow> (\<forall>sq k. submit sq k \<noteq> Failed \<and>
     (n \<le> length sq \<longrightarrow> submit sq k \<noteq> Took 0 \<and> submit sq k \<noteq> Elapsed))"

lemma push_backlog_ok:
  assumes "submit_ok n submit" and "0 < n"
  shows "length sq \<le> n \<Longrightarrow> push_backlog submit n backlog sq k = (ok, backlog', sq', k') \<Longrightarrow>
    ok \<and> length sq' \<le> n \<and> mset (sq' @ backlog' @ k') = mset (sq @ backlog @ k)"
proof (induction backlog arbitrary: sq k)
  case Nil
  have s: "submit sq k \<noteq> Failed" "n \<le> length sq \<Longrightarrow> submit sq k \<noteq> Elapsed"
    using assms(1) by (simp_all add: submit_ok_def)
  have "mset (drop j sq) + mset (take j sq) = mset sq" for j
    by (metis append_take_drop_id mset_append union_commute)
  with Nil s show ?case by (auto split: if_splits submit_outcome.splits)
next
  case (Cons e backlog)
  show ?case
  proof (cases "n \<le> length sq")
    case True
    have s: "submit sq k \<noteq> Failed" "submit sq k \<noteq> Elapsed" "submit sq k \<noteq> Took 0"
      using assms(1) True by (simp_all add: submit_ok_def)
    show ?thesis
    proof (cases "submit sq k")
      case (Took j)
      then have "length (drop j sq) < n" using s(3) Cons.prems(1) assms(2) True by (cases j) auto
      then have r: "push_backlog submit n backlog (drop j sq @ [e]) (k @ take j sq) = (ok, backlog', sq', k')"
        and l: "length (drop j sq @ [e]) \<le> n"
        using Cons.prems(2) True Took by (simp_all add: Let_def)
      have "mset (drop j sq) + mset (take j sq) = mset sq" by (metis append_take_drop_id mset_append union_commute)
      from arg_cong[OF this, of "\<lambda>m. add_mset e (m + mset backlog + mset k)"] Cons.IH[OF l r] show ?thesis
        by (simp add: ac_simps)
    qed (use s Cons.prems True in auto)
  next
    case False
    then have "push_backlog submit n backlog (sq @ [e]) k = (ok, backlog', sq', k')" "length (sq @ [e]) \<le> n"
      using Cons.prems by simp_all
    from Cons.IH[OF this(2,1)] show ?thesis by simp
  qed
qed

lemma submit_and_poll_ok:
  assumes "balanced w k" and "submit_ok (iu_entries w) submit" and "submit_and_poll submit (w, k) = (ok, w', k')"
  shows "ok \<and> balanced w' k' \<and> waiting_of w' + users k' = waiting_of w + users k \<and> iu_entries w' = iu_entries w"
proof -
  obtain b backlog sq k1 where p: "push_backlog submit (iu_entries w) (iu_backlog w) (iu_sq w) k = (b, backlog, sq, k1)"
    using prod_cases4 by blast
  have l: "length (iu_sq w) \<le> iu_entries w" "0 < iu_entries w" using assms(1) by (simp_all add: balanced_def)
  note q = push_backlog_ok[OF assms(2) l(2,1) p]
  have "submit sq k1 \<noteq> Failed" using assms(2) by (simp add: submit_ok_def)
  moreover define j where "j = (case submit sq k1 of Took j \<Rightarrow> j | _ \<Rightarrow> 0)"
  ultimately have w': "ok" "w' = w\<lparr>iu_backlog := backlog, iu_sq := drop j sq\<rparr>" "k' = k1 @ take j sq"
    using assms(3) p q by (cases "submit sq k1"; simp add: submit_and_poll_def)+
  have "mset (drop j sq) + mset (take j sq) = mset sq" by (metis append_take_drop_id mset_append union_commute)
  from arg_cong[OF this, of "\<lambda>m. m + mset backlog + mset k1"]
  have m: "mset (iu_sq w' @ iu_backlog w' @ k') = mset (iu_sq w @ iu_backlog w @ k)"
    using q w' by (simp add: ac_simps)
  have "users (iu_sq w' @ iu_backlog w' @ k') = users (iu_sq w @ iu_backlog w @ k)"
    unfolding users_def by (metis m mset_map)
  moreover have "length (iu_sq w' @ iu_backlog w' @ k') = length (iu_sq w @ iu_backlog w @ k)"
    by (rule mset_eq_length[OF m])
  ultimately show ?thesis using w' q assms(1) by (auto simp: balanced_def waiting_of_def add.assoc)
qed

section \<open>Histories\<close>

text \<open>
  Futures are polled, at addresses that are no cancellation mark and only when no request of theirs is outstanding, and the
  worker polls the ring. The kernel completes entries it has, each once.
\<close>

datatype uring_event =
    PollFuture io_method request_ptr task
  | PollBounded io_method request_ptr nat task
  | PollRing submit_fun nat "(64 word \<times> int) list"

text \<open>The requests handed to the worker, the completed ones, the woken tasks, and whether there was no panic.\<close>

record uring_report =
  ur_submitted :: "64 word list"
  ur_completed :: "64 word list"
  ur_wakes :: "task wake list"
  ur_no_panic :: bool

fun drop_entry :: "64 word \<Rightarrow> sqe list \<Rightarrow> sqe list" where
  "drop_entry u [] = []"
| "drop_entry u (e # es) = (if sq_user_data e = u then es else e # drop_entry u es)"

definition requests_of :: "(64 word \<times> int) list \<Rightarrow> 64 word list" where
  "requests_of cq = filter is_request (map fst cq)"

fun uring_step :: "bool \<Rightarrow> uring_event \<Rightarrow> uring_world \<Rightarrow> uring_report \<times> uring_world" where
  "uring_step dbg (PollFuture m f t) (w, k, mem) =
     (case poll_for_io_request dbg (io_uring_call m) t f (mem, w) of
        (r, mem', w') \<Rightarrow>
          (\<lparr>ur_submitted = (if r = Pending then [f] else []), ur_completed = [], ur_wakes = [], ur_no_panic = True\<rparr>,
           w', k, mem'))"
| "uring_step dbg (PollBounded m f deadline t) (w, k, mem) =
     (case poll_for_time_bounded_io_request dbg (io_uring_call_with_deadline m) deregister_time_bounded_io_task
             t f deadline (mem, w) of
        (r, _, mem', w') \<Rightarrow>
          (\<lparr>ur_submitted = (if r = Pending then [f] else []), ur_completed = [], ur_wakes = [], ur_no_panic = True\<rparr>,
           w', k, mem'))"
| "uring_step dbg (PollRing submit now cq) (w, k, mem) =
     (case io_uring_must_poll dbg submit now cq (w, k, mem) of
        Inl _ \<Rightarrow> (\<lparr>ur_submitted = [], ur_completed = [], ur_wakes = [], ur_no_panic = False\<rparr>, w, k, mem)
      | Inr (wakes, w', k', mem') \<Rightarrow>
          (\<lparr>ur_submitted = [], ur_completed = requests_of cq, ur_wakes = wakes, ur_no_panic = True\<rparr>,
           w', fold (\<lambda>(u, _). drop_entry u) cq k', mem'))"

fun uring_ok :: "uring_event \<Rightarrow> uring_world \<Rightarrow> bool" where
  "uring_ok (PollFuture m f t) s \<longleftrightarrow> is_request f \<and> f \<notin># outstanding s"
| "uring_ok (PollBounded m f deadline t) s \<longleftrightarrow> is_request f \<and> f \<notin># outstanding s"
| "uring_ok (PollRing submit now cq) (w, k, mem) \<longleftrightarrow> submit_ok (iu_entries w) submit \<and>
     (case submit_and_poll submit (io_uring_check_deadlines now w, k) of
        (_, _, k') \<Rightarrow> mset (map fst cq) \<subseteq># mset (map sq_user_data k'))"

definition uring_inv :: "uring_world \<Rightarrow> bool" where
  "uring_inv s \<longleftrightarrow> (case s of (w, k, mem) \<Rightarrow> balanced w k \<and>
     (\<forall>u. count (outstanding s) u \<le> 1) \<and>
     (\<forall>u \<in># outstanding s. \<exists>r. mem u = Some r \<and> \<not> rd_was_executed r))"

lemma outstanding_eq: "outstanding (w, k, mem) = waiting_of w + users k"
  by (simp add: outstanding_def entries_def waiting_of_def add.assoc)

lemma register_entry_step:
  assumes "balanced w k" and "is_request f"
  shows "balanced (register_entry op f w) k \<and> waiting_of (register_entry op f w) = add_mset f (waiting_of w)"
  using add_sqe_balanced[OF assms(1), of "\<lparr>sq_op = op, sq_user_data = f\<rparr>"] assms(2) by (simp add: register_entry_def)

lemma queue_update_balanced:
  "balanced w k \<Longrightarrow> deadlines_wf q \<Longrightarrow> balanced (w\<lparr>iu_time_bounded_io_task_queue := q\<rparr>) k"
  by (simp add: balanced_def)

lemma waiting_of_queue [simp]: "waiting_of (w\<lparr>iu_time_bounded_io_task_queue := q\<rparr>) = waiting_of w"
  by (simp add: waiting_of_def)

lemma users_drop_entry:
  "image_mset sq_user_data (mset (drop_entry u k)) = image_mset sq_user_data (mset k) - {#u#}"
  by (induction k) (auto simp: diff_add_mset_swap)

lemma users_drop_entries:
  "image_mset sq_user_data (mset (fold (\<lambda>(u, _). drop_entry u) cq k)) =
     image_mset sq_user_data (mset k) - image_mset fst (mset cq)"
  by (induction cq arbitrary: k) (auto simp: users_drop_entry)

lemma complete_all_ok:
  assumes "distinct (requests_of cq)" and "\<forall>u \<in> set (requests_of cq). \<exists>r. mem u = Some r \<and> \<not> rd_was_executed r"
  shows "\<exists>wakes mem'. complete_all dbg cq mem = Inr (wakes, mem') \<and>
    (\<forall>u. u \<notin> set (requests_of cq) \<longrightarrow> mem' u = mem u) \<and>
    map Some wakes = map (\<lambda>u. map_option (\<lambda>r. wake_finished (rd_task r)) (mem u)) (requests_of cq)"
  using assms
proof (induction cq arbitrary: mem)
  case (Cons c cq)
  obtain u ret where c: "c = (u, ret)" by fastforce
  show ?case
  proof (cases "is_request u")
    case True
    then obtain r where r: "mem u = Some r" "\<not> rd_was_executed r" and u: "u \<notin> set (requests_of cq)"
      using Cons.prems c by (auto simp: requests_of_def)
    define r' where "r' = (if dbg then r\<lparr>rd_ret := completion_result ret, rd_was_executed := True\<rparr>
      else r\<lparr>rd_ret := completion_result ret\<rparr>)"
    have t: "io_request_task dbg (io_request_set_ret (completion_result ret) r) = Inr (rd_task r, r')"
      using r(2) by (simp add: io_request_task_def io_request_set_ret_def r'_def)
    have "distinct (requests_of cq)" "\<forall>v \<in> set (requests_of cq). \<exists>r. (mem(u \<mapsto> r')) v = Some r \<and> \<not> rd_was_executed r"
      using Cons.prems c True u by (auto simp: requests_of_def)
    from Cons.IH[OF this] obtain wakes mem' where i: "complete_all dbg cq (mem(u \<mapsto> r')) = Inr (wakes, mem')"
      "\<forall>v. v \<notin> set (requests_of cq) \<longrightarrow> mem' v = (mem(u \<mapsto> r')) v"
      "map Some wakes = map (\<lambda>v. map_option (\<lambda>r. wake_finished (rd_task r)) ((mem(u \<mapsto> r')) v)) (requests_of cq)" by blast
    have "map (\<lambda>v. map_option (\<lambda>r. wake_finished (rd_task r)) ((mem(u \<mapsto> r')) v)) (requests_of cq) =
        map (\<lambda>v. map_option (\<lambda>r. wake_finished (rd_task r)) (mem v)) (requests_of cq)" using u by (intro map_cong) auto
    moreover have "requests_of (c # cq) = u # requests_of cq" using True c by (simp add: requests_of_def)
    ultimately show ?thesis using i t r True c by simp
  next
    case False
    then have "requests_of (c # cq) = requests_of cq" using c by (simp add: requests_of_def)
    with Cons False c show ?thesis by simp
  qed
qed (simp add: requests_of_def)

lemma poll_future_inv:
  assumes "uring_inv (w, k, mem)" and "is_request f" and "f \<notin># outstanding (w, k, mem)"
  shows "mem f = None \<Longrightarrow> balanced w' k \<Longrightarrow> waiting_of w' = add_mset f (waiting_of w) \<Longrightarrow>
      uring_inv (w', k, mem(f \<mapsto> io_request_new t)) \<and> outstanding (w', k, mem(f \<mapsto> io_request_new t)) = add_mset f (outstanding (w, k, mem))"
    and "balanced w' k \<Longrightarrow> waiting_of w' = waiting_of w \<Longrightarrow>
      uring_inv (w', k, mem(f := None)) \<and> outstanding (w', k, mem(f := None)) = outstanding (w, k, mem)"
  using assms by (auto simp: uring_inv_def outstanding_eq io_request_new_def count_eq_zero_iff)

lemma deregister_balanced:
  assumes "balanced w k"
  shows "balanced (deregister_time_bounded_io_task d w) k \<and> waiting_of (deregister_time_bounded_io_task d w) = waiting_of w"
  using assms queue_update_balanced[OF assms deadlines_wf_filter]
  by (auto simp: deregister_time_bounded_io_task_def time_bounded_remove_def balanced_def)

lemma register_balanced:
  assumes "balanced w k" and "register_time_bounded_io_task f d w = (d', w')"
  shows "balanced w' k \<and> waiting_of w' = waiting_of w"
proof -
  obtain q where q: "register_deadline d f (iu_time_bounded_io_task_queue w) = (d', q)"
    and w': "w' = w\<lparr>iu_time_bounded_io_task_queue := q\<rparr>"
    using assms(2) by (auto simp: register_time_bounded_io_task_def split: prod.splits)
  have "deadlines_wf q" using register_deadline_ok[OF _ q] assms(1) by (simp add: balanced_def)
  with queue_update_balanced[OF assms(1)] w' show ?thesis by simp
qed

lemma io_uring_call_step:
  assumes "balanced w k" and "is_request f"
  shows "balanced (io_uring_call m f w) k \<and> waiting_of (io_uring_call m f w) = add_mset f (waiting_of w)"
  using io_uring_call_entry[of m f w] register_entry_step[OF assms] by metis

lemma io_uring_call_with_deadline_step:
  assumes "balanced w k" and "is_request f" and "io_uring_call_with_deadline m f d w = (d', w')"
  shows "balanced w' k \<and> waiting_of w' = add_mset f (waiting_of w)"
proof -
  obtain op w1 where w1: "w' = register_entry op f w1" "w1 = w \<or> register_time_bounded_io_task f d w = (d', w1)"
    using io_uring_call_with_deadline_entry[of m f d w] assms(3) by auto
  then have "balanced w1 k \<and> waiting_of w1 = waiting_of w" using assms(1) register_balanced[OF assms(1)] by auto
  with w1(1) register_entry_step[OF _ assms(2), of w1 k op] show ?thesis by simp
qed

lemma uring_poll_future:
  assumes "uring_inv s" and "uring_ok (PollFuture m f t) s" and "uring_step dbg (PollFuture m f t) s = (r, s')"
  shows "uring_inv s' \<and> ur_no_panic r \<and> ur_completed r = [] \<and> outstanding s' = mset (ur_submitted r) + outstanding s"
proof -
  obtain w k mem where s: "s = (w, k, mem)" using prod_cases3 by blast
  have b: "balanced w k" using assms(1) s by (simp add: uring_inv_def)
  note p = poll_future_inv[OF assms(1)[unfolded s], of f] io_uring_call_step[OF b, of f m]
  from assms(2) s have f: "is_request f" "f \<notin># outstanding (w, k, mem)" by simp_all
  show ?thesis
  proof (cases "mem f")
    case None
    with p f assms(3) s show ?thesis by (auto simp: poll_for_io_request_def)
  next
    case (Some d)
    with p(2)[OF f b] assms(3) s show ?thesis by (auto simp: poll_for_io_request_def)
  qed
qed

lemma uring_poll_bounded:
  assumes "uring_inv s" and "uring_ok (PollBounded m f d t) s" and "uring_step dbg (PollBounded m f d t) s = (r, s')"
  shows "uring_inv s' \<and> ur_no_panic r \<and> ur_completed r = [] \<and> outstanding s' = mset (ur_submitted r) + outstanding s"
proof -
  obtain w k mem where s: "s = (w, k, mem)" using prod_cases3 by blast
  have b: "balanced w k" using assms(1) s by (simp add: uring_inv_def)
  note p = poll_future_inv[OF assms(1)[unfolded s], of f]
  from assms(2) s have f: "is_request f" "f \<notin># outstanding (w, k, mem)" by simp_all
  obtain d' w1 where w1: "io_uring_call_with_deadline m f d w = (d', w1)" by fastforce
  show ?thesis
  proof (cases "mem f")
    case None
    with p(1)[OF f None] io_uring_call_with_deadline_step[OF b f(1) w1] w1 assms(3) s show ?thesis
      by (auto simp: poll_for_time_bounded_io_request_def)
  next
    case (Some rd)
    with p(2)[OF f] b deregister_balanced[OF b, of d] assms(3) s show ?thesis
      by (auto simp: poll_for_time_bounded_io_request_def split: sum.splits if_splits)
  qed
qed

lemma distinct_of_submset:
  assumes "mset xs \<subseteq># M" and "\<forall>u. count M u \<le> 1"
  shows "distinct xs"
  unfolding distinct_count_atmost_1
proof (intro allI)
  fix a
  have "count (mset xs) a \<le> 1" using mset_subset_eq_count[OF assms(1), of a] assms(2)[rule_format, of a] by (rule le_trans)
  moreover have "count (mset xs) a \<noteq> 0" if "a \<in> set xs" using that by (metis count_eq_zero_iff in_multiset_in_set)
  ultimately show "count (mset xs) a = (if a \<in> set xs then 1 else 0)"
    by (cases "a \<in> set xs") (auto simp: le_Suc_eq count_eq_zero_iff)
qed

lemma uring_poll_ring:
  assumes "uring_inv s" and "uring_ok (PollRing submit now cq) s" and "uring_step dbg (PollRing submit now cq) s = (r, s')"
  shows "uring_inv s' \<and> ur_no_panic r \<and> ur_submitted r = [] \<and> outstanding s = mset (ur_completed r) + outstanding s' \<and>
    map Some (ur_wakes r) = map (\<lambda>u. map_option (\<lambda>d. wake_finished (rd_task d)) (snd (snd s) u)) (ur_completed r)"
proof -
  obtain w k mem where s: "s = (w, k, mem)" using prod_cases3 by blast
  have b: "balanced w k" using assms(1) s by (simp add: uring_inv_def)
  let ?w = "io_uring_check_deadlines now w"
  obtain ok w1 k1 where p: "submit_and_poll submit (?w, k) = (ok, w1, k1)" using prod_cases3 by blast
  note c = check_deadlines_balanced[OF b, of now]
  have so: "submit_ok (iu_entries ?w) submit" and sub: "mset (map fst cq) \<subseteq># mset (map sq_user_data k1)"
    using assms(2) s p c by simp_all
  from submit_and_poll_ok[OF conjunct1[OF c] so p] c
  have ok: "ok" "balanced w1 k1" "outstanding (w1, k1, mem) = outstanding s" by (auto simp: outstanding_eq s)
  have rq: "mset (requests_of cq) \<subseteq># users k1"
    using filter_mset_mono_strong[OF sub, of is_request is_request] by (simp add: requests_of_def users_def mset_filter)
  then have out: "mset (requests_of cq) \<subseteq># outstanding s" using ok(3) by (metis outstanding_eq mset_subset_eq_add_right subset_mset.trans)
  have cnt: "\<forall>u. count (outstanding s) u \<le> 1" using assms(1) by (simp add: uring_inv_def s)
  have "distinct (requests_of cq)" by (rule distinct_of_submset[OF out cnt])
  moreover have "\<forall>u \<in> set (requests_of cq). \<exists>r. mem u = Some r \<and> \<not> rd_was_executed r"
    using assms(1) out by (auto simp: uring_inv_def s dest!: mset_subset_eqD)
  ultimately obtain wakes mem' where ca: "complete_all dbg cq mem = Inr (wakes, mem')"
    "\<forall>u. u \<notin> set (requests_of cq) \<longrightarrow> mem' u = mem u"
    "map Some wakes = map (\<lambda>u. map_option (\<lambda>r. wake_finished (rd_task r)) (mem u)) (requests_of cq)"
    using complete_all_ok by blast
  have len: "length cq \<le> length k1" using size_mset_mono[OF sub] by simp
  then have le: "length cq \<le> iu_number_of_active_tasks w1" using ok(2) by (simp add: balanced_def)
  let ?k = "fold (\<lambda>(u, _). drop_entry u) cq k1"
  let ?w1 = "w1\<lparr>iu_number_of_active_tasks := iu_number_of_active_tasks w1 - length cq\<rparr>"
  have s': "s' = (?w1, ?k, mem')" "r = \<lparr>ur_submitted = [], ur_completed = requests_of cq, ur_wakes = wakes, ur_no_panic = True\<rparr>"
    using assms(3) s p ok(1) le ca(1) by (simp_all add: io_uring_must_poll_def)
  have ku: "image_mset sq_user_data (mset ?k) = image_mset sq_user_data (mset k1) - image_mset fst (mset cq)"
    by (rule users_drop_entries)
  have "size (image_mset sq_user_data (mset ?k)) = length k1 - length cq"
    unfolding ku using sub by (simp add: size_Diff_submset)
  then have lk: "length ?k = length k1 - length cq" by simp
  have uk: "users ?k + mset (requests_of cq) = users k1"
    using sub rq by (simp add: users_def ku requests_of_def mset_filter filter_diff_mset subset_mset.diff_add)
  have "balanced ?w1 ?k" using ok(2) len lk by (simp add: balanced_def)
  moreover have o': "outstanding s = mset (requests_of cq) + outstanding s'"
    unfolding ok(3)[symmetric] s'(1) outstanding_eq using uk by (simp add: waiting_of_def ac_simps)
  moreover have "\<forall>u. count (outstanding s') u \<le> 1" using cnt o' by (metis add_leD2 count_union)
  moreover have "\<exists>r. mem' u = Some r \<and> \<not> rd_was_executed r" if "u \<in># outstanding s'" for u
  proof -
    have "u \<notin> set (requests_of cq)"
    proof
      assume "u \<in> set (requests_of cq)"
      then have "0 < count (mset (requests_of cq)) u" "0 < count (outstanding s') u" using that by (simp_all add: count_greater_zero_iff)
      with cnt[rule_format, of u] o' show False by simp
    qed
    moreover have "u \<in># outstanding s" using that o' by simp
    ultimately show ?thesis using ca(2) assms(1) by (auto simp: uring_inv_def s)
  qed
  ultimately show ?thesis using s' ca(3) s by (simp add: uring_inv_def)
qed

lemma uring_step_inv:
  assumes "uring_inv s" and "uring_ok p s" and "uring_step dbg p s = (r, s')"
  shows "uring_inv s' \<and> ur_no_panic r \<and> outstanding s + mset (ur_submitted r) = outstanding s' + mset (ur_completed r)"
proof (cases p)
  case (PollFuture m f t)
  with uring_poll_future[of s m f t dbg r s'] assms show ?thesis by (simp add: add.commute)
next
  case (PollBounded m f d t)
  with uring_poll_bounded[of s m f d t dbg r s'] assms show ?thesis by (simp add: add.commute)
next
  case (PollRing submit now cq)
  with uring_poll_ring[of s submit now cq dbg r s'] assms show ?thesis by (simp add: add.commute)
qed

interpretation uring: parking "uring_step dbg" uring_ok uring_inv outstanding ur_submitted ur_completed
proof unfold_locales
  fix s p r s'
  assume a: "uring_inv s" "uring_ok p s" "uring_step dbg p s = (r, s')"
  from uring_step_inv[OF a] show "uring_inv s'" by simp
  from uring_step_inv[OF a] show "outstanding s + mset (ur_submitted r) = outstanding s' + mset (ur_completed r)" by simp
qed

lemma uring_start: "0 < n \<Longrightarrow> uring_inv (io_uring_new n b, [], \<lambda>_. None)" "outstanding (io_uring_new n b, [], \<lambda>_. None) = {#}"
  by (simp_all add: uring_inv_def balanced_def io_uring_new_def outstanding_eq waiting_of_def)

section \<open>Properties\<close>

text \<open>
  C8. The io_uring worker loses no request and completes none twice. Start a worker, poll futures of any methods but \<open>socket\<close>, with and without
  deadlines, each at an address with no outstanding request, and poll the ring, with any deadlines expiring, against a kernel whose submissions never fail (a failure, also by a
  signal, is a panic), take an entry of a full ring unless it is busy (otherwise an entry of the backlog is lost), and whose completions are of entries it has, once each. Then nothing panics and no dangling request is
  accessed, the requests handed over are those completed and those still outstanding, and the
  worker's count is the number of entries in the ring, the backlog and the kernel, so it says it has work exactly while there
  are any.
\<close>

theorem io_uring_requests_complete_once:
  assumes "0 < n" and "oks uring_ok (uring_step dbg) ps (io_uring_new n b, [], \<lambda>_. None)"
    and "run_ops (uring_step dbg) ps (io_uring_new n b, [], \<lambda>_. None) = (os, w, k, mem)"
  shows "list_all ur_no_panic os \<and>
    count (mset (concat (map ur_completed os))) f + count (outstanding (w, k, mem)) f =
      count (mset (concat (map ur_submitted os))) f \<and>
    iu_number_of_active_tasks w = length (entries (w, k, mem)) \<and> (io_uring_has_work w \<longleftrightarrow> entries (w, k, mem) \<noteq> [])"
proof -
  note start = uring_start(1)[OF assms(1), of b]
  have "list_all ur_no_panic os" by (rule uring.run_reports[OF _ start assms(2,3)]) (use uring_step_inv in blast)
  moreover have "uring_inv (w, k, mem)" by (rule uring.run_inv[OF start assms(2,3)])
  then have "iu_number_of_active_tasks w = length (entries (w, k, mem))"
    by (simp add: uring_inv_def balanced_def entries_def)
  ultimately show ?thesis
    using uring.run_resumed_once[OF start uring_start(2) assms(2,3), of f]
    by (auto simp: io_uring_has_work_def entries_def)
qed

definition take_all :: submit_fun where
  "take_all sq k = (if sq = [] then Busy else Took (length sq))"

definition uring_demo :: "uring_event list" where
  "uring_demo = [PollFuture (RecvMethod (MRecv 5 4096 64)) 256 demo_task,
     PollBounded (SendMethod (MSend 5 4096 64)) 512 1000 demo_task,
     PollRing take_all 0 [(256, 64)], PollFuture (RecvMethod (MRecv 5 4096 64)) 256 demo_task,
     PollRing take_all 2000 [(512, - 125)]]"

theorem io_uring_requests_complete_once_witness:
  "\<exists>os w k mem. run_ops (uring_step True) uring_demo (io_uring_new 1 True, [], \<lambda>_. None) = (os, w, k, mem) \<and>
     list_all ur_no_panic os \<and> concat (map ur_completed os) = [256, 512] \<and> iu_number_of_active_tasks w = 1"
proof -
  let ?s = "(io_uring_new 1 True, [], \<lambda>_. None)"
  note defs = uring_demo_def io_uring_new_def poll_for_io_request_def poll_for_time_bounded_io_request_def
    io_uring_request_def register_entry_def add_sqe_def register_time_bounded_io_task_def register_deadline.simps time_bounded_insert_def
    io_uring_must_poll_def io_uring_check_deadlines_def cancel_entry_def submit_and_poll_def take_all_def
    io_request_task_def io_request_set_ret_def io_request_new_def io_request_ret_def requests_of_def ASYNC_CLOSE_DATA_def
    completion_result_def ECANCELED_def Let_def
  have ok: "oks uring_ok (uring_step True) uring_demo ?s"
    by (simp add: defs outstanding_def entries_def users_def submit_ok_def)
  obtain os w k mem where r: "run_ops (uring_step True) uring_demo ?s = (os, w, k, mem)" using prod_cases4 by blast
  moreover have "concat (map ur_completed os) = [256, 512] \<and> length (entries (w, k, mem)) = 1"
    using r by (auto simp: defs entries_def)
  ultimately show ?thesis using io_uring_requests_complete_once[OF _ ok r] by simp
qed

text \<open>
  A request with a deadline that the kernel ends with the error \<open>ETIMEDOUT\<close>, before the deadline, leaves its deadline in the
  queue, since the future takes the error for the expired deadline. When the same future, or another at the
  same address, makes a new request, the worker cancels that one when the old deadline passes.
\<close>

theorem timed_out_request_leaves_deadline:
  assumes "mem f = Some d" and "rd_ret d = completion_result (- int ETIMEDOUT)"
    and "iu_time_bounded_io_task_queue w = [(deadline, f)]" and "deadline \<le> now" and "is_request f"
  shows "\<exists>mem1 mem2 w2.
    poll_for_time_bounded_io_request dbg req deregister_time_bounded_io_task t f deadline (mem, w) =
      (Ready (Inl (RawOs ETIMEDOUT)), deadline, mem1, w) \<and>
    poll_for_io_request dbg (register_entry op) t' f (mem1, w) = (Pending, mem2, w2) \<and>
    \<lparr>sq_op = op, sq_user_data = f\<rparr> \<in> set (entries (w2, [], mem2)) \<and>
    \<lparr>sq_op = SqAsyncCancel f, sq_user_data = ASYNC_CLOSE_DATA\<rparr> \<in> set (entries (io_uring_check_deadlines now w2, [], mem2))"
proof -
  have "rd_ret d = Inl (RawOs ETIMEDOUT)"
    using assms(2) by (simp add: completion_result_def ETIMEDOUT_def ECANCELED_def)
  moreover have "io_error_kind_of (RawOs ETIMEDOUT) = TimedOut" by simp
  ultimately show ?thesis using assms
    by (simp add: poll_for_time_bounded_io_request_def poll_for_io_request_def io_request_ret_def register_entry_def
        io_uring_check_deadlines_def cancel_entry_def add_sqe_def entries_def Let_def)
qed

theorem timed_out_request_leaves_deadline_witness:
  "\<exists>mem1 mem2 w2.
    poll_for_io_request True (register_entry (SqRecv 5 4096 64 0)) demo_task 256 (mem1,
      (io_uring_new 8 True)\<lparr>iu_time_bounded_io_task_queue := [(1000, 256)]\<rparr>) = (Pending, mem2, w2) \<and>
    \<lparr>sq_op = SqAsyncCancel 256, sq_user_data = ASYNC_CLOSE_DATA\<rparr> \<in> set (entries (io_uring_check_deadlines 1000 w2, [], mem2))"
proof -
  let ?d = "\<lparr>rd_ret = completion_result (- int ETIMEDOUT), rd_task = demo_task, rd_was_executed = True\<rparr>"
  let ?w = "(io_uring_new 8 True)\<lparr>iu_time_bounded_io_task_queue := [(1000, 256)]\<rparr>"
  have "((\<lambda>_. None)((256 :: 64 word) \<mapsto> ?d)) 256 = Some ?d" "rd_ret ?d = completion_result (- int ETIMEDOUT)"
    "iu_time_bounded_io_task_queue ?w = [(1000, 256)]" "(1000 :: nat) \<le> 1000" "is_request 256"
    by (simp_all add: ASYNC_CLOSE_DATA_def)
  with timed_out_request_leaves_deadline[of "(\<lambda>_. None)((256 :: 64 word) \<mapsto> ?d)" 256 ?d ?w 1000 1000 True
      "\<lambda>_ d w. (d, w)" demo_task "SqRecv 5 4096 64 0" demo_task]
  show ?thesis by blast
qed

end
