(* ===== verification/Global_State.thy ===== *)
theory Global_State
  imports Task_Exchange Transition_Systems
begin

text \<open>
  The registry of running executors (\<open>src/src/runtime/global_state\<close>): the global state with its
  version, the alive executors and the lists of the work-sharing ones, and the state each
  executor subscribed to, which it brings up to date at the start of a round. An up-to-date
  executor knows exactly the alive executors and its neighbours, and knows when it is stopped.
\<close>

section \<open>Subscribed states\<close>

text \<open>A list of shared tasks is named by its executor, a receive queue by its number.\<close>

record subscribed_state =
  ss_current_version :: nat
  ss_processed_version :: nat
  ss_is_stopped :: bool
  ss_tasks_lists :: "nat list option"
  ss_executors_task_lists :: "queue_id vec_map"

definition subscribed_state_new :: subscribed_state where
  "subscribed_state_new = \<lparr>ss_current_version = 1, ss_processed_version = usize_max, ss_is_stopped = False,
     ss_tasks_lists = None, ss_executors_task_lists = vec_map_new\<rparr>"

fun list_position :: "('a \<Rightarrow> bool) \<Rightarrow> 'a list \<Rightarrow> nat option" where
  "list_position P [] = None"
| "list_position P (x # xs) = (if P x then Some 0 else map_option Suc (list_position P xs))"

definition list_remove :: "nat \<Rightarrow> 'a list \<Rightarrow> 'a list" where
  "list_remove i xs = take i xs @ drop (Suc i) xs"

definition validate_tasks_lists :: "nat \<Rightarrow> subscribed_state \<Rightarrow> subscribed_state res" where
  "validate_tasks_lists executor_id s =
     (case ss_tasks_lists s of
        None \<Rightarrow> Inr s
      | Some tasks_lists \<Rightarrow>
          (case list_position (\<lambda>l. l = executor_id) tasks_lists of
             None \<Rightarrow> Inl Asserted
           | Some index \<Rightarrow>
               if length tasks_lists - 1 = 0 then Inr (s\<lparr>ss_tasks_lists := Some []\<rparr>)
               else Inr (s\<lparr>ss_tasks_lists := Some (rotate index (list_remove index tasks_lists))\<rparr>)))"

section \<open>The global state\<close>

record state_of_alive_executor =
  sa_subscribed_state :: nat
  sa_task_queue :: queue_id

record global_state =
  gl_version :: nat
  gl_states_of_alive_executors :: "state_of_alive_executor vec_map"
  gl_lists :: "nat list"

definition global_state_new :: global_state where
  "global_state_new = \<lparr>gl_version = 0, gl_states_of_alive_executors = vec_map_new, gl_lists = []\<rparr>"

text \<open>The subscribed states of all executors; \<open>set_version\<close> for those a list of entries refers to.\<close>

type_synonym subscriptions = "nat \<Rightarrow> subscribed_state"

fun set_versions :: "nat \<Rightarrow> (nat \<times> state_of_alive_executor) list \<Rightarrow> subscriptions \<Rightarrow> subscriptions" where
  "set_versions v [] subs = subs"
| "set_versions v ((_, st) # es) subs =
     set_versions v es (subs(sa_subscribed_state st := (subs (sa_subscribed_state st))\<lparr>ss_current_version := v\<rparr>))"

definition global_state_register ::
  "bool \<Rightarrow> nat \<Rightarrow> bool \<Rightarrow> queue_id \<Rightarrow> global_state \<times> subscriptions \<Rightarrow> (global_state \<times> subscriptions) res" where
  "global_state_register dbg i shares queue w =
     (case w of (g, subs) \<Rightarrow>
       let version = gl_version g + 1;
           lists = (if shares then gl_lists g @ [i] else gl_lists g) in
       bindR (if shares then validate_tasks_lists i ((subs i)\<lparr>ss_tasks_lists := Some lists\<rparr>) else Inr (subs i))
         (\<lambda>s. bindR (vec_map_insert dbg i \<lparr>sa_subscribed_state = i, sa_task_queue = queue\<rparr>
                       (gl_states_of_alive_executors g))
            (\<lambda>(_, states).
               let subs1 = subs(i := s\<lparr>ss_current_version := version, ss_is_stopped := False\<rparr>) in
               Inr (\<lparr>gl_version = version, gl_states_of_alive_executors = states, gl_lists = lists\<rparr>,
                    set_versions version (vec_map_iter states) subs1))))"

definition global_state_stop_executor :: "nat \<Rightarrow> global_state \<times> subscriptions \<Rightarrow> global_state \<times> subscriptions" where
  "global_state_stop_executor i w =
     (case w of (g, subs) \<Rightarrow>
       let version = gl_version g + 1 in
       (\<lparr>gl_version = version,
         gl_states_of_alive_executors = vec_map_retain (\<lambda>alive _. alive \<noteq> i) (gl_states_of_alive_executors g),
         gl_lists = filter (\<lambda>l. l \<noteq> i) (gl_lists g)\<rparr>,
        set_versions version (vec_map_iter (gl_states_of_alive_executors g)) subs))"

definition global_state_stop_all_executors :: "global_state \<times> subscriptions \<Rightarrow> global_state \<times> subscriptions" where
  "global_state_stop_all_executors w =
     (case w of (g, subs) \<Rightarrow>
       let version = gl_version g + 1 in
       (\<lparr>gl_version = version,
         gl_states_of_alive_executors = vec_map_retain (\<lambda>_ _. False) (gl_states_of_alive_executors g),
         gl_lists = []\<rparr>,
        set_versions version (vec_map_iter (gl_states_of_alive_executors g)) subs))"

definition executors_ids :: "global_state \<Rightarrow> nat list" where
  "executors_ids g = map fst (vec_map_iter (gl_states_of_alive_executors g))"

definition work_sharing_executors_ids :: "global_state \<times> subscriptions \<Rightarrow> nat list" where
  "work_sharing_executors_ids w =
     map fst (filter (\<lambda>(_, st). ss_tasks_lists (snd w (sa_subscribed_state st)) \<noteq> None)
       (vec_map_iter (gl_states_of_alive_executors (fst w))))"

section \<open>Bringing a subscribed state up to date\<close>

fun insert_all :: "bool \<Rightarrow> (nat \<times> 'v) list \<Rightarrow> 'v vec_map \<Rightarrow> 'v vec_map res" where
  "insert_all dbg [] m = Inr m"
| "insert_all dbg ((k, v) # es) m = bindR (vec_map_insert dbg k v m) (\<lambda>(_, m'). insert_all dbg es m')"

definition check_version_and_update_if_needed ::
  "bool \<Rightarrow> nat \<Rightarrow> global_state \<Rightarrow> subscribed_state \<times> interactor \<Rightarrow> (subscribed_state \<times> interactor) res" where
  "check_version_and_update_if_needed dbg i g w =
     (case w of (s, it) \<Rightarrow>
       if ss_processed_version s = ss_current_version s then
         (if dbg \<and> ss_processed_version s = usize_max then Inl DebugAssert else Inr (s, it))
       else
         (let s1 = s\<lparr>ss_processed_version := ss_current_version s\<rparr>;
              entries = vec_map_iter (gl_states_of_alive_executors g) in
          if \<not> list_ex (\<lambda>(alive, _). alive = i) entries then Inr (s1\<lparr>ss_is_stopped := True\<rparr>, it)
          else
            bindR (if ss_tasks_lists s1 \<noteq> None
                   then validate_tasks_lists i (s1\<lparr>ss_tasks_lists := Some (gl_lists g)\<rparr>) else Inr s1) (\<lambda>s2.
            bindR (insert_all dbg (map (\<lambda>(k, st). (k, sa_task_queue st)) entries)
                     (vec_map_clear (ss_executors_task_lists s2))) (\<lambda>queues.
            bindR (insert_all dbg (map (\<lambda>(k, st). (k, send_list_new (sa_task_queue st))) entries)
                     (vec_map_clear (ia_all it))) (\<lambda>all.
              Inr (s2\<lparr>ss_executors_task_lists := queues\<rparr>, it\<lparr>ia_all := all\<rparr>))))))"

section \<open>Histories\<close>

datatype registry_op = Register nat bool queue_id | StopExecutor nat | StopAll | CheckVersion nat

type_synonym registry = "global_state \<times> subscriptions \<times> (nat \<Rightarrow> interactor)"

fun registry_step :: "bool \<Rightarrow> registry_op \<Rightarrow> registry \<Rightarrow> bool \<times> registry" where
  "registry_step dbg (Register i shares q) (g, subs, its) =
     (case global_state_register dbg i shares q (g, subs) of
        Inr (g', subs') \<Rightarrow> (True, g', subs', its) | Inl _ \<Rightarrow> (False, g, subs, its))"
| "registry_step dbg (StopExecutor i) (g, subs, its) =
     (case global_state_stop_executor i (g, subs) of (g', subs') \<Rightarrow> (True, g', subs', its))"
| "registry_step dbg StopAll (g, subs, its) =
     (case global_state_stop_all_executors (g, subs) of (g', subs') \<Rightarrow> (True, g', subs', its))"
| "registry_step dbg (CheckVersion i) (g, subs, its) =
     (case check_version_and_update_if_needed dbg i g (subs i, its i) of
        Inr (s, it) \<Rightarrow> (True, g, subs(i := s), its(i := it)) | Inl _ \<Rightarrow> (False, g, subs, its))"

definition alive :: "global_state \<Rightarrow> nat \<Rightarrow> bool" where
  "alive g i \<longleftrightarrow> vec_map_get (gl_states_of_alive_executors g) i \<noteq> None"

text \<open>
  An executor registers when it is not registered, for the first time or again after it was stopped,
  and whether it shares work never changes; it checks its version after a registration. A debug build
  is limited to identifiers below 100; the version does not wrap.
\<close>

fun registry_ok :: "bool \<Rightarrow> registry_op \<Rightarrow> registry \<Rightarrow> bool" where
  "registry_ok dbg (Register i shares q) (g, subs, its) \<longleftrightarrow>
     gl_version g + 1 < usize_max \<and> \<not> alive g i \<and> (ss_tasks_lists (subs i) \<noteq> None \<longrightarrow> shares) \<and> (dbg \<longrightarrow> i < 100)"
| "registry_ok dbg (CheckVersion i) (g, subs, its) \<longleftrightarrow> ss_current_version (subs i) \<le> gl_version g"
| "registry_ok dbg p (g, subs, its) \<longleftrightarrow> gl_version g + 1 < usize_max"

section \<open>The invariant\<close>

text \<open>What an executor that processed the current version knows.\<close>

definition up_to_date :: "global_state \<Rightarrow> nat \<Rightarrow> subscribed_state \<Rightarrow> interactor \<Rightarrow> bool" where
  "up_to_date g i s it \<longleftrightarrow> \<not> ss_is_stopped s \<and>
     (case ss_tasks_lists s of
        None \<Rightarrow> i \<notin> set (gl_lists g)
      | Some nb \<Rightarrow> (\<exists>xs ys. gl_lists g = xs @ i # ys \<and> nb = ys @ xs)) \<and>
     (\<forall>k. vec_map_get (ss_executors_task_lists s) k =
        map_option sa_task_queue (vec_map_get (gl_states_of_alive_executors g) k)) \<and>
     (\<forall>k. map_option sl_queue (vec_map_get (ia_all it) k) =
        map_option sa_task_queue (vec_map_get (gl_states_of_alive_executors g) k))"

definition lists_wf :: "global_state \<Rightarrow> subscriptions \<Rightarrow> bool" where
  "lists_wf g subs \<longleftrightarrow> distinct (gl_lists g) \<and> (\<forall>i \<in> set (gl_lists g). alive g i) \<and>
     (\<forall>i. alive g i \<longrightarrow> (i \<in> set (gl_lists g) \<longleftrightarrow> ss_tasks_lists (subs i) \<noteq> None)) \<and>
     (\<forall>i st. vec_map_get (gl_states_of_alive_executors g) i = Some st \<longrightarrow> sa_subscribed_state st = i) \<and>
     (\<forall>i. alive g i \<longrightarrow> \<not> ss_is_stopped (subs i))"

definition versions_wf :: "global_state \<Rightarrow> subscriptions \<Rightarrow> bool" where
  "versions_wf g subs \<longleftrightarrow> gl_version g < usize_max \<and>
     (\<forall>i. alive g i \<longrightarrow> ss_current_version (subs i) = gl_version g) \<and>
     (\<forall>i. ss_current_version (subs i) < usize_max) \<and>
     (\<forall>i. ss_current_version (subs i) \<le> gl_version g \<or> subs i = subscribed_state_new) \<and>
     (\<forall>i. ss_processed_version (subs i) \<le> gl_version g \<or> ss_processed_version (subs i) = usize_max)"

definition views_wf :: "registry \<Rightarrow> bool" where
  "views_wf w \<longleftrightarrow> (case w of (g, subs, its) \<Rightarrow>
     \<forall>i. ss_processed_version (subs i) = ss_current_version (subs i) \<longrightarrow>
       (if alive g i then up_to_date g i (subs i) (its i) else ss_is_stopped (subs i)))"

definition registry_inv :: "bool \<Rightarrow> registry \<Rightarrow> bool" where
  "registry_inv dbg w \<longleftrightarrow> (case w of (g, subs, its) \<Rightarrow>
     lists_wf g subs \<and> versions_wf g subs \<and> views_wf w \<and> (dbg \<longrightarrow> (\<forall>i. alive g i \<longrightarrow> i < 100)))"

lemma set_versions_eq:
  assumes "\<forall>(k, st) \<in> set es. sa_subscribed_state st = k"
  shows "set_versions v es subs i =
    (if i \<in> fst ` set es then (subs i)\<lparr>ss_current_version := v\<rparr> else subs i)"
  using assms
proof (induction es arbitrary: subs)
  case (Cons e es)
  then obtain st where "e = (sa_subscribed_state st, st)" by auto
  with Cons show ?case by (cases "i \<in> fst ` set es") auto
qed simp

lemma alive_iter: "i \<in> fst ` set (vec_map_iter (gl_states_of_alive_executors g)) \<longleftrightarrow> alive g i"
  using vm.keys_entries[of "gl_states_of_alive_executors g"] by (auto simp: alive_def)

lemma set_versions_alive:
  assumes "\<forall>i st. vec_map_get (gl_states_of_alive_executors g) i = Some st \<longrightarrow> sa_subscribed_state st = i"
  shows "set_versions v (vec_map_iter (gl_states_of_alive_executors g)) subs i =
    (if alive g i then (subs i)\<lparr>ss_current_version := v\<rparr> else subs i)"
proof -
  have "\<forall>(k, st) \<in> set (vec_map_iter (gl_states_of_alive_executors g)). sa_subscribed_state st = k"
    using assms by (auto simp: vec_map_iter_in)
  from set_versions_eq[OF this] show ?thesis by (simp add: alive_iter)
qed

lemma list_position_append: "i \<notin> set xs \<Longrightarrow> list_position (\<lambda>l. l = i) (xs @ i # ys) = Some (length xs)"
  by (induction xs) auto

lemma validate_tasks_lists_eq:
  assumes "ss_tasks_lists s = Some (xs @ i # ys)" and "i \<notin> set xs"
  shows "validate_tasks_lists i s = Inr (s\<lparr>ss_tasks_lists := Some (ys @ xs)\<rparr>)"
proof -
  have "rotate (length xs) (xs @ ys) = ys @ xs" by (rule rotate_append)
  with assms show ?thesis
    by (auto simp: validate_tasks_lists_def list_position_append list_remove_def)
qed

lemma insert_all_eq:
  assumes "dbg \<longrightarrow> (\<forall>(k, v) \<in> set es. k < 100)" and "distinct (map fst es)"
  shows "\<exists>m'. insert_all dbg es m = Inr m' \<and>
    (\<forall>k. vec_map_get m' k = (case map_of es k of Some v \<Rightarrow> Some v | None \<Rightarrow> vec_map_get m k))"
  using assms
proof (induction es arbitrary: m)
  case (Cons e es)
  obtain k v where e: "e = (k, v)" by fastforce
  with Cons.prems have "vec_map_insert dbg k v m = Inr (vec_map_get m k, vec_map_ins k v m)"
    by (auto simp: vec_map_insert_eq)
  moreover have "k \<notin> fst ` set es" using Cons.prems(2) e by simp
  ultimately show ?case
    using Cons.IH[of "vec_map_ins k v m"] Cons.prems e
    by (auto simp: vec_map_get_ins map_of_eq_None_iff split: option.splits)
qed simp

lemma insert_all_iter:
  assumes "dbg \<longrightarrow> (\<forall>k. vec_map_get states k \<noteq> None \<longrightarrow> k < 100)"
  shows "\<exists>m'. insert_all dbg (map (\<lambda>(k, st). (k, f st)) (vec_map_iter states)) (vec_map_clear m) = Inr m' \<and>
    (\<forall>k. vec_map_get m' k = map_option f (vec_map_get states k))"
proof -
  have es: "map fst (map (\<lambda>(k, st). (k, f st)) (vec_map_iter states)) = map fst (vec_map_iter states)"
    by (simp add: case_prod_beta comp_def)
  have small: "dbg \<longrightarrow> (\<forall>(k, v) \<in> set (map (\<lambda>(k, st). (k, f st)) (vec_map_iter states)). k < 100)"
    using assms by (auto simp: vec_map_iter_in)
  have dist: "distinct (map fst (map (\<lambda>(k, st). (k, f st)) (vec_map_iter states)))"
    unfolding es by (rule vm.entries_distinct)
  have look: "map_of (map (\<lambda>(k, st). (k, f st)) (vec_map_iter states)) k = map_option f (vec_map_get states k)" for k
    by (simp add: map_of_map vm.map_of_entries)
  obtain m' where m': "insert_all dbg (map (\<lambda>(k, st). (k, f st)) (vec_map_iter states)) (vec_map_clear m) = Inr m'"
      "\<forall>k. vec_map_get m' k = (case map_option f (vec_map_get states k) of
         Some v \<Rightarrow> Some v | None \<Rightarrow> vec_map_get (vec_map_clear m) k)"
    using insert_all_eq[OF small dist, of "vec_map_clear m"] unfolding look by blast
  have "vec_map_get m' k = map_option f (vec_map_get states k)" for k
    using m'(2) by (cases "vec_map_get states k") (auto simp: vec_map_clear_get)
  with m'(1) show ?thesis by blast
qed

lemma check_version_stopped:
  assumes "registry_inv dbg (g, subs, its)" and "\<not> alive g i"
  shows "\<exists>s. check_version_and_update_if_needed dbg i g (subs i, its i) = Inr (s, its i) \<and> ss_is_stopped s \<and>
    ss_processed_version s = ss_current_version (subs i) \<and> ss_current_version s = ss_current_version (subs i)"
proof -
  have "ss_current_version (subs i) < usize_max"
    and "ss_processed_version (subs i) = ss_current_version (subs i) \<longrightarrow> ss_is_stopped (subs i)"
    using assms by (auto simp: registry_inv_def versions_wf_def views_wf_def)
  moreover have "\<not> list_ex (\<lambda>(a, _). a = i) (vec_map_iter (gl_states_of_alive_executors g))"
    using assms(2) alive_iter[of i g] by (force simp: list_ex_iff)
  ultimately show ?thesis
    by (auto simp: check_version_and_update_if_needed_def Let_def)
qed

lemma check_version_alive:
  assumes inv: "registry_inv dbg (g, subs, its)" and "alive g i"
  shows "\<exists>s it. check_version_and_update_if_needed dbg i g (subs i, its i) = Inr (s, it) \<and> up_to_date g i s it \<and>
    ss_processed_version s = ss_current_version (subs i) \<and> ss_current_version s = ss_current_version (subs i) \<and>
    (ss_tasks_lists s = None \<longleftrightarrow> ss_tasks_lists (subs i) = None)"
proof (cases "ss_processed_version (subs i) = ss_current_version (subs i)")
  case True
  moreover have "ss_current_version (subs i) < usize_max" "up_to_date g i (subs i) (its i)"
    using assms True by (auto simp: registry_inv_def versions_wf_def views_wf_def)
  ultimately show ?thesis by (auto simp: check_version_and_update_if_needed_def)
next
  case False
  let ?s1 = "(subs i)\<lparr>ss_processed_version := ss_current_version (subs i)\<rparr>"
  let ?states = "gl_states_of_alive_executors g"
  have found: "list_ex (\<lambda>(a, _). a = i) (vec_map_iter ?states)"
    using assms(2) alive_iter[of i g] by (force simp: list_ex_iff)
  have l: "distinct (gl_lists g)" "i \<in> set (gl_lists g) \<longleftrightarrow> ss_tasks_lists (subs i) \<noteq> None"
    "\<not> ss_is_stopped (subs i)"
    and small: "dbg \<longrightarrow> (\<forall>k. vec_map_get ?states k \<noteq> None \<longrightarrow> k < 100)"
    using assms by (auto simp: registry_inv_def lists_wf_def alive_def)
  obtain s2 where v: "(if ss_tasks_lists ?s1 \<noteq> None
        then validate_tasks_lists i (?s1\<lparr>ss_tasks_lists := Some (gl_lists g)\<rparr>) else Inr ?s1) = Inr s2"
    and s2: "case ss_tasks_lists s2 of None \<Rightarrow> i \<notin> set (gl_lists g)
        | Some nb \<Rightarrow> (\<exists>xs ys. gl_lists g = xs @ i # ys \<and> nb = ys @ xs)"
      "s2 = ?s1\<lparr>ss_tasks_lists := ss_tasks_lists s2\<rparr>" "ss_tasks_lists s2 = None \<longleftrightarrow> ss_tasks_lists (subs i) = None"
  proof (cases "ss_tasks_lists (subs i)")
    case None
    with l that[of ?s1] show thesis by simp
  next
    case (Some nb)
    with l obtain xs ys where xy: "gl_lists g = xs @ i # ys" "i \<notin> set xs"
      using split_list_first[of i "gl_lists g"] by auto
    with validate_tasks_lists_eq[of "?s1\<lparr>ss_tasks_lists := Some (gl_lists g)\<rparr>" xs i ys] Some
    show thesis by (intro that[of "?s1\<lparr>ss_tasks_lists := Some (ys @ xs)\<rparr>"]) auto
  qed
  obtain queues where q: "insert_all dbg (map (\<lambda>(k, st). (k, sa_task_queue st)) (vec_map_iter ?states))
      (vec_map_clear (ss_executors_task_lists s2)) = Inr queues"
      "\<forall>k. vec_map_get queues k = map_option sa_task_queue (vec_map_get ?states k)"
    using insert_all_iter[OF small] by blast
  obtain all where a: "insert_all dbg (map (\<lambda>(k, st). (k, send_list_new (sa_task_queue st))) (vec_map_iter ?states))
      (vec_map_clear (ia_all (its i))) = Inr all"
      "\<forall>k. vec_map_get all k = map_option (\<lambda>st. send_list_new (sa_task_queue st)) (vec_map_get ?states k)"
    using insert_all_iter[OF small, of "\<lambda>st. send_list_new (sa_task_queue st)"] by blast
  have "check_version_and_update_if_needed dbg i g (subs i, its i) =
      Inr (s2\<lparr>ss_executors_task_lists := queues\<rparr>, (its i)\<lparr>ia_all := all\<rparr>)"
    using False found v q(1) a(1) by (simp add: check_version_and_update_if_needed_def Let_def)
  moreover have f: "ss_processed_version s2 = ss_current_version (subs i)" "ss_current_version s2 = ss_current_version (subs i)"
      "ss_is_stopped s2 = ss_is_stopped (subs i)" by (subst s2(2), simp)+
  moreover have "up_to_date g i (s2\<lparr>ss_executors_task_lists := queues\<rparr>) ((its i)\<lparr>ia_all := all\<rparr>)"
    using s2(1) q(2) a(2) l(3) f(3) by (simp add: up_to_date_def send_list_new_def option.map_comp comp_def)
  ultimately show ?thesis using s2(3) by auto
qed

lemma registry_update_inv:
  assumes inv: "registry_inv dbg (g, subs, its)" and cur: "ss_current_version (subs i) \<le> gl_version g"
    and s: "ss_processed_version s = ss_current_version (subs i)" "ss_current_version s = ss_current_version (subs i)"
    and a: "alive g i \<Longrightarrow> up_to_date g i s it \<and> (ss_tasks_lists s = None \<longleftrightarrow> ss_tasks_lists (subs i) = None)"
    and d: "\<not> alive g i \<Longrightarrow> ss_is_stopped s"
  shows "registry_inv dbg (g, subs(i := s), its(i := it))"
proof -
  have "lists_wf g (subs(i := s))"
    using inv a by (auto simp: registry_inv_def lists_wf_def up_to_date_def)
  moreover have "versions_wf g (subs(i := s))"
    using inv cur s by (auto simp: registry_inv_def versions_wf_def)
  moreover have "views_wf (g, subs(i := s), its(i := it))"
    using inv a d by (simp add: registry_inv_def views_wf_def)
  ultimately show ?thesis using inv by (simp add: registry_inv_def)
qed

lemma registry_check_inv:
  assumes inv: "registry_inv dbg (g, subs, its)" and ok: "ss_current_version (subs i) \<le> gl_version g"
  obtains s it where "registry_step dbg (CheckVersion i) (g, subs, its) = (True, g, subs(i := s), its(i := it))"
    and "registry_inv dbg (g, subs(i := s), its(i := it))" and "ss_processed_version s = ss_current_version s"
proof (cases "alive g i")
  case True
  from check_version_alive[OF inv True] obtain s it where c:
    "check_version_and_update_if_needed dbg i g (subs i, its i) = Inr (s, it)" "up_to_date g i s it"
    "ss_processed_version s = ss_current_version (subs i)" "ss_current_version s = ss_current_version (subs i)"
    "ss_tasks_lists s = None \<longleftrightarrow> ss_tasks_lists (subs i) = None" by metis
  have "registry_inv dbg (g, subs(i := s), its(i := it))"
    by (rule registry_update_inv[OF inv ok c(3,4)]) (use True c in simp_all)
  with c show thesis by (intro that[of s it]) simp_all
next
  case False
  from check_version_stopped[OF inv False] obtain s where c:
    "check_version_and_update_if_needed dbg i g (subs i, its i) = Inr (s, its i)" "ss_is_stopped s"
    "ss_processed_version s = ss_current_version (subs i)" "ss_current_version s = ss_current_version (subs i)" by metis
  have "registry_inv dbg (g, subs(i := s), its(i := its i))"
    by (rule registry_update_inv[OF inv ok c(3,4)]) (use False c in simp_all)
  with c show thesis by (intro that[of s "its i"]) simp_all
qed

text \<open>
  A change of the registry that gives every executor that was alive, and every one that is, the
  new version outdates their views.
\<close>

lemma registry_change_inv:
  assumes inv: "registry_inv dbg (g, subs, its)" and v: "gl_version g' = gl_version g + 1" "gl_version g + 1 < usize_max"
    and l: "lists_wf g' subs'" and small: "dbg \<longrightarrow> (\<forall>i. alive g' i \<longrightarrow> i < 100)"
    and c: "\<And>i. alive g i \<or> alive g' i \<Longrightarrow>
      ss_current_version (subs' i) = gl_version g' \<and> ss_processed_version (subs' i) = ss_processed_version (subs i)"
    and u: "\<And>i. \<not> alive g i \<Longrightarrow> \<not> alive g' i \<Longrightarrow> subs' i = subs i"
  shows "registry_inv dbg (g', subs', its)"
proof -
  have vw: "versions_wf g subs" "views_wf (g, subs, its)" using inv by (auto simp: registry_inv_def)
  have "versions_wf g' subs'"
    unfolding versions_wf_def
  proof (intro conjI allI impI)
    fix i
    have w: "ss_current_version (subs i) \<le> gl_version g \<or> subs i = subscribed_state_new"
        "ss_processed_version (subs i) \<le> gl_version g \<or> ss_processed_version (subs i) = usize_max"
        "ss_current_version (subs i) < usize_max"
      using vw(1) by (auto simp: versions_wf_def)
    show "gl_version g' < usize_max" using v by simp
    show "alive g' i \<Longrightarrow> ss_current_version (subs' i) = gl_version g'" using c by blast
    show "ss_current_version (subs' i) < usize_max"
      using c[of i] u[of i] v w by (cases "alive g i \<or> alive g' i") auto
    show "ss_current_version (subs' i) \<le> gl_version g' \<or> subs' i = subscribed_state_new"
      using c[of i] u[of i] v w by (cases "alive g i \<or> alive g' i") auto
    show "ss_processed_version (subs' i) \<le> gl_version g' \<or> ss_processed_version (subs' i) = usize_max"
      using c[of i] u[of i] v w by (cases "alive g i \<or> alive g' i") auto
  qed
  moreover have "views_wf (g', subs', its)"
    unfolding views_wf_def prod.case
  proof (intro allI impI)
    fix i
    assume e: "ss_processed_version (subs' i) = ss_current_version (subs' i)"
    have "ss_processed_version (subs i) \<le> gl_version g \<or> ss_processed_version (subs i) = usize_max"
      using vw(1) by (simp add: versions_wf_def)
    with e c[of i] v have "\<not> (alive g i \<or> alive g' i)" by auto
    with u[of i] e vw(2) show "if alive g' i then up_to_date g' i (subs' i) (its i) else ss_is_stopped (subs' i)"
      by (auto simp: views_wf_def)
  qed
  ultimately show ?thesis using l small by (simp add: registry_inv_def)
qed

lemma registry_stop_inv:
  assumes inv: "registry_inv dbg (g, subs, its)" and v: "gl_version g + 1 < usize_max"
    and g': "g' = \<lparr>gl_version = gl_version g + 1,
      gl_states_of_alive_executors = vec_map_retain (\<lambda>k _. P k) (gl_states_of_alive_executors g),
      gl_lists = filter P (gl_lists g)\<rparr>"
    and subs': "subs' = set_versions (gl_version g + 1) (vec_map_iter (gl_states_of_alive_executors g)) subs"
  shows "registry_inv dbg (g', subs', its)" and "alive g' i \<longleftrightarrow> alive g i \<and> P i"
proof -
  have l: "lists_wf g subs" using inv by (simp add: registry_inv_def)
  have al: "alive g' i \<longleftrightarrow> alive g i \<and> P i" for i
    by (auto simp: g' alive_def vm.look_keep split: option.splits)
  then show "alive g' i \<longleftrightarrow> alive g i \<and> P i" .
  have su: "subs' i = (if alive g i then (subs i)\<lparr>ss_current_version := gl_version g + 1\<rparr> else subs i)" for i
    unfolding subs' using l by (intro set_versions_alive) (simp add: lists_wf_def)
  have "lists_wf g' subs'"
    unfolding lists_wf_def
  proof (intro conjI allI impI ballI)
    show "distinct (gl_lists g')" using l by (simp add: g' lists_wf_def)
    show "alive g' j" if "j \<in> set (gl_lists g')" for j
      using that l al[of j] by (auto simp: g' lists_wf_def)
    show "j \<in> set (gl_lists g') \<longleftrightarrow> ss_tasks_lists (subs' j) \<noteq> None" if "alive g' j" for j
      using that l al[of j] su[of j] by (auto simp: g' lists_wf_def)
    show "sa_subscribed_state st = j" if "vec_map_get (gl_states_of_alive_executors g') j = Some st" for j st
      using that l by (auto simp: g' lists_wf_def vm.look_keep split: option.splits if_splits)
    show "\<not> ss_is_stopped (subs' j)" if "alive g' j" for j
      using that l al[of j] su[of j] by (auto simp: lists_wf_def)
  qed
  moreover have "dbg \<longrightarrow> (\<forall>i. alive g' i \<longrightarrow> i < 100)" using inv al by (auto simp: registry_inv_def)
  moreover have "gl_version g' = gl_version g + 1" by (simp add: g')
  ultimately show "registry_inv dbg (g', subs', its)"
    using su al v by (intro registry_change_inv[OF inv]) auto
qed

lemma registry_register_inv:
  assumes inv: "registry_inv dbg (g, subs, its)" and ok: "registry_ok dbg (Register i shares q) (g, subs, its)"
  obtains g' subs' where "registry_step dbg (Register i shares q) (g, subs, its) = (True, g', subs', its)"
    and "registry_inv dbg (g', subs', its)"
proof -
  let ?v = "gl_version g + 1"
  let ?states = "vec_map_ins i \<lparr>sa_subscribed_state = i, sa_task_queue = q\<rparr> (gl_states_of_alive_executors g)"
  let ?lists = "if shares then gl_lists g @ [i] else gl_lists g"
  let ?g = "\<lparr>gl_version = ?v, gl_states_of_alive_executors = ?states, gl_lists = ?lists\<rparr>"
  have l: "lists_wf g subs" using inv by (simp add: registry_inv_def)
  have i: "\<not> alive g i" "i \<notin> set (gl_lists g)" "ss_tasks_lists (subs i) \<noteq> None \<longrightarrow> shares" "?v < usize_max" "dbg \<longrightarrow> i < 100"
    using ok l by (auto simp: lists_wf_def)
  let ?s = "if shares then (subs i)\<lparr>ss_tasks_lists := Some (gl_lists g)\<rparr> else subs i"
  let ?subs1 = "subs(i := ?s\<lparr>ss_current_version := ?v, ss_is_stopped := False\<rparr>)"
  let ?subs = "set_versions ?v (vec_map_iter ?states) ?subs1"
  have val: "(if shares then validate_tasks_lists i ((subs i)\<lparr>ss_tasks_lists := Some ?lists\<rparr>) else Inr (subs i)) = Inr ?s"
    using validate_tasks_lists_eq[of "(subs i)\<lparr>ss_tasks_lists := Some (gl_lists g @ [i])\<rparr>" "gl_lists g" i "[]"] i
    by simp
  have step: "registry_step dbg (Register i shares q) (g, subs, its) = (True, ?g, ?subs, its)"
    using val i(5) by (auto simp: global_state_register_def vec_map_insert_eq Let_def)
  have al: "alive ?g j \<longleftrightarrow> alive g j \<or> j = i" for j by (simp add: alive_def vec_map_get_ins)
  have ref: "\<forall>j st. vec_map_get ?states j = Some st \<longrightarrow> sa_subscribed_state st = j"
    using l by (auto simp: lists_wf_def vec_map_get_ins)
  have su: "?subs j = (if alive g j \<or> j = i then (?subs1 j)\<lparr>ss_current_version := ?v\<rparr> else ?subs1 j)" for j
    using set_versions_alive[of ?g ?v ?subs1 j] ref al[of j] by simp
  have "lists_wf ?g ?subs"
    unfolding lists_wf_def
  proof (intro conjI allI impI ballI)
    show "distinct (gl_lists ?g)" using l i(2) by (simp add: lists_wf_def)
    show "alive ?g j" if "j \<in> set (gl_lists ?g)" for j
      using that l al[of j] by (auto simp: lists_wf_def split: if_splits)
    show "j \<in> set (gl_lists ?g) \<longleftrightarrow> ss_tasks_lists (?subs j) \<noteq> None" if "alive ?g j" for j
      using that l i al[of j] su[of j]
      by (cases "j = i") (auto simp: lists_wf_def)
    show "sa_subscribed_state st = j" if "vec_map_get (gl_states_of_alive_executors ?g) j = Some st" for j st
      using that ref by simp
    show "\<not> ss_is_stopped (?subs j)" if "alive ?g j" for j
      using that l al[of j] su[of j] by (auto simp: lists_wf_def)
  qed
  moreover have "dbg \<longrightarrow> (\<forall>j. alive ?g j \<longrightarrow> j < 100)" using inv i(5) al by (auto simp: registry_inv_def)
  ultimately have "registry_inv dbg (?g, ?subs, its)"
    using su al i by (intro registry_change_inv[OF inv]) auto
  with step that show thesis by blast
qed

lemma registry_step_inv:
  assumes "registry_inv dbg w" and "registry_ok dbg p w" and "registry_step dbg p w = (r, w')"
  shows "registry_inv dbg w' \<and> r"
proof (cases w)
  case [simp]: (fields g subs its)
  note inv = assms(1)[unfolded fields]
  show ?thesis
  proof (cases p)
    case (Register i sh q)
    from registry_register_inv[OF inv, of i sh q] assms(2,3) show ?thesis
      unfolding Register fields by (metis Pair_inject)
  next
    case (StopExecutor i)
    with assms(2,3) registry_stop_inv(1)[OF inv, of _ "\<lambda>k. k \<noteq> i"] show ?thesis
      by (auto simp: global_state_stop_executor_def Let_def)
  next
    case StopAll
    with assms(2,3) registry_stop_inv(1)[OF inv, of _ "\<lambda>_. False"] show ?thesis
      by (auto simp: global_state_stop_all_executors_def Let_def)
  next
    case (CheckVersion i)
    from registry_check_inv[OF inv, of i] assms(2,3) show ?thesis
      unfolding CheckVersion fields by (metis Pair_inject registry_ok.simps(2))
  qed
qed

interpretation reg: op_system "registry_step dbg" "registry_ok dbg" "registry_inv dbg"
  by unfold_locales (blast dest: registry_step_inv)

lemma registry_start: "registry_inv dbg (global_state_new, \<lambda>_. subscribed_state_new, its)"
  by (simp add: registry_inv_def lists_wf_def versions_wf_def views_wf_def global_state_new_def alive_def
      vec_map_new_def vec_map_get_def subscribed_state_new_def usize_max_def)

subsection \<open>Limits of an update\<close>

lemma insert_all_release: "insert_all dbg es m = Inr m' \<Longrightarrow> insert_all False es m = Inr m'"
  by (induction es arbitrary: m) (auto simp: bindR_Inr_conv vec_map_insert_eq split: if_splits)

lemma batched_empty:
  assumes "\<forall>k. vec_map_get (ia_all it) k = map_option (\<lambda>st. send_list_new (f st)) (g k)"
  shows "batched it = {#}"
proof -
  have "batch_tasks (vm_inner (ia_all it) ! k) = {#}" if "k < length (vm_inner (ia_all it))" for k
  proof -
    have "vm_inner (ia_all it) ! k = vec_map_get (ia_all it) k" using that by (simp add: vec_map_get_def)
    then show ?thesis using assms by (cases "g k") (auto simp: batch_tasks_def send_list_new_def)
  qed
  then have "map batch_tasks (vm_inner (ia_all it)) = replicate (length (vm_inner (ia_all it))) {#}"
    by (intro nth_equalityI) auto
  moreover have "sum_list (replicate n {#}) = ({#} :: task multiset)" for n by (induction n) auto
  ultimately show ?thesis by (simp add: batched_def)
qed

text \<open>An update of an alive executor gives its interactor new, empty batches; otherwise the check leaves it alone.\<close>

lemma check_version_interactor:
  assumes "ss_processed_version s \<noteq> ss_current_version s"
    and "i \<in> set (executors_ids g)"
    and "check_version_and_update_if_needed dbg i g (s, it) = Inr (s', it')"
  shows "ia_id_to_retry it' = ia_id_to_retry it \<and> ia_queue it' = ia_queue it \<and> batched it' = {#} \<and>
    (\<forall>k. vec_map_get (ia_all it') k = map_option (\<lambda>st. send_list_new (sa_task_queue st))
       (vec_map_get (gl_states_of_alive_executors g) k))"
proof -
  let ?es = "map (\<lambda>(k, st). (k, send_list_new (sa_task_queue st))) (vec_map_iter (gl_states_of_alive_executors g))"
  have "list_ex (\<lambda>(a, _). a = i) (vec_map_iter (gl_states_of_alive_executors g))"
    using assms(2) by (force simp: executors_ids_def list_ex_iff)
  with assms(1,3) obtain all where a: "insert_all dbg ?es (vec_map_clear (ia_all it)) = Inr all" "it' = it\<lparr>ia_all := all\<rparr>"
    by (auto simp: check_version_and_update_if_needed_def Let_def bindR_Inr_conv)
  obtain m' where m': "insert_all False ?es (vec_map_clear (ia_all it)) = Inr m'"
      "\<forall>k. vec_map_get m' k = map_option (\<lambda>st. send_list_new (sa_task_queue st))
        (vec_map_get (gl_states_of_alive_executors g) k)"
    using insert_all_iter[of False "gl_states_of_alive_executors g" "\<lambda>st. send_list_new (sa_task_queue st)"] by blast
  have "all = m'" using insert_all_release[OF a(1)] m'(1) by simp
  then have g: "\<forall>k. vec_map_get (ia_all it') k = map_option (\<lambda>st. send_list_new (sa_task_queue st))
      (vec_map_get (gl_states_of_alive_executors g) k)" using a(2) m'(2) by simp
  from batched_empty[OF g] g a(2) show ?thesis by simp
qed

lemma check_version_keeps_interactor:
  assumes "ss_processed_version s = ss_current_version s \<or> i \<notin> set (executors_ids g)"
    and "check_version_and_update_if_needed dbg i g (s, it) = Inr (s', it')"
  shows "it' = it"
proof (cases "ss_processed_version s = ss_current_version s")
  case True
  with assms(2) show ?thesis by (auto simp: check_version_and_update_if_needed_def split: if_splits)
next
  case False
  with assms(1) have "\<not> list_ex (\<lambda>(a, _). a = i) (vec_map_iter (gl_states_of_alive_executors g))"
    by (force simp: executors_ids_def list_ex_iff)
  with assms(2) False show ?thesis by (auto simp: check_version_and_update_if_needed_def Let_def)
qed

text \<open>
  A vector map of a debug build refuses keys 100 past its length, and an update starts from empty
  maps: the update of an executor that is alone and has a number from 100 on panics.
\<close>

lemma check_version_panics_after_100:
  assumes "ss_processed_version s \<noteq> ss_current_version s" and "100 \<le> i" and "ss_tasks_lists s = None"
    and "vec_map_iter (gl_states_of_alive_executors g) = [(i, st)]"
  shows "check_version_and_update_if_needed True i g (s, it) = Inl DebugAssert"
  using assms by (simp add: check_version_and_update_if_needed_def Let_def vec_map_insert_eq vec_map_clear_def)

section \<open>Properties\<close>

text \<open>
  C12. After every history of registrations, stops, registrations of stopped executors again, and version
  checks, the version check of an executor that was registered makes it up to date, and none of these operations
  panics: it is stopped exactly when it is not among the alive executors; if it is alive, it can
  send tasks to exactly the alive executors, to their own queues, and its work-sharing neighbours
  are all the others in registration order, starting behind itself, or none if it does not share work.
  An executor registers only while it is not registered and always with the same work sharing, the version
  does not reach its maximum, and in a debug build the executors are numbered below 100.
\<close>

theorem executor_view_up_to_date:
  assumes "oks (registry_ok dbg) (registry_step dbg) ps (global_state_new, \<lambda>_. subscribed_state_new, its0)"
    and "run_ops (registry_step dbg) ps (global_state_new, \<lambda>_. subscribed_state_new, its0) = (os, g, subs, its)"
    and "ss_current_version (subs i) \<le> gl_version g"
  shows "list_all (\<lambda>ok. ok) os \<and>
    (\<exists>s it. check_version_and_update_if_needed dbg i g (subs i, its i) = Inr (s, it) \<and>
      (ss_is_stopped s \<longleftrightarrow> i \<notin> set (executors_ids g)) \<and>
      (i \<in> set (executors_ids g) \<longrightarrow>
        (\<forall>k. map_option sl_queue (vec_map_get (ia_all it) k) =
           map_option sa_task_queue (vec_map_get (gl_states_of_alive_executors g) k)) \<and>
        (\<forall>k. vec_map_get (ss_executors_task_lists s) k =
           map_option sa_task_queue (vec_map_get (gl_states_of_alive_executors g) k)) \<and>
        (if i \<in> set (gl_lists g) then \<exists>xs ys. gl_lists g = xs @ i # ys \<and> ss_tasks_lists s = Some (ys @ xs)
         else ss_tasks_lists s = None)))"
proof -
  have inv: "registry_inv dbg (g, subs, its)" by (rule reg.run_inv[OF registry_start assms(1,2)])
  have os: "list_all (\<lambda>ok. ok) os"
    by (rule reg.run_reports[OF _ registry_start assms(1,2)]) (blast dest: registry_step_inv)
  have al: "i \<in> set (executors_ids g) \<longleftrightarrow> alive g i" using alive_iter[of i g] by (simp add: executors_ids_def)
  show ?thesis
  proof (cases "alive g i")
    case True
    from check_version_alive[OF inv True] obtain s it where
      "check_version_and_update_if_needed dbg i g (subs i, its i) = Inr (s, it)" "up_to_date g i s it" by metis
    with True al os show ?thesis
      by (auto simp: up_to_date_def split: option.splits)
  next
    case False
    from check_version_stopped[OF inv False] False al os show ?thesis by auto
  qed
qed

definition registry_demo :: "registry_op list" where
  "registry_demo = [Register 0 True 10, Register 1 True 11, CheckVersion 0, Register 2 True 12, StopExecutor 0,
     CheckVersion 0, Register 0 True 10]"

theorem executor_view_up_to_date_witness:
  "\<exists>g subs its s it. run_ops (registry_step True) registry_demo
       (global_state_new, \<lambda>_. subscribed_state_new, \<lambda>_. interactor_new 0) = ([True, True, True, True, True, True, True], g, subs, its) \<and>
     check_version_and_update_if_needed True 0 g (subs 0, its 0) = Inr (s, it) \<and> \<not> ss_is_stopped s \<and>
     ss_tasks_lists s = Some [1, 2]"
proof -
  let ?run = "run_ops (registry_step True) registry_demo
       (global_state_new, \<lambda>_. subscribed_state_new, \<lambda>_. interactor_new 0)"
  obtain os g subs its where r: "?run = (os, g, subs, its)" using prod_cases4 by blast
  note defs = registry_demo_def global_state_new_def subscribed_state_new_def global_state_register_def
    validate_tasks_lists_def list_remove_def vec_map_insert_def vec_map_grow_def vec_map_new_def vec_map_iter_def
    vec_map_get_def alive_def check_version_and_update_if_needed_def vec_map_clear_def global_state_stop_executor_def
    vec_map_retain_def usize_max_def Let_def
  have ok: "oks (registry_ok True) (registry_step True) registry_demo
       (global_state_new, \<lambda>_. subscribed_state_new, \<lambda>_. interactor_new 0)"
    by (simp add: defs)
  have e: "os = [True, True, True, True, True, True, True]" "ss_current_version (subs 0) = gl_version g" "executors_ids g = [0, 1, 2]" "gl_lists g = [1, 2, 0]"
    using r by (auto simp: defs executors_ids_def)
  have "[1, 2, 0 :: nat] = xs @ 0 # ys \<Longrightarrow> ys @ xs = [1, 2]" for xs ys by (auto simp: Cons_eq_append_conv)
  moreover obtain s it where "check_version_and_update_if_needed True 0 g (subs 0, its 0) = Inr (s, it)" "\<not> ss_is_stopped s"
      "\<exists>xs ys. [1, 2, 0] = xs @ 0 # ys \<and> ss_tasks_lists s = Some (ys @ xs)"
    using executor_view_up_to_date[OF ok r, of 0] e by auto
  ultimately show ?thesis using r e(1) by metis
qed

text \<open>
  When the registry changed, the version check of an alive executor empties the batches of
  tasks it has accepted for other executors and not handed over yet: those tasks are lost.
\<close>

theorem check_version_drops_batches:
  assumes "ss_processed_version s \<noteq> ss_current_version s"
    and "i \<in> set (executors_ids g)"
    and "check_version_and_update_if_needed dbg i g (s, it) = Inr (s', it')"
  shows "batched it' = {#}"
  using check_version_interactor[OF assms] by simp

theorem check_version_drops_batches_witness:
  "\<exists>g it s' it'. interactor_send demo_task 1 demo_interactor = (SendOk, it) \<and> batched it \<noteq> {#} \<and>
     check_version_and_update_if_needed True 0 g (subscribed_state_new, it) = Inr (s', it') \<and> batched it' = {#}"
proof -
  let ?g = "\<lparr>gl_version = 1, gl_states_of_alive_executors = \<lparr>vm_inner = [Some \<lparr>sa_subscribed_state = 0, sa_task_queue = 10\<rparr>]\<rparr>,
    gl_lists = []\<rparr>"
  obtain it where it: "interactor_send demo_task 1 demo_interactor = (SendOk, it)" "batched it \<noteq> {#}"
    by (simp add: interactor_send_def demo_interactor_def vec_map_get_def vec_map_modify_def send_list_new_def
        batched_def batch_tasks_def untagged_def)
  obtain s' it' where c: "check_version_and_update_if_needed True 0 ?g (subscribed_state_new, it) = Inr (s', it')"
    by (simp add: check_version_and_update_if_needed_def subscribed_state_new_def usize_max_def vec_map_iter_def
        vec_map_insert_eq vec_map_clear_def vec_map_new_def Let_def)
  have "batched it' = {#}"
    by (rule check_version_drops_batches[OF _ _ c])
      (simp_all add: subscribed_state_new_def usize_max_def executors_ids_def vec_map_iter_def)
  with it c show ?thesis by blast
qed

end
