(* ===== verification/Executor_Run.thy ===== *)
theory Executor_Run
  imports Io_Uring Global_State
begin

text \<open>
  The main loop of an executor (\<open>run\<close> in \<open>src/src/runtime/executor/executor.rs\<close>): the version check, the work of a round,
  and the wait, with the poll of the io_uring worker. A round keeps every task it should keep; what it drops, the batches the
  version check clears, and what it gets, the tasks of completed requests, is stated exactly.
\<close>

section \<open>One round\<close>







section \<open>The account of a round\<close>










lemma timeout_idle [simp]: "idle (e\<lparr>ex_progressive_timeout := cur\<rparr>) = idle e" "wf_sleep (e\<lparr>ex_progressive_timeout := cur\<rparr>) = wf_sleep e"
  by (simp_all add: idle_def wf_sleep_def)



section \<open>Properties\<close>










end
