(* ===== verification/Buffers.thy ===== *)
theory Buffers
  imports Orengine_Prelude Transition_Systems
begin

text \<open>
  Buffers and their pool on Linux (\<open>src/src/io/buf\<close>): \<open>buffer.rs\<close>, \<open>linux/linux_buffer.rs\<close>,
  \<open>slice.rs\<close> and \<open>buf_pool.rs\<close>. Buffers point into memory, which is an explicit store of live
  allocations and their bytes; an access outside a live allocation is \<open>Undefined\<close>. Every buffer
  operation refines an operation on plain lists of bytes and does not touch other buffers.
\<close>

section \<open>Memory\<close>

text \<open>
  An allocation is named by a number. \<open>bw_size\<close> is the size of a live one, \<open>bw_bytes\<close> its bytes; fresh
  memory has whatever bytes are there. The pool is the thread local, \<open>bw_registered\<close> what the I/O worker
  was told about fixed buffers.
\<close>

record fixed_buffer =
  fb_len :: "32 word"
  fb_cap :: "32 word"
  fb_index :: "16 word"
  fb_ptr :: nat

record byte_vec =
  bv_ptr :: nat
  bv_len :: nat
  bv_cap :: nat

datatype linux_buffer = Fixed fixed_buffer | NonFixed byte_vec

type_synonym buffer = linux_buffer

record buf_pool =
  bp_pool_of_fixed_buffers :: "buffer list"
  bp_fixed_buffers :: "(nat \<times> nat) list"
  bp_default_buffer_cap :: "32 word"
  bp_pool_of_non_fixed_buffers :: "buffer list"

record buf_world =
  bw_size :: "nat \<Rightarrow> nat option"
  bw_bytes :: "nat \<Rightarrow> nat \<Rightarrow> 8 word"
  bw_next :: nat
  bw_pool :: "buf_pool option"
  bw_registered :: "(nat \<times> nat) list option"

definition mem_alloc :: "nat \<Rightarrow> buf_world \<Rightarrow> nat \<times> buf_world" where
  "mem_alloc n w = (bw_next w, w\<lparr>bw_size := (bw_size w)(bw_next w \<mapsto> n), bw_next := bw_next w + 1\<rparr>)"

definition mem_free :: "nat \<Rightarrow> buf_world \<Rightarrow> buf_world res" where
  "mem_free p w = (if bw_size w p = None then Inl Undefined else Inr (w\<lparr>bw_size := (bw_size w)(p := None)\<rparr>))"

definition in_bounds :: "nat \<Rightarrow> nat \<Rightarrow> buf_world \<Rightarrow> bool" where
  "in_bounds p n w = (case bw_size w p of None \<Rightarrow> False | Some sz \<Rightarrow> n \<le> sz)"

definition mem_read :: "nat \<Rightarrow> nat \<Rightarrow> nat \<Rightarrow> buf_world \<Rightarrow> (8 word list) res" where
  "mem_read p off n w =
     (if in_bounds p (off + n) w then Inr (map (bw_bytes w p) [off..<off + n]) else Inl Undefined)"

definition mem_write :: "nat \<Rightarrow> nat \<Rightarrow> 8 word list \<Rightarrow> buf_world \<Rightarrow> buf_world res" where
  "mem_write p off bs w =
     (if in_bounds p (off + length bs) w
      then Inr (w\<lparr>bw_bytes := (bw_bytes w)(p := \<lambda>i. if off \<le> i \<and> i < off + length bs then bs ! (i - off) else bw_bytes w p i)\<rparr>)
      else Inl Undefined)"

text \<open>\<open>+\<close> and \<open>-\<close> on \<open>u32\<close>.\<close>

definition u32_add :: "bool \<Rightarrow> 32 word \<Rightarrow> 32 word \<Rightarrow> 32 word res" where
  "u32_add dbg a b = (if dbg \<and> unat a + unat b \<ge> 2 ^ 32 then Inl Overflow else Inr (a + b))"

definition u32_sub :: "bool \<Rightarrow> 32 word \<Rightarrow> 32 word \<Rightarrow> 32 word res" where
  "u32_sub dbg a b = (if dbg \<and> a < b then Inl Overflow else Inr (a - b))"

section \<open>LinuxBuffer\<close>

definition linux_buffer_new_fixed :: "nat \<Rightarrow> 32 word \<Rightarrow> 16 word \<Rightarrow> linux_buffer" where
  "linux_buffer_new_fixed p cap index = Fixed \<lparr>fb_len = 0, fb_cap = cap, fb_index = index, fb_ptr = p\<rparr>"

text \<open>Allocating with a layout of size zero is undefined behaviour.\<close>

definition linux_buffer_new_non_fixed :: "bool \<Rightarrow> 32 word \<Rightarrow> buf_world \<Rightarrow> (linux_buffer \<times> buf_world) res" where
  "linux_buffer_new_non_fixed dbg sz w =
     (if sz = 0 then Inl (if dbg then DebugAssert else Undefined)
      else case mem_alloc (unat sz) w of
        (p, w') \<Rightarrow> Inr (NonFixed \<lparr>bv_ptr = p, bv_len = 0, bv_cap = unat sz\<rparr>, w'))"

definition linux_buffer_len :: "linux_buffer \<Rightarrow> 32 word" where
  "linux_buffer_len b = (case b of Fixed f \<Rightarrow> fb_len f | NonFixed v \<Rightarrow> of_nat (bv_len v))"

definition linux_buffer_set_len :: "32 word \<Rightarrow> linux_buffer \<Rightarrow> linux_buffer" where
  "linux_buffer_set_len n b =
     (case b of Fixed f \<Rightarrow> Fixed (f\<lparr>fb_len := n\<rparr>) | NonFixed v \<Rightarrow> NonFixed (v\<lparr>bv_len := unat n\<rparr>))"

definition linux_buffer_capacity :: "linux_buffer \<Rightarrow> 32 word" where
  "linux_buffer_capacity b = (case b of Fixed f \<Rightarrow> fb_cap f | NonFixed v \<Rightarrow> of_nat (bv_cap v))"

definition linux_buffer_as_ptr :: "linux_buffer \<Rightarrow> nat" where
  "linux_buffer_as_ptr b = (case b of Fixed f \<Rightarrow> fb_ptr f | NonFixed v \<Rightarrow> bv_ptr v)"

definition linux_buffer_as_ref :: "linux_buffer \<Rightarrow> buf_world \<Rightarrow> (8 word list) res" where
  "linux_buffer_as_ref b w =
     (case b of Fixed f \<Rightarrow> mem_read (fb_ptr f) 0 (unat (fb_len f)) w | NonFixed v \<Rightarrow> mem_read (bv_ptr v) 0 (bv_len v) w)"

section \<open>Buffer and its pool\<close>

definition buffer_new :: "bool \<Rightarrow> 32 word \<Rightarrow> buf_world \<Rightarrow> (buffer \<times> buf_world) res" where
  "buffer_new dbg sz w = linux_buffer_new_non_fixed dbg sz w"

definition buffer_new_fixed :: "nat \<Rightarrow> 32 word \<Rightarrow> 16 word \<Rightarrow> buffer" where
  "buffer_new_fixed p cap index = linux_buffer_new_fixed p cap index"

definition buffer_new_from_pool :: "bool \<Rightarrow> buf_pool \<Rightarrow> buf_world \<Rightarrow> (buffer \<times> buf_world) res" where
  "buffer_new_from_pool dbg p w = buffer_new dbg (bp_default_buffer_cap p) w"

definition len_u32 :: "buffer \<Rightarrow> 32 word" where
  "len_u32 b = linux_buffer_len b"

definition buffer_capacity :: "buffer \<Rightarrow> 32 word" where
  "buffer_capacity b = linux_buffer_capacity b"

definition is_fixed :: "buffer \<Rightarrow> bool" where
  "is_fixed b = (case b of Fixed _ \<Rightarrow> True | NonFixed _ \<Rightarrow> False)"

definition fixed_index :: "buffer \<Rightarrow> 16 word" where
  "fixed_index b = (case b of Fixed f \<Rightarrow> fb_index f | NonFixed _ \<Rightarrow> - 1)"

definition buffer_is_empty :: "buffer \<Rightarrow> bool" where
  "buffer_is_empty b = (len_u32 b = 0)"

definition buffer_is_full :: "buffer \<Rightarrow> bool" where
  "buffer_is_full b = (buffer_capacity b = len_u32 b)"

definition set_len_unchecked :: "32 word \<Rightarrow> buffer \<Rightarrow> buffer" where
  "set_len_unchecked n b = linux_buffer_set_len n b"

text \<open>The \<open>Err\<close> of \<open>set_len\<close> is \<open>None\<close>.\<close>

definition buffer_set_len :: "32 word \<Rightarrow> buffer \<Rightarrow> buffer option" where
  "buffer_set_len n b = (if n \<le> buffer_capacity b then Some (set_len_unchecked n b) else None)"

definition buffer_add_len :: "bool \<Rightarrow> 32 word \<Rightarrow> buffer \<Rightarrow> buffer res" where
  "buffer_add_len dbg diff b = bindR (u32_add dbg (len_u32 b) diff) (\<lambda>n. Inr (set_len_unchecked n b))"

definition set_len_to_capacity :: "buffer \<Rightarrow> buffer" where
  "set_len_to_capacity b = linux_buffer_set_len (buffer_capacity b) b"

definition buffer_clear :: "buffer \<Rightarrow> buffer" where
  "buffer_clear b = set_len_unchecked 0 b"

definition fill_with_zeros :: "buffer \<Rightarrow> buf_world \<Rightarrow> buf_world res" where
  "fill_with_zeros b w = mem_write (linux_buffer_as_ptr b) 0 (replicate (unat (buffer_capacity b)) 0) w"

text \<open>A fixed buffer only refers to memory of the pool.\<close>

definition buffer_deallocate :: "buffer \<Rightarrow> buf_world \<Rightarrow> buf_world res" where
  "buffer_deallocate b w = (case b of Fixed _ \<Rightarrow> Inr w | NonFixed v \<Rightarrow> mem_free (bv_ptr v) w)"

text \<open>\<open>buf_pool()\<close>.\<close>

definition with_pool :: "bool \<Rightarrow> buf_world \<Rightarrow> (buf_pool \<Rightarrow> 'a res) \<Rightarrow> 'a res" where
  "with_pool dbg w f = (case bw_pool w of None \<Rightarrow> Inl (if dbg then DebugAssert else Undefined) | Some p \<Rightarrow> f p)"

definition get_buffer_with_any_len :: "bool \<Rightarrow> buf_world \<Rightarrow> (buffer \<times> buf_world) res" where
  "get_buffer_with_any_len dbg w =
     with_pool dbg w (\<lambda>p.
       case pop_back (bp_pool_of_fixed_buffers p) of
         (Some fixed_buf, rest) \<Rightarrow> Inr (fixed_buf, w\<lparr>bw_pool := Some (p\<lparr>bp_pool_of_fixed_buffers := rest\<rparr>)\<rparr>)
       | (None, _) \<Rightarrow>
           (case pop_back (bp_pool_of_non_fixed_buffers p) of
              (Some buf, rest) \<Rightarrow> Inr (buf, w\<lparr>bw_pool := Some (p\<lparr>bp_pool_of_non_fixed_buffers := rest\<rparr>)\<rparr>)
            | (None, _) \<Rightarrow> buffer_new_from_pool dbg p w))"

definition buf_pool_get_full :: "bool \<Rightarrow> buf_world \<Rightarrow> (buffer \<times> buf_world) res" where
  "buf_pool_get_full dbg w =
     bindR (get_buffer_with_any_len dbg w) (\<lambda>(b, w'). Inr (set_len_to_capacity b, w'))"

definition buf_pool_get :: "bool \<Rightarrow> buf_world \<Rightarrow> (buffer \<times> buf_world) res" where
  "buf_pool_get dbg w = bindR (get_buffer_with_any_len dbg w) (\<lambda>(b, w'). Inr (buffer_clear b, w'))"

definition buf_pool_put :: "bool \<Rightarrow> buffer \<Rightarrow> buf_world \<Rightarrow> buf_world res" where
  "buf_pool_put dbg b w =
     with_pool dbg w (\<lambda>p.
       if is_fixed b then
         Inr (w\<lparr>bw_pool := Some (p\<lparr>bp_pool_of_fixed_buffers := bp_pool_of_fixed_buffers p @ [b]\<rparr>)\<rparr>)
       else if buffer_capacity b = bp_default_buffer_cap p then
         Inr (w\<lparr>bw_pool := Some (p\<lparr>bp_pool_of_non_fixed_buffers := bp_pool_of_non_fixed_buffers p @ [b]\<rparr>)\<rparr>)
       else buffer_deallocate b w)"

definition buffer_from_vec :: "byte_vec \<Rightarrow> buffer" where
  "buffer_from_vec v = NonFixed v"

text \<open>Fixed buffers are zeroed; the indices are \<open>u16\<close> as their number is.\<close>

fun alloc_fixed :: "nat \<Rightarrow> 32 word \<Rightarrow> buf_world \<Rightarrow> (nat \<times> nat) list \<times> buf_world" where
  "alloc_fixed 0 cap w = ([], w)"
| "alloc_fixed (Suc n) cap w =
     (case mem_alloc (unat cap) w of
        (p, w1) \<Rightarrow>
          (case alloc_fixed n cap (w1\<lparr>bw_bytes := (bw_bytes w1)(p := \<lambda>_. 0)\<rparr>) of
             (ps, w2) \<Rightarrow> ((p, unat cap) # ps, w2)))"

definition buf_pool_new :: "16 word \<Rightarrow> 32 word \<Rightarrow> buf_world \<Rightarrow> buf_pool \<times> buf_world" where
  "buf_pool_new number_of_fixed_buffers cap w =
     (if number_of_fixed_buffers = 0 then
        (\<lparr>bp_pool_of_fixed_buffers = [], bp_fixed_buffers = [], bp_default_buffer_cap = cap,
          bp_pool_of_non_fixed_buffers = []\<rparr>, w)
      else case alloc_fixed (unat number_of_fixed_buffers) cap w of
        (iovecs, w') \<Rightarrow>
          (\<lparr>bp_pool_of_fixed_buffers =
              map (\<lambda>(i, p, _). buffer_new_fixed p cap (of_nat i)) (zip [0..<length iovecs] iovecs),
            bp_fixed_buffers = iovecs, bp_default_buffer_cap = cap, bp_pool_of_non_fixed_buffers = []\<rparr>,
           w'\<lparr>bw_registered := Some iovecs\<rparr>))"

definition init_local_buf_pool :: "16 word \<Rightarrow> 32 word \<Rightarrow> buf_world \<Rightarrow> buf_world res" where
  "init_local_buf_pool n cap w =
     (if bw_pool w \<noteq> None then Inl Asserted
      else case buf_pool_new n cap w of (p, w') \<Rightarrow> Inr (w'\<lparr>bw_pool := Some p\<rparr>))"

fun deallocate_all :: "buffer list \<Rightarrow> buf_world \<Rightarrow> buf_world res" where
  "deallocate_all [] w = Inr w"
| "deallocate_all (b # bs) w = bindR (buffer_deallocate b w) (deallocate_all bs)"

fun free_all :: "(nat \<times> nat) list \<Rightarrow> buf_world \<Rightarrow> buf_world res" where
  "free_all [] w = Inr w"
| "free_all ((p, _) # ps) w = bindR (mem_free p w) (free_all ps)"

definition deallocate_buffers :: "buf_pool \<Rightarrow> buf_world \<Rightarrow> buf_world res" where
  "deallocate_buffers p w =
     bindR (deallocate_all (bp_pool_of_non_fixed_buffers p) w) (\<lambda>w1.
       if bp_pool_of_fixed_buffers p = [] then Inr w1
       else bindR (deallocate_all (bp_pool_of_fixed_buffers p) w1) (\<lambda>w2.
         free_all (bp_fixed_buffers p) (w2\<lparr>bw_registered := None\<rparr>)))"

definition uninit_local_buf_pool :: "buf_world \<Rightarrow> buf_world res" where
  "uninit_local_buf_pool w =
     (case bw_pool w of None \<Rightarrow> Inl Asserted | Some p \<Rightarrow> deallocate_buffers p (w\<lparr>bw_pool := None\<rparr>))"

section \<open>Resizing and appending\<close>

definition buffer_resize :: "bool \<Rightarrow> 32 word \<Rightarrow> buffer \<Rightarrow> buf_world \<Rightarrow> (buffer \<times> buf_world) res" where
  "buffer_resize dbg new_size b w =
     (if new_size < len_u32 b then Inr (set_len_unchecked new_size b, w)
      else with_pool dbg w (\<lambda>p.
        bindR (if bp_default_buffer_cap p = new_size then buf_pool_get dbg w else buffer_new dbg new_size w) (\<lambda>(nb, w1).
          let new_buf = set_len_unchecked (len_u32 b) nb in
          bindR (mem_read (linux_buffer_as_ptr b) 0 (unat (len_u32 b)) w1) (\<lambda>bs.
          bindR (mem_write (linux_buffer_as_ptr new_buf) 0 bs w1) (\<lambda>w2.
          bindR (buf_pool_put dbg b w2) (\<lambda>w3. Inr (new_buf, w3)))))))"

definition buffer_append :: "bool \<Rightarrow> 8 word list \<Rightarrow> buffer \<Rightarrow> buf_world \<Rightarrow> (buffer \<times> buf_world) res" where
  "buffer_append dbg bs b w =
     (let diff_len = of_nat (length bs) in
      bindR (u32_sub dbg (buffer_capacity b) (len_u32 b)) (\<lambda>free.
      bindR (if diff_len > free
             then bindR (u32_add dbg (len_u32 b) diff_len) (\<lambda>n. buffer_resize dbg n b w)
             else Inr (b, w)) (\<lambda>(b1, w1).
      bindR (mem_write (linux_buffer_as_ptr b1) (unat (len_u32 b1)) bs w1) (\<lambda>w2.
      bindR (buffer_add_len dbg diff_len b1) (\<lambda>b2. Inr (b2, w2))))))"

section \<open>Slices\<close>

datatype bound = Included "32 word" | Excluded "32 word" | Unbounded

record buf_slice =
  sc_buf :: buffer
  sc_start :: "32 word"
  sc_end :: "32 word"

definition buffer_slice :: "bool \<Rightarrow> bound \<Rightarrow> bound \<Rightarrow> buffer \<Rightarrow> buf_slice res" where
  "buffer_slice dbg start_bound end_bound b =
     bindR (case start_bound of Included s \<Rightarrow> Inr s | Unbounded \<Rightarrow> Inr 0 | Excluded s \<Rightarrow> u32_add dbg s 1) (\<lambda>start.
     bindR (case end_bound of Included e \<Rightarrow> u32_add dbg e 1 | Excluded e \<Rightarrow> Inr e | Unbounded \<Rightarrow> Inr (len_u32 b)) (\<lambda>stop.
       Inr \<lparr>sc_buf = b, sc_start = start, sc_end = stop\<rparr>))"

definition slice_len_u32 :: "bool \<Rightarrow> buf_slice \<Rightarrow> 32 word res" where
  "slice_len_u32 dbg s = u32_sub dbg (sc_end s) (sc_start s)"

definition slice_deref :: "bool \<Rightarrow> buf_slice \<Rightarrow> buf_world \<Rightarrow> (8 word list) res" where
  "slice_deref dbg s w =
     bindR (slice_len_u32 dbg s) (\<lambda>n. mem_read (linux_buffer_as_ptr (sc_buf s)) (unat (sc_start s)) (unat n) w)"

section \<open>Well-formedness\<close>

text \<open>
  \<open>buf_inv cap held w\<close>: the pool has the default capacity \<open>cap\<close>, the buffers of the pool and the ones \<open>held\<close>
  outside have live memory of their own of exactly their capacity, the pool of fixed buffers has
  fixed ones, the other one has buffers of the default capacity.
\<close>

abbreviation ptr :: "buffer \<Rightarrow> nat" where
  "ptr \<equiv> linux_buffer_as_ptr"

definition buffer_wf :: "buf_world \<Rightarrow> buffer \<Rightarrow> bool" where
  "buffer_wf w b \<longleftrightarrow> bw_size w (ptr b) = Some (unat (buffer_capacity b)) \<and> len_u32 b \<le> buffer_capacity b \<and>
     ptr b < bw_next w \<and> (case b of Fixed _ \<Rightarrow> True | NonFixed v \<Rightarrow> bv_cap v < 2 ^ 32 \<and> bv_len v < 2 ^ 32)"

definition pool_inv :: "32 word \<Rightarrow> buf_pool \<Rightarrow> buffer list \<Rightarrow> buf_world \<Rightarrow> bool" where
  "pool_inv cap p held w \<longleftrightarrow>
     (let bs = bp_pool_of_fixed_buffers p @ bp_pool_of_non_fixed_buffers p @ held in
      bp_default_buffer_cap p = cap \<and> distinct (map ptr bs) \<and> (\<forall>b \<in> set bs. buffer_wf w b) \<and>
      (\<forall>b \<in> set bs. is_fixed b \<longrightarrow> buffer_capacity b = cap) \<and>
      (\<forall>b \<in> set (bp_pool_of_fixed_buffers p). is_fixed b) \<and>
      (\<forall>b \<in> set (bp_pool_of_non_fixed_buffers p). \<not> is_fixed b \<and> buffer_capacity b = cap))"

definition buf_inv :: "32 word \<Rightarrow> buffer list \<Rightarrow> buf_world \<Rightarrow> bool" where
  "buf_inv cap held w \<longleftrightarrow> cap \<noteq> 0 \<and> (\<forall>q \<ge> bw_next w. bw_size w q = None) \<and>
     (\<exists>p. bw_pool w = Some p \<and> pool_inv cap p held w)"

definition contents :: "buf_world \<Rightarrow> buffer \<Rightarrow> 8 word list" where
  "contents w b = map (bw_bytes w (ptr b)) [0..<unat (len_u32 b)]"

lemmas buffer_defs = len_u32_def buffer_capacity_def linux_buffer_len_def linux_buffer_capacity_def
  linux_buffer_as_ptr_def is_fixed_def

lemma length_contents [simp]: "length (contents w b) = unat (len_u32 b)"
  by (simp add: contents_def)

lemma set_len_simps [simp]:
  "len_u32 (set_len_unchecked n b) = n" "buffer_capacity (set_len_unchecked n b) = buffer_capacity b"
  "ptr (set_len_unchecked n b) = ptr b" "is_fixed (set_len_unchecked n b) = is_fixed b"
  by (cases b; simp add: buffer_defs set_len_unchecked_def linux_buffer_set_len_def)+

lemma buffer_wf_set_len: "buffer_wf w b \<Longrightarrow> n \<le> buffer_capacity b \<Longrightarrow> buffer_wf w (set_len_unchecked n b)"
  using unsigned_less[of n]
  by (cases b) (auto simp: buffer_wf_def set_len_unchecked_def linux_buffer_set_len_def buffer_defs)

lemma buf_inv_perm:
  assumes "mset held = mset held'"
  shows "buf_inv cap held w \<longleftrightarrow> buf_inv cap held' w"
proof -
  have "set held = set held'" using assms by (rule mset_eq_setD)
  moreover have "distinct (map ptr held) \<longleftrightarrow> distinct (map ptr held')"
    by (rule mset_eq_imp_distinct_iff) (simp add: assms)
  ultimately show ?thesis by (simp add: buf_inv_def pool_inv_def Let_def)
qed

lemma buf_inv_set_len:
  assumes "buf_inv cap (b # held) w" and "n \<le> buffer_capacity b"
  shows "buf_inv cap (set_len_unchecked n b # held) w"
  using assms buffer_wf_set_len[of w b n] by (auto simp: buf_inv_def pool_inv_def Let_def)

lemma buf_inv_wf: "buf_inv cap held w \<Longrightarrow> b \<in> set held \<Longrightarrow> buffer_wf w b"
  by (auto simp: buf_inv_def pool_inv_def Let_def)

lemma buf_inv_apart: "buf_inv cap (b # held) w \<Longrightarrow> c \<in> set held \<Longrightarrow> ptr c \<noteq> ptr b"
  by (auto simp: buf_inv_def pool_inv_def Let_def dest!: image_eqI[of "ptr b" ptr c, OF sym])

lemma buf_inv_write:
  assumes "buf_inv cap (b # held) w" and "off + length bs \<le> unat (buffer_capacity b)"
  shows "\<exists>w'. mem_write (ptr b) off bs w = Inr w' \<and> buf_inv cap (b # held) w' \<and>
    bw_bytes w' (ptr b) = (\<lambda>i. if off \<le> i \<and> i < off + length bs then bs ! (i - off) else bw_bytes w (ptr b) i) \<and>
    (\<forall>c \<in> set held. contents w' c = contents w c)"
proof -
  have "in_bounds (ptr b) (off + length bs) w"
    using buf_inv_wf[OF assms(1), of b] assms(2) by (simp add: in_bounds_def buffer_wf_def)
  moreover have "buf_inv cap (b # held) (w\<lparr>bw_bytes := f\<rparr>)" for f
    using assms(1) by (simp add: buf_inv_def pool_inv_def buffer_wf_def Let_def)
  ultimately show ?thesis using buf_inv_apart[OF assms(1)] by (auto simp: mem_write_def contents_def)
qed

lemma buf_inv_read:
  assumes "buf_inv cap held w" and "b \<in> set held"
  shows "mem_read (ptr b) 0 (unat (len_u32 b)) w = Inr (contents w b)"
  using buf_inv_wf[OF assms] by (simp add: mem_read_def in_bounds_def buffer_wf_def contents_def word_le_nat_alt)

lemma buffer_new_ok:
  assumes "buf_inv cap held w" and "sz \<noteq> 0"
  shows "\<exists>b w'. buffer_new dbg sz w = Inr (b, w') \<and> buf_inv cap (b # held) w' \<and> buffer_capacity b = sz \<and>
    len_u32 b = 0 \<and> bw_bytes w' = bw_bytes w \<and> bw_pool w' = bw_pool w"
proof -
  let ?b = "NonFixed \<lparr>bv_ptr = bw_next w, bv_len = 0, bv_cap = unat sz\<rparr>"
  let ?w = "w\<lparr>bw_size := (bw_size w)(bw_next w \<mapsto> unat sz), bw_next := bw_next w + 1\<rparr>"
  have b: "ptr ?b = bw_next w" "buffer_capacity ?b = sz" "len_u32 ?b = 0" "\<not> is_fixed ?b"
    by (simp_all add: buffer_defs)
  have wf: "buffer_wf ?w c \<and> ptr c \<noteq> bw_next w" if "buffer_wf w c" for c using that by (auto simp: buffer_wf_def)
  have wb: "buffer_wf ?w ?b" using unsigned_less[of sz] by (simp add: buffer_wf_def b)
  obtain p where p: "bw_pool w = Some p" "pool_inv cap p held w" "cap \<noteq> 0" "\<forall>q \<ge> bw_next w. bw_size w q = None"
    using assms(1) by (auto simp: buf_inv_def)
  let ?bs = "bp_pool_of_fixed_buffers p @ bp_pool_of_non_fixed_buffers p @ held"
  have bs: "\<forall>c \<in> set ?bs. buffer_wf w c" using p(2) by (simp add: pool_inv_def Let_def)
  then have "\<forall>c \<in> set ?bs. buffer_wf ?w c" using wf by blast
  moreover have "bw_next w \<notin> ptr ` set ?bs" using bs wf by (metis (no_types) imageE)
  ultimately have "pool_inv cap p (?b # held) ?w"
    using p(2) wb by (simp add: pool_inv_def Let_def ball_Un image_Un b)
  with p have "buf_inv cap (?b # held) ?w" by (auto simp: buf_inv_def)
  with b assms(2) show ?thesis by (simp add: buffer_new_def linux_buffer_new_non_fixed_def mem_alloc_def)
qed

lemma get_buffer_ok:
  assumes "buf_inv cap held w"
  shows "\<exists>b w'. get_buffer_with_any_len dbg w = Inr (b, w') \<and> buf_inv cap (b # held) w' \<and> buffer_capacity b = cap \<and>
    bw_bytes w' = bw_bytes w"
proof -
  obtain p where p: "bw_pool w = Some p" "pool_inv cap p held w" "cap \<noteq> 0" "\<forall>q \<ge> bw_next w. bw_size w q = None"
    using assms by (auto simp: buf_inv_def)
  have wf: "buffer_wf (w\<lparr>bw_pool := q\<rparr>) b = buffer_wf w b" for q b by (simp add: buffer_wf_def)
  consider (fixed) rest b where "bp_pool_of_fixed_buffers p = rest @ [b]"
    | (non_fixed) rest b where "bp_pool_of_fixed_buffers p = []" "bp_pool_of_non_fixed_buffers p = rest @ [b]"
    | (new) "bp_pool_of_fixed_buffers p = []" "bp_pool_of_non_fixed_buffers p = []"
    by (metis rev_exhaust)
  then show ?thesis
  proof cases
    case fixed
    then show ?thesis using p by (auto simp: get_buffer_with_any_len_def with_pool_def buf_inv_def pool_inv_def wf Let_def)
  next
    case non_fixed
    then show ?thesis using p by (auto simp: get_buffer_with_any_len_def with_pool_def buf_inv_def pool_inv_def wf Let_def)
  next
    case new
    with p buffer_new_ok[OF assms, of cap dbg] show ?thesis
      by (auto simp: get_buffer_with_any_len_def with_pool_def buffer_new_from_pool_def pool_inv_def Let_def)
  qed
qed

lemma buf_pool_put_ok:
  assumes "buf_inv cap (b # held) w"
  shows "\<exists>w'. buf_pool_put dbg b w = Inr w' \<and> buf_inv cap held w' \<and> bw_bytes w' = bw_bytes w"
proof -
  obtain p where p: "bw_pool w = Some p" "pool_inv cap p (b # held) w" "cap \<noteq> 0" "\<forall>q \<ge> bw_next w. bw_size w q = None"
    using assms by (auto simp: buf_inv_def)
  have wf: "buffer_wf (w\<lparr>bw_pool := q\<rparr>) c = buffer_wf w c" for q c by (simp add: buffer_wf_def)
  show ?thesis
  proof (cases "is_fixed b \<or> buffer_capacity b = cap")
    case True
    then show ?thesis
      using p by (auto simp: buf_pool_put_def with_pool_def buf_inv_def pool_inv_def wf Let_def)
  next
    case False
    then obtain v where v: "b = NonFixed v" by (cases b) (auto simp: is_fixed_def)
    let ?w = "w\<lparr>bw_size := (bw_size w)(bv_ptr v := None)\<rparr>"
    have "buffer_wf w b" using buf_inv_wf[OF assms] by simp
    then have "buf_pool_put dbg b w = Inr ?w"
      using False p v by (auto simp: buf_pool_put_def with_pool_def buffer_deallocate_def mem_free_def pool_inv_def
          Let_def buffer_wf_def linux_buffer_as_ptr_def)
    moreover have wf': "buffer_wf ?w c" if "buffer_wf w c" "ptr c \<noteq> ptr b" for c
      using that v by (simp add: buffer_wf_def linux_buffer_as_ptr_def)
    let ?bs = "bp_pool_of_fixed_buffers p @ bp_pool_of_non_fixed_buffers p @ held"
    have "\<forall>c \<in> set ?bs. buffer_wf w c" "ptr b \<notin> ptr ` set ?bs" using p(2) by (auto simp: pool_inv_def Let_def)
    then have "\<forall>c \<in> set ?bs. buffer_wf ?w c" using wf' by (metis image_eqI)
    then have "pool_inv cap p held ?w" using p(2) by (simp add: pool_inv_def Let_def)
    with p have "buf_inv cap held ?w" by (auto simp: buf_inv_def)
    ultimately show ?thesis by simp
  qed
qed

section \<open>Resizing and appending are operations on the contents\<close>

lemma contents_cong: "bw_bytes w' = bw_bytes w \<Longrightarrow> contents w' b = contents w b"
  by (simp add: contents_def)

lemma contents_clear: "contents w (buffer_clear b) = []"
  by (simp add: contents_def buffer_clear_def)

lemma buf_pool_get_ok:
  assumes "buf_inv cap held w"
  shows "\<exists>b w'. buf_pool_get dbg w = Inr (b, w') \<and> buf_inv cap (b # held) w' \<and> buffer_capacity b = cap \<and>
    len_u32 b = 0 \<and> bw_bytes w' = bw_bytes w"
proof -
  from get_buffer_ok[OF assms] obtain b w' where g: "get_buffer_with_any_len dbg w = Inr (b, w')"
    "buf_inv cap (b # held) w'" "buffer_capacity b = cap" "bw_bytes w' = bw_bytes w" by blast
  with buf_inv_set_len[OF g(2), of 0] show ?thesis by (simp add: buf_pool_get_def buffer_clear_def)
qed

lemma buffer_resize_ok:
  assumes "buf_inv cap (b # held) w" and "n \<noteq> 0 \<or> len_u32 b \<noteq> 0"
  shows "\<exists>b' w'. buffer_resize dbg n b w = Inr (b', w') \<and> buf_inv cap (b' # held) w' \<and>
    contents w' b' = take (unat n) (contents w b) \<and>
    buffer_capacity b' = (if n < len_u32 b then buffer_capacity b else n) \<and>
    (\<forall>c \<in> set held. contents w' c = contents w c)"
proof (cases "n < len_u32 b")
  case True
  have "len_u32 b \<le> buffer_capacity b" using buf_inv_wf[OF assms(1)] by (simp add: buffer_wf_def)
  with True have "n \<le> buffer_capacity b" "min (unat (len_u32 b)) (unat n) = unat n"
    by (simp_all add: word_le_nat_alt word_less_nat_alt)
  with True buf_inv_set_len[OF assms(1)] show ?thesis by (simp add: buffer_resize_def contents_def take_map)
next
  case False
  have n: "n \<noteq> 0" using assms(2) False by (auto simp: word_gt_0)
  obtain p where p: "bw_pool w = Some p" "bp_default_buffer_cap p = cap"
    using assms(1) by (auto simp: buf_inv_def pool_inv_def Let_def)
  have "\<exists>nb w1. (if cap = n then buf_pool_get dbg w else buffer_new dbg n w) = Inr (nb, w1) \<and>
      buf_inv cap (nb # b # held) w1 \<and> buffer_capacity nb = n \<and> bw_bytes w1 = bw_bytes w"
    using buf_pool_get_ok[OF assms(1), of dbg] buffer_new_ok[OF assms(1) n, of dbg] by auto
  then obtain nb w1 where n1: "(if cap = n then buf_pool_get dbg w else buffer_new dbg n w) = Inr (nb, w1)"
    "buf_inv cap (nb # b # held) w1" "buffer_capacity nb = n" "bw_bytes w1 = bw_bytes w" by blast
  let ?nb = "set_len_unchecked (len_u32 b) nb"
  have i1: "buf_inv cap (?nb # b # held) w1" using False n1(3) by (intro buf_inv_set_len[OF n1(2)]) simp
  have r: "mem_read (ptr b) 0 (unat (len_u32 b)) w1 = Inr (contents w b)"
    using buf_inv_read[OF i1, of b] contents_cong[OF n1(4)] by simp
  have "0 + length (contents w b) \<le> unat (buffer_capacity ?nb)" using False n1(3) by (simp add: word_le_nat_alt word_less_nat_alt)
  from buf_inv_write[OF i1 this] obtain w2 where w2: "mem_write (ptr ?nb) 0 (contents w b) w1 = Inr w2"
    "buf_inv cap (?nb # b # held) w2"
    "bw_bytes w2 (ptr ?nb) = (\<lambda>i. if 0 \<le> i \<and> i < 0 + length (contents w b) then contents w b ! (i - 0)
       else bw_bytes w1 (ptr ?nb) i)"
    "\<forall>c \<in> set (b # held). contents w2 c = contents w1 c" by blast
  have "mset (?nb # b # held) = mset (b # ?nb # held)" by simp
  from buf_pool_put_ok[OF w2(2)[unfolded buf_inv_perm[OF this]]] obtain w3 where w3: "buf_pool_put dbg b w2 = Inr w3"
    "buf_inv cap (?nb # held) w3" "bw_bytes w3 = bw_bytes w2" by blast
  have "contents w3 ?nb = contents w b"
    unfolding contents_cong[OF w3(3)] contents_def[of w2] w2(3)
    by (intro nth_equalityI) (simp_all add: length_contents)
  moreover have "\<forall>c \<in> set held. contents w3 c = contents w c"
    using w2(4) contents_cong[OF n1(4)] contents_cong[OF w3(3)] by simp
  moreover have "length (contents w b) \<le> unat n" using False by (simp add: word_le_nat_alt word_less_nat_alt)
  ultimately show ?thesis using False p n1 r w2(1) w3 by (simp add: buffer_resize_def with_pool_def)
qed

lemma buffer_append_ok:
  assumes "buf_inv cap (b # held) w" and "unat (len_u32 b) + length bs < 2 ^ 32"
  shows "\<exists>b' w'. buffer_append dbg bs b w = Inr (b', w') \<and> buf_inv cap (b' # held) w' \<and>
    contents w' b' = contents w b @ bs \<and>
    unat (buffer_capacity b') = max (unat (buffer_capacity b)) (unat (len_u32 b) + length bs) \<and>
    (\<forall>c \<in> set held. contents w' c = contents w c)"
proof -
  define d :: "32 word" where "d = of_nat (length bs)"
  have d: "unat d = length bs" using assms(2) by (simp add: d_def unat_of_nat)
  have len: "len_u32 b \<le> buffer_capacity b" using buf_inv_wf[OF assms(1)] by (simp add: buffer_wf_def)
  have sum: "unat (len_u32 b + d) = unat (len_u32 b) + length bs" using assms(2) d by (simp add: unat_plus_if_size word_size)
  have free: "unat (buffer_capacity b - len_u32 b) = unat (buffer_capacity b) - unat (len_u32 b)"
    using len by (simp add: unat_sub)
  have "\<exists>b1 w1. (if d > buffer_capacity b - len_u32 b
        then bindR (u32_add dbg (len_u32 b) d) (\<lambda>n. buffer_resize dbg n b w) else Inr (b, w)) = Inr (b1, w1) \<and>
      buf_inv cap (b1 # held) w1 \<and> contents w1 b1 = contents w b \<and>
      unat (buffer_capacity b1) = max (unat (buffer_capacity b)) (unat (len_u32 b) + length bs) \<and>
      (\<forall>c \<in> set held. contents w1 c = contents w c)"
  proof (cases "d > buffer_capacity b - len_u32 b")
    case True
    then have g: "unat (buffer_capacity b) < unat (len_u32 b) + length bs" using free d by (simp add: word_less_nat_alt)
    then have "len_u32 b + d \<noteq> 0" "\<not> len_u32 b + d < len_u32 b" using sum by (auto simp: word_less_nat_alt)
    with buffer_resize_ok[OF assms(1), of "len_u32 b + d" dbg] True g sum assms(2) d show ?thesis
      by (auto simp: u32_add_def)
  next
    case False
    then have "unat (len_u32 b) + length bs \<le> unat (buffer_capacity b)"
      using free d len by (simp add: word_less_nat_alt word_le_nat_alt)
    with False assms(1) show ?thesis by simp
  qed
  then obtain b1 w1 where 1: "(if d > buffer_capacity b - len_u32 b
        then bindR (u32_add dbg (len_u32 b) d) (\<lambda>n. buffer_resize dbg n b w) else Inr (b, w)) = Inr (b1, w1)"
      "buf_inv cap (b1 # held) w1" "contents w1 b1 = contents w b"
      "unat (buffer_capacity b1) = max (unat (buffer_capacity b)) (unat (len_u32 b) + length bs)"
      "\<forall>c \<in> set held. contents w1 c = contents w c" by blast
  have l1: "len_u32 b1 = len_u32 b" using arg_cong[OF 1(3), of length] by (simp add: word_unat_eq_iff)
  have "unat (len_u32 b1) + length bs \<le> unat (buffer_capacity b1)" unfolding 1(4) l1 by simp
  from buf_inv_write[OF 1(2) this] obtain w2 where 2: "mem_write (ptr b1) (unat (len_u32 b1)) bs w1 = Inr w2"
    "buf_inv cap (b1 # held) w2"
    "bw_bytes w2 (ptr b1) = (\<lambda>i. if unat (len_u32 b1) \<le> i \<and> i < unat (len_u32 b1) + length bs
       then bs ! (i - unat (len_u32 b1)) else bw_bytes w1 (ptr b1) i)"
    "\<forall>c \<in> set held. contents w2 c = contents w1 c" by blast
  let ?b = "set_len_unchecked (len_u32 b + d) b1"
  have "len_u32 b + d \<le> buffer_capacity b1" using sum 1(4) by (simp add: word_le_nat_alt)
  note i = buf_inv_set_len[OF 2(2) this]
  have "contents w2 ?b = contents w1 b1 @ bs"
    by (intro nth_equalityI) (auto simp: contents_def 2(3) sum l1 nth_append)
  moreover have "u32_sub dbg (buffer_capacity b) (len_u32 b) = Inr (buffer_capacity b - len_u32 b)"
    "u32_add dbg (len_u32 b1) d = Inr (len_u32 b + d)"
    using len assms(2) d l1 by (auto simp: u32_sub_def u32_add_def)
  ultimately show ?thesis using 1 2 i by (simp add: buffer_append_def buffer_add_len_def d_def[symmetric] Let_def)
qed

section \<open>Histories\<close>

text \<open>
  A task takes buffers from the pool, works on those it holds, by their position, and releases them. A
  panic or an undefined access is reported as \<open>False\<close>.
\<close>

datatype buf_op =
    GetBuffer
  | Append nat "8 word list"
  | Resize nat "32 word"
  | SetLen nat "32 word"
  | FillZeros nat
  | Release nat

type_synonym holder = "buffer list \<times> buf_world"

definition report :: "holder \<Rightarrow> holder res \<Rightarrow> bool \<times> holder" where
  "report s r = (case r of Inl _ \<Rightarrow> (False, s) | Inr s' \<Rightarrow> (True, s'))"

fun buf_step :: "bool \<Rightarrow> buf_op \<Rightarrow> holder \<Rightarrow> bool \<times> holder" where
  "buf_step dbg GetBuffer (held, w) =
     report (held, w) (bindR (buf_pool_get dbg w) (\<lambda>(b, w'). Inr (b # held, w')))"
| "buf_step dbg (Append i bs) (held, w) =
     report (held, w) (bindR (buffer_append dbg bs (held ! i) w) (\<lambda>(b, w'). Inr (held[i := b], w')))"
| "buf_step dbg (Resize i n) (held, w) =
     report (held, w) (bindR (buffer_resize dbg n (held ! i) w) (\<lambda>(b, w'). Inr (held[i := b], w')))"
| "buf_step dbg (SetLen i n) (held, w) =
     (case buffer_set_len n (held ! i) of None \<Rightarrow> (False, held, w) | Some b \<Rightarrow> (True, held[i := b], w))"
| "buf_step dbg (FillZeros i) (held, w) =
     report (held, w) (bindR (fill_with_zeros (held ! i) w) (\<lambda>w'. Inr (held, w')))"
| "buf_step dbg (Release i) (held, w) =
     report (held, w) (bindR (buf_pool_put dbg (held ! i) w) (\<lambda>w'. Inr (take i held @ drop (Suc i) held, w')))"

text \<open>
  What the operations ask for: an existing buffer, sizes that fit \<open>u32\<close>, no resize of an empty buffer to zero, and no growth by \<open>set_len\<close>.
\<close>

fun buf_ok :: "buf_op \<Rightarrow> holder \<Rightarrow> bool" where
  "buf_ok GetBuffer (held, w) = True"
| "buf_ok (Append i bs) (held, w) = (i < length held \<and> unat (len_u32 (held ! i)) + length bs < 2 ^ 32)"
| "buf_ok (Resize i n) (held, w) = (i < length held \<and> (n \<noteq> 0 \<or> len_u32 (held ! i) \<noteq> 0))"
| "buf_ok (SetLen i n) (held, w) = (i < length held \<and> n \<le> len_u32 (held ! i))"
| "buf_ok (FillZeros i) (held, w) = (i < length held)"
| "buf_ok (Release i) (held, w) = (i < length held)"

text \<open>The specification: every buffer is a list of bytes and a capacity, on its own.\<close>

type_synonym plain_buffer = "8 word list \<times> nat"

fun buf_spec :: "32 word \<Rightarrow> buf_op \<Rightarrow> plain_buffer list \<Rightarrow> plain_buffer list" where
  "buf_spec cap GetBuffer ps = ([], unat cap) # ps"
| "buf_spec cap (Append i bs) ps = ps[i := (case ps ! i of (ds, c) \<Rightarrow> (ds @ bs, max c (length ds + length bs)))]"
| "buf_spec cap (Resize i n) ps =
     ps[i := (case ps ! i of (ds, c) \<Rightarrow> (take (unat n) ds, if unat n < length ds then c else unat n))]"
| "buf_spec cap (SetLen i n) ps = ps[i := (case ps ! i of (ds, c) \<Rightarrow> (take (unat n) ds, c))]"
| "buf_spec cap (FillZeros i) ps = ps[i := (case ps ! i of (ds, c) \<Rightarrow> (replicate (length ds) 0, c))]"
| "buf_spec cap (Release i) ps = take i ps @ drop (Suc i) ps"

definition plain :: "holder \<Rightarrow> plain_buffer list" where
  "plain s = (case s of (held, w) \<Rightarrow> map (\<lambda>b. (contents w b, unat (buffer_capacity b))) held)"

definition holder_inv :: "32 word \<Rightarrow> holder \<Rightarrow> bool" where
  "holder_inv cap s \<longleftrightarrow> (case s of (held, w) \<Rightarrow> buf_inv cap held w)"

abbreviation others :: "nat \<Rightarrow> 'a list \<Rightarrow> 'a list" where
  "others i xs \<equiv> take i xs @ drop (Suc i) xs"

lemma mset_focus: "i < length xs \<Longrightarrow> mset xs = mset (xs ! i # others i xs)"
  by (metis id_take_nth_drop mset.simps(2) mset_append union_mset_add_mset_right)

lemma mset_focus_update: "i < length xs \<Longrightarrow> mset (xs[i := x]) = mset (x # others i xs)"
  by (simp add: upd_conv_take_nth_drop)

lemma buf_inv_focus: "i < length held \<Longrightarrow> buf_inv cap held w \<longleftrightarrow> buf_inv cap (held ! i # others i held) w"
  by (rule buf_inv_perm[OF mset_focus])

lemma buf_inv_refocus: "i < length held \<Longrightarrow> buf_inv cap (held[i := b]) w \<longleftrightarrow> buf_inv cap (b # others i held) w"
  by (rule buf_inv_perm[OF mset_focus_update])

lemma nth_in_others: "j < length xs \<Longrightarrow> j \<noteq> i \<Longrightarrow> xs ! j \<in> set (others i xs)"
  by (cases "j < i") (force simp: in_set_conv_nth intro: exI[of _ j] exI[of _ "j - Suc i"])+

lemma plain_update:
  assumes "i < length held" and "\<forall>c \<in> set (others i held). contents w' c = contents w c"
  shows "plain (held[i := b], w') = (plain (held, w))[i := (contents w' b, unat (buffer_capacity b))]"
proof (intro nth_equalityI)
  fix j
  assume j: "j < length (plain (held[i := b], w'))"
  show "plain (held[i := b], w') ! j = (plain (held, w))[i := (contents w' b, unat (buffer_capacity b))] ! j"
  proof (cases "j = i")
    case False
    with j nth_in_others[of j held i] have "held ! j \<in> set (others i held)" by (simp add: plain_def)
    with assms(2) False j show ?thesis by (simp add: plain_def)
  qed (use assms(1) in \<open>simp add: plain_def\<close>)
qed (simp add: plain_def)

lemma plain_nth: "i < length held \<Longrightarrow> plain (held, w) ! i = (contents w (held ! i), unat (buffer_capacity (held ! i)))"
  by (simp add: plain_def)

lemma buf_step_focus:
  assumes "i < length held" and "buf_inv cap held w" and "r = Inr (b, w')" and "buf_inv cap (b # others i held) w'"
    and "\<forall>c \<in> set (others i held). contents w' c = contents w c"
    and "report (held, w) (bindR r (\<lambda>(b, w'). Inr (held[i := b], w'))) = (ok, s')"
  shows "ok \<and> holder_inv cap s' \<and> plain s' = (plain (held, w))[i := (contents w' b, unat (buffer_capacity b))]"
  using assms plain_update[OF assms(1,5), of b] buf_inv_refocus[OF assms(1), of cap b w']
  by (auto simp: report_def holder_inv_def)

lemma fill_with_zeros_ok:
  assumes "buf_inv cap (b # held) w"
  shows "\<exists>w'. fill_with_zeros b w = Inr w' \<and> buf_inv cap (b # held) w' \<and>
    contents w' b = replicate (unat (len_u32 b)) 0 \<and> (\<forall>c \<in> set held. contents w' c = contents w c)"
proof -
  let ?zs = "replicate (unat (buffer_capacity b)) 0 :: 8 word list"
  have "unat (len_u32 b) \<le> unat (buffer_capacity b)"
    using buf_inv_wf[OF assms, of b] by (simp add: buffer_wf_def word_le_nat_alt)
  moreover have "0 + length ?zs \<le> unat (buffer_capacity b)" by simp
  from buf_inv_write[OF assms this] obtain w' where "mem_write (ptr b) 0 ?zs w = Inr w'" "buf_inv cap (b # held) w'"
    "bw_bytes w' (ptr b) = (\<lambda>i. if 0 \<le> i \<and> i < 0 + length ?zs then ?zs ! (i - 0) else bw_bytes w (ptr b) i)"
    "\<forall>c \<in> set held. contents w' c = contents w c" by blast
  ultimately show ?thesis
    by (auto simp: fill_with_zeros_def contents_def intro!: nth_equalityI)
qed

lemma plain_others: "plain (others i held, w) = others i (plain (held, w))"
  by (simp add: plain_def take_map drop_map)

lemma buf_step_refines:
  assumes "holder_inv cap s" and "buf_ok p s" and "buf_step dbg p s = (ok, s')"
  shows "ok \<and> holder_inv cap s' \<and> plain s' = buf_spec cap p (plain s)"
proof -
  obtain held w where s: "s = (held, w)" by fastforce
  have inv: "buf_inv cap held w" using assms(1) by (simp add: holder_inv_def s)
  show ?thesis
  proof (cases p)
    case GetBuffer
    from buf_pool_get_ok[OF inv, of dbg] GetBuffer s assms(3) show ?thesis
      by (auto simp: report_def holder_inv_def plain_def contents_def)
  next
    case (Append i bs)
    then have i: "i < length held" "unat (len_u32 (held ! i)) + length bs < 2 ^ 32" using assms(2) s by auto
    from buffer_append_ok[OF inv[unfolded buf_inv_focus[OF i(1)]] i(2)] obtain b w' where
      a: "buffer_append dbg bs (held ! i) w = Inr (b, w')" "buf_inv cap (b # others i held) w'"
      "\<forall>c \<in> set (others i held). contents w' c = contents w c" "contents w' b = contents w (held ! i) @ bs"
      "unat (buffer_capacity b) = max (unat (buffer_capacity (held ! i))) (unat (len_u32 (held ! i)) + length bs)" by blast
    from buf_step_focus[OF i(1) inv a(1-3)] Append s assms(3) a(4,5) plain_nth[OF i(1)] show ?thesis by simp
  next
    case (Resize i n)
    then have i: "i < length held" "n \<noteq> 0 \<or> len_u32 (held ! i) \<noteq> 0" using assms(2) s by auto
    from buffer_resize_ok[OF inv[unfolded buf_inv_focus[OF i(1)]] i(2)] obtain b w' where
      a: "buffer_resize dbg n (held ! i) w = Inr (b, w')" "buf_inv cap (b # others i held) w'"
      "\<forall>c \<in> set (others i held). contents w' c = contents w c" "contents w' b = take (unat n) (contents w (held ! i))"
      "buffer_capacity b = (if n < len_u32 (held ! i) then buffer_capacity (held ! i) else n)" by blast
    from buf_step_focus[OF i(1) inv a(1-3)] Resize s assms(3) a(4,5) plain_nth[OF i(1)] show ?thesis
      by (simp add: word_less_nat_alt)
  next
    case (SetLen i n)
    then have i: "i < length held" "n \<le> len_u32 (held ! i)" using assms(2) s by auto
    have le: "len_u32 (held ! i) \<le> buffer_capacity (held ! i)"
      using buf_inv_wf[OF inv, of "held ! i"] i(1) by (simp add: buffer_wf_def)
    let ?b = "set_len_unchecked n (held ! i)"
    have "n \<le> buffer_capacity (held ! i)" using i(2) le by (rule order_trans)
    moreover have "contents w ?b = take (unat n) (contents w (held ! i))"
      using i(2) by (simp add: contents_def take_map word_le_nat_alt)
    ultimately show ?thesis
      using buf_inv_set_len[OF inv[unfolded buf_inv_focus[OF i(1)]], of n] SetLen s assms(3) plain_nth[OF i(1)]
        plain_update[OF i(1), of w w ?b] buf_inv_refocus[OF i(1)]
      by (auto simp: buffer_set_len_def holder_inv_def)
  next
    case (FillZeros i)
    then have i: "i < length held" using assms(2) s by auto
    from fill_with_zeros_ok[OF inv[unfolded buf_inv_focus[OF i]]] obtain w' where
      a: "fill_with_zeros (held ! i) w = Inr w'" "buf_inv cap (held ! i # others i held) w'"
      "contents w' (held ! i) = replicate (unat (len_u32 (held ! i))) 0"
      "\<forall>c \<in> set (others i held). contents w' c = contents w c" by blast
    from a(2) have "buf_inv cap held w'" by (simp only: buf_inv_focus[OF i])
    with plain_update[OF i a(4), of "held ! i"] a(1,3) FillZeros s assms(3) plain_nth[OF i] show ?thesis
      by (auto simp: report_def holder_inv_def)
  next
    case (Release i)
    then have i: "i < length held" using assms(2) s by auto
    from buf_pool_put_ok[OF inv[unfolded buf_inv_focus[OF i]]] obtain w' where
      a: "buf_pool_put dbg (held ! i) w = Inr w'" "buf_inv cap (others i held) w'" "bw_bytes w' = bw_bytes w" by blast
    have "plain (others i held, w') = plain (others i held, w)" using contents_cong[OF a(3)] by (simp add: plain_def)
    with a Release s assms(3) plain_others[of i held w] show ?thesis by (auto simp: report_def holder_inv_def)
  qed
qed

interpretation bufs: refinement "buf_step dbg" buf_ok "holder_inv cap" plain "buf_spec cap"
  by unfold_locales (use buf_step_refines in blast)+

section \<open>The initial pool\<close>

lemma alloc_fixed_ok:
  "alloc_fixed n cap w = (ps, w') \<Longrightarrow>
   map fst ps = [bw_next w..<bw_next w + n] \<and> bw_next w' = bw_next w + n \<and> bw_pool w' = bw_pool w \<and>
   (\<forall>q. bw_size w' q = (if bw_next w \<le> q \<and> q < bw_next w + n then Some (unat cap) else bw_size w q))"
proof (induction n arbitrary: w ps)
  case (Suc n)
  let ?w = "w\<lparr>bw_size := (bw_size w)(bw_next w \<mapsto> unat cap), bw_next := bw_next w + 1,
    bw_bytes := (bw_bytes w)(bw_next w := \<lambda>_. 0)\<rparr>"
  obtain ps' where r: "alloc_fixed n cap ?w = (ps', w')" "ps = (bw_next w, unat cap) # ps'"
    using Suc.prems by (auto simp: mem_alloc_def split: prod.splits)
  from Suc.IH[OF r(1)] r(2) show ?case by (auto simp: upt_conv_Cons simp del: upt_Suc)
qed auto

lemma init_local_buf_pool_returns: "bw_pool w = None \<Longrightarrow> \<exists>w'. init_local_buf_pool n cap w = Inr w'"
  by (simp add: init_local_buf_pool_def split: prod.split)

lemma init_local_buf_pool_ok:
  assumes "cap \<noteq> 0" and "bw_pool w = None" and "\<forall>q \<ge> bw_next w. bw_size w q = None"
    and "init_local_buf_pool n cap w = Inr w'"
  shows "buf_inv cap [] w'"
proof (cases "n = 0")
  case True
  with assms show ?thesis by (auto simp: init_local_buf_pool_def buf_pool_new_def buf_inv_def pool_inv_def)
next
  case False
  obtain ps w1 where a: "alloc_fixed (unat n) cap w = (ps, w1)" by fastforce
  let ?f = "\<lambda>(i, p, _). buffer_new_fixed p cap (of_nat i)"
  define bs where "bs = map ?f (zip [0..<length ps] ps)"
  have w': "w' = w1\<lparr>bw_registered := Some ps, bw_pool := Some \<lparr>bp_pool_of_fixed_buffers = bs, bp_fixed_buffers = ps,
      bp_default_buffer_cap = cap, bp_pool_of_non_fixed_buffers = []\<rparr>\<rparr>"
    using assms(2,4) False a by (simp add: init_local_buf_pool_def buf_pool_new_def bs_def)
  note al = alloc_fixed_ok[OF a]
  have "map ptr bs = map fst ps"
    unfolding bs_def by (intro nth_equalityI) (auto simp: buffer_new_fixed_def linux_buffer_new_fixed_def linux_buffer_as_ptr_def split: prod.splits)
  then have d: "map ptr bs = [bw_next w..<bw_next w + unat n]" using al by simp
  have f: "buffer_capacity b = cap \<and> len_u32 b = 0 \<and> is_fixed b" if "b \<in> set bs" for b
    using that by (auto simp: bs_def buffer_new_fixed_def linux_buffer_new_fixed_def buffer_defs)
  have "buffer_wf w' b" if "b \<in> set bs" for b
  proof -
    have "ptr b \<in> set (map ptr bs)" using that by simp
    with d have "bw_next w \<le> ptr b" "ptr b < bw_next w + unat n" by simp_all
    with al f[OF that] show ?thesis by (cases b) (auto simp: buffer_wf_def w' is_fixed_def)
  qed
  with f d al assms(1,3) show ?thesis by (auto simp: buf_inv_def pool_inv_def w')
qed

section \<open>Properties\<close>

text \<open>
  C6. Buffers refine lists of bytes: start with any memory, initialise a pool of a capacity that is not zero, and take empty buffers from it, append to them, resize them, shorten
  them by \<open>set_len\<close>, zero and release them in any order. The buffers addressed exist, an append keeps the length below \<open>2 ^ 32\<close>, \<open>set_len\<close> does
  not grow a buffer, and an empty buffer is not resized to zero; full buffers and slices are no part of the histories. Then nothing panics, no access
  is outside live memory, and although buffers share pooled memory, what every held buffer contains and
  its capacity are what the operations say on lists of bytes that know nothing of each other.
\<close>

theorem buffers_refine_bytes:
  assumes "cap \<noteq> 0" and "bw_pool w0 = None" and "\<forall>q \<ge> bw_next w0. bw_size w0 q = None"
    and "init_local_buf_pool n cap w0 = Inr w"
    and "oks buf_ok (buf_step dbg) ops ([], w)" and "run_ops (buf_step dbg) ops ([], w) = (os, held, w')"
  shows "list_all (\<lambda>ok. ok) os \<and> plain (held, w') = fold (buf_spec cap) ops [] \<and>
    map (\<lambda>b. linux_buffer_as_ref b w') held = map (\<lambda>ds. Inr (fst ds)) (fold (buf_spec cap) ops [])"
proof -
  have inv: "holder_inv cap ([], w)" using init_local_buf_pool_ok[OF assms(1-4)] by (simp add: holder_inv_def)
  have "list_all (\<lambda>ok. ok) os" by (rule bufs.run_reports[OF _ inv assms(5,6)]) (use buf_step_refines in blast)
  moreover have p: "plain (held, w') = fold (buf_spec cap) ops []"
    using bufs.run_refines[OF inv assms(5,6)] by (simp add: plain_def)
  have i: "buf_inv cap held w'" using bufs.run_inv[OF inv assms(5,6)] by (simp add: holder_inv_def)
  have "linux_buffer_as_ref b w' = Inr (contents w' b)" if "b \<in> set held" for b
    using buf_inv_read[OF i that] buf_inv_wf[OF i that]
    by (cases b) (auto simp: linux_buffer_as_ref_def buffer_defs buffer_wf_def unat_of_nat)
  then have "map (\<lambda>b. linux_buffer_as_ref b w') held = map (\<lambda>ds. Inr (fst ds)) (plain (held, w'))"
    by (simp add: plain_def)
  with p show ?thesis using calculation by simp
qed

definition demo_world :: buf_world where
  "demo_world = \<lparr>bw_size = (\<lambda>_. None), bw_bytes = (\<lambda>_ _. 170), bw_next = 0, bw_pool = None, bw_registered = None\<rparr>"

definition buf_demo :: "buf_op list" where
  "buf_demo = [GetBuffer, Append 0 [1, 2, 3], GetBuffer, Append 0 [7, 8, 9, 10, 11], Resize 1 4, SetLen 1 2]"

theorem buffers_refine_bytes_witness:
  "\<exists>w os held w'. init_local_buf_pool 1 4 demo_world = Inr w \<and> run_ops (buf_step True) buf_demo ([], w) = (os, held, w') \<and>
     list_all (\<lambda>ok. ok) os \<and> plain (held, w') = [([7, 8, 9, 10, 11], 5), ([1, 2], 4)]"
proof -
  obtain w where w: "init_local_buf_pool 1 4 demo_world = Inr w"
    using init_local_buf_pool_returns[of demo_world 1 4] by (auto simp: demo_world_def)
  obtain os held w' where r: "run_ops (buf_step True) buf_demo ([], w) = (os, held, w')" using prod_cases3 by blast
  have pre: "(4 :: 32 word) \<noteq> 0" "bw_pool demo_world = None" "\<forall>q \<ge> bw_next demo_world. bw_size demo_world q = None"
    by (simp_all add: demo_world_def)
  have ok: "oks buf_ok (buf_step True) buf_demo ([], w)"
    using w by (auto simp: init_local_buf_pool_def demo_world_def buf_pool_new_def mem_alloc_def buf_demo_def
        buf_pool_get_def get_buffer_with_any_len_def with_pool_def pop_back_def buffer_clear_def set_len_unchecked_def
        linux_buffer_set_len_def buffer_new_fixed_def linux_buffer_new_fixed_def report_def buffer_append_def Let_def
        u32_sub_def u32_add_def buffer_capacity_def linux_buffer_capacity_def len_u32_def linux_buffer_len_def
        mem_write_def in_bounds_def linux_buffer_as_ptr_def buffer_add_len_def buffer_new_from_pool_def buffer_new_def
        linux_buffer_new_non_fixed_def buffer_resize_def mem_read_def buf_pool_put_def is_fixed_def buffer_set_len_def
        buffer_deallocate_def)
  from buffers_refine_bytes[OF pre w ok r] w r show ?thesis by (auto simp: buf_demo_def)
qed

text \<open>
  Slices are not checked against their buffer: for a well-formed buffer, \<open>slice\<close> succeeds for every range, the
  slice reads the bytes of the range if it lies within the capacity, also beyond the length, and an access
  to a slice that ends behind the capacity is undefined behaviour, although no unsafe code was written.
\<close>

theorem slice_bounds_unchecked:
  assumes "buf_inv cap held w" and "b \<in> set held" and "start \<le> stop"
  shows "\<exists>s. buffer_slice dbg (Included start) (Excluded stop) b = Inr s \<and>
    slice_deref dbg s w = (if stop \<le> buffer_capacity b
      then Inr (map (bw_bytes w (ptr b)) [unat start..<unat stop]) else Inl Undefined)"
proof -
  have "unat start \<le> unat stop" using assms(3) by (simp add: word_le_nat_alt)
  then have "unat start + unat (stop - start) = unat stop" using assms(3) by (simp add: unat_sub)
  with buf_inv_wf[OF assms(1,2)] leD[OF assms(3)] show ?thesis
    by (auto simp: buffer_slice_def slice_deref_def slice_len_u32_def u32_sub_def mem_read_def in_bounds_def buffer_wf_def
        word_le_nat_alt)
qed

theorem slice_bounds_unchecked_witness:
  "\<exists>w b s. buf_inv 4 [b] w \<and> len_u32 b = 0 \<and> buffer_slice True (Included 0) (Excluded 5) b = Inr s \<and>
     slice_deref True s w = Inl Undefined"
proof -
  obtain w where w: "init_local_buf_pool 1 4 demo_world = Inr w"
    using init_local_buf_pool_returns[of demo_world 1 4] by (auto simp: demo_world_def)
  have "buf_inv 4 [] w"
    by (rule init_local_buf_pool_ok[OF _ _ _ w]) (simp_all add: demo_world_def)
  from buf_pool_get_ok[OF this, of True] obtain b w' where b: "buf_inv 4 [b] w'" "buffer_capacity b = 4" "len_u32 b = 0" by blast
  from slice_bounds_unchecked[OF b(1), of b 0 5 True] b show ?thesis by auto
qed

text \<open>
  Stopping an executor while a task still holds a fixed buffer: if other fixed buffers are in the pool, the memory
  of the held one is freed and its next access is undefined behaviour; if it was the only one, nothing is freed and
  the fixed buffers stay registered with the I/O worker.
\<close>

theorem uninit_pool_with_held_buffer:
  fixes cap :: "32 word"
  shows "(\<exists>w1 b w2 w3. init_local_buf_pool 2 cap demo_world = Inr w1 \<and> get_buffer_with_any_len dbg w1 = Inr (b, w2) \<and>
      uninit_local_buf_pool w2 = Inr w3 \<and> linux_buffer_as_ref b w2 = Inr [] \<and> linux_buffer_as_ref b w3 = Inl Undefined) \<and>
    (\<exists>w1 b w2 w3. init_local_buf_pool 1 cap demo_world = Inr w1 \<and> get_buffer_with_any_len dbg w1 = Inr (b, w2) \<and>
      uninit_local_buf_pool w2 = Inr w3 \<and> bw_size w3 (ptr b) = Some (unat cap) \<and> bw_registered w3 \<noteq> None)"
proof -
  have two: "unat (2 :: 16 word) = Suc (Suc 0)" "(2 :: 16 word) \<noteq> 0" "unat (1 :: 16 word) = Suc 0" by simp_all
  note defs = init_local_buf_pool_def demo_world_def buf_pool_new_def mem_alloc_def
    get_buffer_with_any_len_def with_pool_def pop_back_def buffer_new_fixed_def linux_buffer_new_fixed_def
    uninit_local_buf_pool_def deallocate_buffers_def buffer_deallocate_def mem_free_def linux_buffer_as_ref_def
    mem_read_def in_bounds_def linux_buffer_as_ptr_def
  show ?thesis
    unfolding init_local_buf_pool_def buf_pool_new_def two by (simp add: defs two)
qed

end
