(* ===== verification/Io_Calls.thy ===== *)
theory Io_Calls
  imports Io_Methods
begin

text \<open>
  What the two fallback workers share (\<open>src/src/io/sys/fallback\<close>): the calls of \<open>io_call.rs\<close>, with the variants of the
  feature \<open>fallback_thread_pool\<close>, and the poller of \<open>mio_poller.rs\<close>. The results of system calls and the events of a
  poll are arguments. A poll and a deregistration of the poller succeed: their errors, which the code unwraps,
  are left out.
\<close>

section \<open>Calls\<close>

datatype io_call =
    Socket int int int
  | Accept fd addr addr
  | AcceptWithDeadline fd addr addr deadline_ptr
  | Connect fd addr nat
  | ConnectWithDeadline fd addr nat deadline_ptr
  | PollRecv fd
  | PollRecvWithDeadline fd deadline_ptr
  | PollSend fd
  | PollSendWithDeadline fd deadline_ptr
  | Recv fd addr "32 word"
  | RecvWithDeadline fd addr "32 word" deadline_ptr
  | RecvFrom fd addr
  | RecvFromWithDeadline fd addr deadline_ptr
  | Send fd addr "32 word"
  | SendWithDeadline fd addr "32 word" deadline_ptr
  | SendTo fd addr
  | SendToWithDeadline fd addr deadline_ptr
  | Peek fd addr "32 word"
  | PeekWithDeadline fd addr "32 word" deadline_ptr
  | PeekFrom fd addr
  | PeekFromWithDeadline fd addr deadline_ptr
  | Shutdown fd shutdown
  | Open addr addr
  | Fallocate
  | FAllSync fd
  | FDataSync fd
  | Read fd addr "32 word"
  | PRead fd addr "32 word" "64 word"
  | Write fd addr "32 word"
  | PWrite fd addr "32 word" "64 word"
  | CloseFile fd
  | CloseSocket fd
  | Rename addr addr
  | CreateDir addr "32 word"
  | RemoveDir addr
  | RemoveFile addr

text \<open>The system calls of \<open>operations.rs\<close>, with their arguments.\<close>

datatype os_op =
    SocketOp int int int
  | AcceptOp fd addr addr
  | ConnectOp fd addr nat
  | RecvOp fd addr "32 word"
  | RecvFromOp fd addr
  | SendOp fd addr "32 word"
  | SendToOp fd addr
  | PeekOp fd addr "32 word"
  | PeekFromOp fd addr
  | ShutdownOp fd shutdown
  | OpenOp addr addr
  | FsyncOp fd
  | FsyncDataOp fd
  | ReadOp fd addr "32 word"
  | ReadAtOp fd "64 word" addr "32 word"
  | WriteOp fd addr "32 word"
  | WriteAtOp fd "64 word" addr "32 word"
  | CloseFileOp fd
  | CloseSocketOp fd
  | RenameOp addr addr
  | MkdirOp addr "32 word"
  | RmdirOp addr
  | UnlinkOp addr

type_synonym os_fun = "os_op \<Rightarrow> io_result"

text \<open>A call that only polls has nothing to do: \<open>unreachable!\<close>. Closing has no result.\<close>

fun do_io_work :: "os_fun \<Rightarrow> io_call \<Rightarrow> io_result res" where
  "do_io_work os (Socket d t p) = Inr (os (SocketOp d t p))"
| "do_io_work os (Accept s a l) = Inr (os (AcceptOp s a l))"
| "do_io_work os (AcceptWithDeadline s a l _) = Inr (os (AcceptOp s a l))"
| "do_io_work os (Connect s a l) = Inr (os (ConnectOp s a l))"
| "do_io_work os (ConnectWithDeadline s a l _) = Inr (os (ConnectOp s a l))"
| "do_io_work os (PollRecv _) = Inl Asserted"
| "do_io_work os (PollSend _) = Inl Asserted"
| "do_io_work os (PollRecvWithDeadline _ _) = Inl Asserted"
| "do_io_work os (PollSendWithDeadline _ _) = Inl Asserted"
| "do_io_work os (Recv s p n) = Inr (os (RecvOp s p n))"
| "do_io_work os (RecvWithDeadline s p n _) = Inr (os (RecvOp s p n))"
| "do_io_work os (RecvFrom s h) = Inr (os (RecvFromOp s h))"
| "do_io_work os (RecvFromWithDeadline s h _) = Inr (os (RecvFromOp s h))"
| "do_io_work os (Send s p n) = Inr (os (SendOp s p n))"
| "do_io_work os (SendWithDeadline s p n _) = Inr (os (SendOp s p n))"
| "do_io_work os (SendTo s h) = Inr (os (SendToOp s h))"
| "do_io_work os (SendToWithDeadline s h _) = Inr (os (SendToOp s h))"
| "do_io_work os (Peek s p n) = Inr (os (PeekOp s p n))"
| "do_io_work os (PeekWithDeadline s p n _) = Inr (os (PeekOp s p n))"
| "do_io_work os (PeekFrom s h) = Inr (os (PeekFromOp s h))"
| "do_io_work os (PeekFromWithDeadline s h _) = Inr (os (PeekFromOp s h))"
| "do_io_work os (Shutdown s how) = Inr (os (ShutdownOp s how))"
| "do_io_work os (Open path options) = Inr (os (OpenOp path options))"
| "do_io_work os Fallocate = Inr (Inr 0)"
| "do_io_work os (FAllSync file) = Inr (os (FsyncOp file))"
| "do_io_work os (FDataSync file) = Inr (os (FsyncDataOp file))"
| "do_io_work os (Read file p n) = Inr (os (ReadOp file p n))"
| "do_io_work os (PRead file p n offset) = Inr (os (ReadAtOp file offset p n))"
| "do_io_work os (Write file p n) = Inr (os (WriteOp file p n))"
| "do_io_work os (PWrite file p n offset) = Inr (os (WriteAtOp file offset p n))"
| "do_io_work os (CloseFile file) = (let _ = os (CloseFileOp file) in Inr (Inr 0))"
| "do_io_work os (CloseSocket socket) = (let _ = os (CloseSocketOp socket) in Inr (Inr 0))"
| "do_io_work os (Rename old_path new_path) = Inr (os (RenameOp old_path new_path))"
| "do_io_work os (CreateDir path mode) = Inr (os (MkdirOp path mode))"
| "do_io_work os (RemoveDir path) = Inr (os (RmdirOp path))"
| "do_io_work os (RemoveFile path) = Inr (os (UnlinkOp path))"

definition is_recv_pollable :: "io_call \<Rightarrow> bool" where
  "is_recv_pollable c = (case c of
     PollRecv _ \<Rightarrow> True | PollRecvWithDeadline _ _ \<Rightarrow> True | Accept _ _ _ \<Rightarrow> True | AcceptWithDeadline _ _ _ _ \<Rightarrow> True
   | Recv _ _ _ \<Rightarrow> True | RecvWithDeadline _ _ _ _ \<Rightarrow> True | RecvFrom _ _ \<Rightarrow> True | RecvFromWithDeadline _ _ _ \<Rightarrow> True
   | Peek _ _ _ \<Rightarrow> True | PeekWithDeadline _ _ _ _ \<Rightarrow> True | PeekFrom _ _ \<Rightarrow> True | PeekFromWithDeadline _ _ _ \<Rightarrow> True
   | _ \<Rightarrow> False)"

definition is_send_pollable :: "io_call \<Rightarrow> bool" where
  "is_send_pollable c = (case c of
     PollSend _ \<Rightarrow> True | PollSendWithDeadline _ _ \<Rightarrow> True | Send _ _ _ \<Rightarrow> True | SendWithDeadline _ _ _ _ \<Rightarrow> True
   | SendTo _ _ \<Rightarrow> True | SendToWithDeadline _ _ _ \<Rightarrow> True
   | _ \<Rightarrow> False)"

definition is_both_pollable :: "io_call \<Rightarrow> bool" where
  "is_both_pollable c = (case c of Connect _ _ _ \<Rightarrow> True | ConnectWithDeadline _ _ _ _ \<Rightarrow> True | _ \<Rightarrow> False)"

definition call_deadline :: "io_call \<Rightarrow> deadline_ptr option" where
  "call_deadline c = (case c of
     AcceptWithDeadline _ _ _ d \<Rightarrow> Some d | ConnectWithDeadline _ _ _ d \<Rightarrow> Some d | PollRecvWithDeadline _ d \<Rightarrow> Some d
   | PollSendWithDeadline _ d \<Rightarrow> Some d | RecvWithDeadline _ _ _ d \<Rightarrow> Some d | RecvFromWithDeadline _ _ d \<Rightarrow> Some d
   | SendWithDeadline _ _ _ d \<Rightarrow> Some d | SendToWithDeadline _ _ d \<Rightarrow> Some d | PeekWithDeadline _ _ _ d \<Rightarrow> Some d
   | PeekFromWithDeadline _ _ d \<Rightarrow> Some d | _ \<Rightarrow> None)"

fun raw_socket_of :: "io_call \<Rightarrow> fd option" where
  "raw_socket_of (Accept s _ _) = Some s" | "raw_socket_of (AcceptWithDeadline s _ _ _) = Some s"
| "raw_socket_of (Connect s _ _) = Some s" | "raw_socket_of (ConnectWithDeadline s _ _ _) = Some s"
| "raw_socket_of (PollRecv s) = Some s" | "raw_socket_of (PollRecvWithDeadline s _) = Some s"
| "raw_socket_of (PollSend s) = Some s" | "raw_socket_of (PollSendWithDeadline s _) = Some s"
| "raw_socket_of (Recv s _ _) = Some s" | "raw_socket_of (RecvWithDeadline s _ _ _) = Some s"
| "raw_socket_of (RecvFrom s _) = Some s" | "raw_socket_of (RecvFromWithDeadline s _ _) = Some s"
| "raw_socket_of (Send s _ _) = Some s" | "raw_socket_of (SendWithDeadline s _ _ _) = Some s"
| "raw_socket_of (SendTo s _) = Some s" | "raw_socket_of (SendToWithDeadline s _ _) = Some s"
| "raw_socket_of (Peek s _ _) = Some s" | "raw_socket_of (PeekWithDeadline s _ _ _) = Some s"
| "raw_socket_of (PeekFrom s _) = Some s" | "raw_socket_of (PeekFromWithDeadline s _ _) = Some s"
| "raw_socket_of _ = None"

text \<open>\<open>must_retry\<close> is not reached for a call that cannot be polled: \<open>unreachable!\<close>.\<close>

definition must_retry :: "io_call \<Rightarrow> bool res" where
  "must_retry c = (case c of
     Connect _ _ _ \<Rightarrow> Inr False | ConnectWithDeadline _ _ _ _ \<Rightarrow> Inr False
   | PollRecv _ \<Rightarrow> Inr False | PollRecvWithDeadline _ _ \<Rightarrow> Inr False
   | PollSend _ \<Rightarrow> Inr False | PollSendWithDeadline _ _ \<Rightarrow> Inr False
   | Accept _ _ _ \<Rightarrow> Inr True | AcceptWithDeadline _ _ _ _ \<Rightarrow> Inr True
   | Recv _ _ _ \<Rightarrow> Inr True | RecvWithDeadline _ _ _ _ \<Rightarrow> Inr True
   | RecvFrom _ _ \<Rightarrow> Inr True | RecvFromWithDeadline _ _ _ \<Rightarrow> Inr True
   | Send _ _ _ \<Rightarrow> Inr True | SendWithDeadline _ _ _ _ \<Rightarrow> Inr True
   | SendTo _ _ \<Rightarrow> Inr True | SendToWithDeadline _ _ _ \<Rightarrow> Inr True
   | Peek _ _ _ \<Rightarrow> Inr True | PeekWithDeadline _ _ _ _ \<Rightarrow> Inr True
   | PeekFrom _ _ \<Rightarrow> Inr True | PeekFromWithDeadline _ _ _ \<Rightarrow> Inr True
   | _ \<Rightarrow> Inl Asserted)"

text \<open>The calls that a poller can hold are those on a socket that can be polled; they say whether to retry.\<close>

definition call_pollable :: "io_call \<Rightarrow> bool" where
  "call_pollable c \<longleftrightarrow> is_recv_pollable c \<or> is_send_pollable c \<or> is_both_pollable c"

lemma call_pollable_socket: "call_pollable c \<longleftrightarrow> raw_socket_of c \<noteq> None"
  unfolding call_pollable_def is_recv_pollable_def is_send_pollable_def is_both_pollable_def by (cases c) simp_all

lemma call_pollable_retry: "call_pollable c \<longleftrightarrow> (\<exists>b. must_retry c = Inr b)"
  unfolding call_pollable_def is_recv_pollable_def is_send_pollable_def is_both_pollable_def must_retry_def
  by (cases c) auto

lemma call_deadline_pollable: "call_deadline c \<noteq> None \<Longrightarrow> call_pollable c"
  unfolding call_deadline_def call_pollable_def is_recv_pollable_def is_send_pollable_def is_both_pollable_def
  by (cases c) simp_all

section \<open>The poller\<close>

text \<open>
  A registered socket has a token, the slot of its request. Slots are reused. Registering a socket that is
  registered is an error of the poller, which the code unwraps.
\<close>

datatype interest = Readable | Writable | ReadWrite

record mio_poller =
  mp_registered_sockets :: "fd \<Rightarrow> (nat \<times> interest) option"
  mp_request_slots :: "nat list"
  mp_slots :: "nat \<Rightarrow> (io_call \<times> request_ptr) option"
  mp_next_slot :: nat

definition mio_poller_new :: mio_poller where
  "mio_poller_new = \<lparr>mp_registered_sockets = (\<lambda>_. None), mp_request_slots = [], mp_slots = (\<lambda>_. None), mp_next_slot = 0\<rparr>"

definition write_request_and_get_ptr :: "io_call \<times> request_ptr \<Rightarrow> mio_poller \<Rightarrow> nat \<times> mio_poller" where
  "write_request_and_get_ptr request p =
     (case pop_back (mp_request_slots p) of
        (Some slot, rest) \<Rightarrow> (slot, p\<lparr>mp_request_slots := rest, mp_slots := (mp_slots p)(slot \<mapsto> request)\<rparr>)
      | (None, _) \<Rightarrow>
          (mp_next_slot p, p\<lparr>mp_next_slot := mp_next_slot p + 1, mp_slots := (mp_slots p)(mp_next_slot p \<mapsto> request)\<rparr>))"

definition release_request_slot :: "nat \<Rightarrow> mio_poller \<Rightarrow> ((io_call \<times> request_ptr) \<times> mio_poller) res" where
  "release_request_slot slot p =
     (case mp_slots p slot of
        None \<Rightarrow> Inl Undefined
      | Some request \<Rightarrow> Inr (request, p\<lparr>mp_request_slots := mp_request_slots p @ [slot]\<rparr>))"

definition unwrap_socket :: "io_call \<Rightarrow> fd res" where
  "unwrap_socket c = (case raw_socket_of c of Some s \<Rightarrow> Inr s | None \<Rightarrow> Inl Asserted)"

definition poller_register :: "interest \<Rightarrow> io_call \<times> request_ptr \<Rightarrow> mio_poller \<Rightarrow> (nat \<times> mio_poller) res" where
  "poller_register i request p =
     bindR (unwrap_socket (fst request)) (\<lambda>raw_socket.
       case write_request_and_get_ptr request p of
         (slot, p') \<Rightarrow>
           if mp_registered_sockets p' raw_socket \<noteq> None then Inl Asserted
           else Inr (slot, p'\<lparr>mp_registered_sockets := (mp_registered_sockets p')(raw_socket \<mapsto> (slot, i))\<rparr>))"

definition poller_deregister_socket :: "fd \<Rightarrow> mio_poller \<Rightarrow> mio_poller res" where
  "poller_deregister_socket raw_socket p =
     (if mp_registered_sockets p raw_socket = None then Inl Asserted
      else Inr (p\<lparr>mp_registered_sockets := (mp_registered_sockets p)(raw_socket := None)\<rparr>))"

definition poller_deregister :: "fd \<Rightarrow> nat \<Rightarrow> mio_poller \<Rightarrow> mio_poller res" where
  "poller_deregister raw_socket slot p =
     bindR (release_request_slot slot p) (\<lambda>(_, p'). poller_deregister_socket raw_socket p')"

record poll_event =
  pe_token :: nat
  pe_is_error :: bool
  pe_is_readable :: bool
  pe_is_writable :: bool

fun poller_poll :: "poll_event list \<Rightarrow> mio_poller \<Rightarrow> ((bool \<times> io_call \<times> request_ptr) list \<times> mio_poller) res" where
  "poller_poll [] p = Inr ([], p)"
| "poller_poll (e # es) p =
     bindR (release_request_slot (pe_token e) p) (\<lambda>((c, ptr), p1).
     bindR (unwrap_socket c) (\<lambda>raw_socket.
     bindR (poller_deregister_socket raw_socket p1) (\<lambda>p2.
     bindR (poller_poll es p2) (\<lambda>(requests, p3).
       Inr ((\<not> (pe_is_error e \<or> \<not> pe_is_readable e \<and> \<not> pe_is_writable e), c, ptr) # requests, p3)))))"

section \<open>The sockets of the poller\<close>

abbreviation poller_sockets :: "mio_poller \<Rightarrow> fd set" where
  "poller_sockets p \<equiv> dom (mp_registered_sockets p)"

lemma unwrap_socket_Inr [simp]: "unwrap_socket c = Inr s \<longleftrightarrow> raw_socket_of c = Some s"
  by (auto simp: unwrap_socket_def split: option.splits)

lemma unwrap_socket_Some [simp]: "raw_socket_of c = Some s \<Longrightarrow> unwrap_socket c = Inr s"
  by simp

lemma poller_register_sockets:
  assumes "poller_register i request p = Inr (slot, p')"
  shows "\<exists>s. raw_socket_of (fst request) = Some s \<and> s \<notin> poller_sockets p \<and> poller_sockets p' = insert s (poller_sockets p)"
  using assms
  by (auto simp: poller_register_def bindR_Inr_conv write_request_and_get_ptr_def split: prod.splits option.splits if_splits)

lemma poller_deregister_sockets:
  assumes "poller_deregister_socket s p = Inr p'"
  shows "s \<in> poller_sockets p \<and> poller_sockets p' = poller_sockets p - {s}"
  using assms by (auto simp: poller_deregister_socket_def split: if_splits)

lemma release_sockets:
  "release_request_slot slot p = Inr (r, p') \<Longrightarrow> mp_registered_sockets p' = mp_registered_sockets p"
  by (auto simp: release_request_slot_def split: option.splits)

lemma poller_deregister_both:
  assumes "poller_deregister s slot p = Inr p'"
  shows "s \<in> poller_sockets p \<and> poller_sockets p' = poller_sockets p - {s}"
proof -
  from assms obtain r p0 where "release_request_slot slot p = Inr (r, p0)" "poller_deregister_socket s p0 = Inr p'"
    by (auto simp: poller_deregister_def bindR_Inr_conv)
  with release_sockets poller_deregister_sockets show ?thesis by metis
qed

definition event_ready :: "poll_event \<Rightarrow> bool" where
  "event_ready e \<longleftrightarrow> \<not> pe_is_error e \<and> (pe_is_readable e \<or> pe_is_writable e)"

lemma poller_poll_sockets:
  "finite (poller_sockets p) \<Longrightarrow> poller_poll events p = Inr (requests, p') \<Longrightarrow>
   finite (poller_sockets p') \<and> length requests = length events \<and>
   card (poller_sockets p) = card (poller_sockets p') + length requests \<and>
   (list_all event_ready events \<longrightarrow> list_all fst requests)"
proof (induction events arbitrary: p requests)
  case (Cons e es)
  from Cons.prems(2) obtain c ptr p1 s p2 rs where
    st: "release_request_slot (pe_token e) p = Inr ((c, ptr), p1)" "poller_deregister_socket s p1 = Inr p2"
      "poller_poll es p2 = Inr (rs, p')"
    and r: "requests = (\<not> (pe_is_error e \<or> \<not> pe_is_readable e \<and> \<not> pe_is_writable e), c, ptr) # rs"
    by (auto simp: bindR_Inr_conv)
  have d: "s \<in> poller_sockets p" "poller_sockets p2 = poller_sockets p - {s}"
    using release_sockets[OF st(1)] poller_deregister_sockets[OF st(2)] by auto
  have c: "card (poller_sockets p) = Suc (card (poller_sockets p2))"
    unfolding d(2) by (rule card.remove[OF Cons.prems(1) d(1)])
  have "finite (poller_sockets p2)" using Cons.prems(1) d(2) by simp
  from Cons.IH[OF this st(3)] c show ?case unfolding r by (simp add: event_ready_def del: domIff)
qed simp

definition single_event :: "nat \<Rightarrow> bool \<Rightarrow> poll_event" where
  "single_event slot failed =
     \<lparr>pe_token = slot, pe_is_error = failed, pe_is_readable = True, pe_is_writable = False\<rparr>"

definition polled_away :: "nat \<Rightarrow> fd \<Rightarrow> mio_poller \<Rightarrow> mio_poller" where
  "polled_away slot s p = p\<lparr>mp_request_slots := mp_request_slots p @ [slot],
     mp_registered_sockets := (mp_registered_sockets p)(s := None)\<rparr>"

lemma poller_poll_single:
  assumes "mp_slots p slot = Some (c, ptr)" "raw_socket_of c = Some s" "mp_registered_sockets p s \<noteq> None"
  shows "poller_poll [single_event slot failed] p = Inr ([(\<not> failed, c, ptr)], polled_away slot s p)"
  using assms by (auto simp: single_event_def release_request_slot_def poller_deregister_socket_def polled_away_def)

section \<open>The requests of the poller\<close>

text \<open>
  A registered socket has a slot with a request on that socket, and no two share a slot. So the poller holds one
  request for each registered socket.
\<close>

definition poller_wf :: "mio_poller \<Rightarrow> bool" where
  "poller_wf p \<longleftrightarrow> finite (poller_sockets p) \<and> distinct (mp_request_slots p) \<and>
     (\<forall>slot \<in> set (mp_request_slots p). slot < mp_next_slot p) \<and>
     (\<forall>s slot i. mp_registered_sockets p s = Some (slot, i) \<longrightarrow>
        slot < mp_next_slot p \<and> slot \<notin> set (mp_request_slots p) \<and>
        (\<exists>c ptr. mp_slots p slot = Some (c, ptr) \<and> raw_socket_of c = Some s))"

type_synonym live_call = "io_call \<times> request_ptr \<times> fd \<times> nat"

definition poller_live :: "mio_poller \<Rightarrow> live_call set" where
  "poller_live p = {(c, ptr, s, slot). \<exists>i. mp_registered_sockets p s = Some (slot, i) \<and> mp_slots p slot = Some (c, ptr)}"

abbreviation live_request :: "live_call \<Rightarrow> io_call \<times> request_ptr" where
  "live_request x \<equiv> (fst x, fst (snd x))"

definition poller_calls :: "mio_poller \<Rightarrow> (io_call \<times> request_ptr) multiset" where
  "poller_calls p = image_mset live_request (mset_set (poller_live p))"

lemma poller_new_wf: "poller_wf mio_poller_new" "poller_live mio_poller_new = {}" "poller_calls mio_poller_new = {#}"
proof -
  show live: "poller_live mio_poller_new = {}" by (simp add: poller_live_def mio_poller_new_def)
  show "poller_calls mio_poller_new = {#}" by (simp add: poller_calls_def live)
qed (simp add: poller_wf_def mio_poller_new_def)

lemma finite_poller_live:
  assumes "poller_wf p" shows "finite (poller_live p)"
proof -
  have "poller_live p \<subseteq> (\<lambda>s. case the (mp_registered_sockets p s) of (slot, _) \<Rightarrow>
      case the (mp_slots p slot) of (c, ptr) \<Rightarrow> (c, ptr, s, slot)) ` poller_sockets p"
    by (force simp: poller_live_def image_iff)
  moreover have "finite (poller_sockets p)" using assms by (simp add: poller_wf_def)
  ultimately show ?thesis by (meson finite_surj)
qed

lemma poller_calls_insert:
  assumes "poller_wf p" and "poller_live p' = insert x (poller_live p)" and "x \<notin> poller_live p"
  shows "poller_calls p' = add_mset (live_request x) (poller_calls p)"
  using assms finite_poller_live[OF assms(1)] by (simp add: poller_calls_def)

lemma poller_wfD:
  assumes "poller_wf p" and "mp_registered_sockets p s = Some (slot, i)"
  shows "slot < mp_next_slot p" and "slot \<notin> set (mp_request_slots p)"
    and "\<exists>c ptr. mp_slots p slot = Some (c, ptr) \<and> raw_socket_of c = Some s"
  using assms unfolding poller_wf_def by blast+

lemma write_request_slot:
  assumes "poller_wf p" and "write_request_and_get_ptr request p = (slot, p')"
  shows "mp_registered_sockets p' = mp_registered_sockets p" and "mp_slots p' = (mp_slots p)(slot \<mapsto> request)"
    and "slot < mp_next_slot p'" and "slot \<notin> set (mp_request_slots p')" and "distinct (mp_request_slots p')"
    and "\<forall>x \<in> set (mp_request_slots p'). x < mp_next_slot p'" and "mp_next_slot p \<le> mp_next_slot p'"
    and "set (mp_request_slots p') \<subseteq> set (mp_request_slots p)"
    and "\<And>s i. mp_registered_sockets p s \<noteq> Some (slot, i)"
proof -
  have free: "distinct (mp_request_slots p)" "\<forall>x \<in> set (mp_request_slots p). x < mp_next_slot p"
    using assms(1) by (simp_all add: poller_wf_def)
  consider "mp_request_slots p = []" "slot = mp_next_slot p"
      "p' = p\<lparr>mp_next_slot := mp_next_slot p + 1, mp_slots := (mp_slots p)(slot \<mapsto> request)\<rparr>"
    | rest where "mp_request_slots p = rest @ [slot]"
      "p' = p\<lparr>mp_request_slots := rest, mp_slots := (mp_slots p)(slot \<mapsto> request)\<rparr>"
    using assms(2)
    by (auto simp: write_request_and_get_ptr_def pop_back_None pop_back_Some split: prod.splits option.splits)
  note cs = this
  show "mp_registered_sockets p' = mp_registered_sockets p" "mp_slots p' = (mp_slots p)(slot \<mapsto> request)"
    "slot < mp_next_slot p'" "slot \<notin> set (mp_request_slots p')" "distinct (mp_request_slots p')"
    "\<forall>x \<in> set (mp_request_slots p'). x < mp_next_slot p'" "mp_next_slot p \<le> mp_next_slot p'"
    "set (mp_request_slots p') \<subseteq> set (mp_request_slots p)"
    by (rule cs; use free in auto; fail)+
  show "mp_registered_sockets p s \<noteq> Some (slot, i)" for s i
    using cs poller_wfD[OF assms(1), of s slot i] by cases auto
qed

text \<open>A registration adds its request; taking a slot and its socket away removes the request.\<close>

lemma poller_register_cases:
  assumes "poller_wf p" and "poller_register i (c, ptr) p = Inr (slot, p')"
  obtains s p1 where "raw_socket_of c = Some s" "mp_registered_sockets p s = None"
    "write_request_and_get_ptr (c, ptr) p = (slot, p1)"
    "p' = p1\<lparr>mp_registered_sockets := (mp_registered_sockets p)(s \<mapsto> (slot, i))\<rparr>"
proof -
  obtain p1 slot' where w: "write_request_and_get_ptr (c, ptr) p = (slot', p1)" by fastforce
  with assms(2) write_request_slot(1)[OF assms(1) w] that show ?thesis
    by (auto simp: poller_register_def bindR_Inr_conv split: if_splits) (metis not_None_eq surj_pair)
qed

lemma poller_register_live:
  assumes "poller_wf p" and "poller_register i (c, ptr) p = Inr (slot, p')"
  obtains s where "raw_socket_of c = Some s" "mp_registered_sockets p s = None"
    "poller_live p' = insert (c, ptr, s, slot) (poller_live p)" "(c, ptr, s, slot) \<notin> poller_live p"
    "mp_slots p' slot = Some (c, ptr)"
proof -
  obtain s p1 where s: "raw_socket_of c = Some s" "mp_registered_sockets p s = None"
    "write_request_and_get_ptr (c, ptr) p = (slot, p1)"
    and p': "p' = p1\<lparr>mp_registered_sockets := (mp_registered_sockets p)(s \<mapsto> (slot, i))\<rparr>"
    by (rule poller_register_cases[OF assms])
  note w = write_request_slot[OF assms(1) s(3)]
  have "poller_live p' = insert (c, ptr, s, slot) (poller_live p)"
    using p' w(2,9) s(2) by (auto simp: poller_live_def split: if_splits)
  with s(1,2) p' w(2) that show ?thesis by (simp add: poller_live_def)
qed

lemma poller_register_wf:
  assumes "poller_wf p" and "poller_register i (c, ptr) p = Inr (slot, p')"
  shows "poller_wf p'"
proof -
  obtain s p1 where s: "raw_socket_of c = Some s" "mp_registered_sockets p s = None"
    "write_request_and_get_ptr (c, ptr) p = (slot, p1)"
    and p': "p' = p1\<lparr>mp_registered_sockets := (mp_registered_sockets p)(s \<mapsto> (slot, i))\<rparr>"
    by (rule poller_register_cases[OF assms])
  note w = write_request_slot[OF assms(1) s(3)]
  have "slot' < mp_next_slot p1 \<and> slot' \<notin> set (mp_request_slots p1) \<and>
      (\<exists>c ptr. mp_slots p' slot' = Some (c, ptr) \<and> raw_socket_of c = Some s')"
    if r: "mp_registered_sockets p' s' = Some (slot', j)" for s' slot' j
  proof (cases "s' = s")
    case True
    with r p' s(1) w(2-4) show ?thesis by simp
  next
    case False
    then have r': "mp_registered_sockets p s' = Some (slot', j)" using r p' by simp
    have "slot' \<noteq> slot" using w(9)[of s' j] r' by auto
    with poller_wfD[OF assms(1) r'] w(2,7,8) p' show ?thesis by auto
  qed
  moreover have "finite (poller_sockets p)" using assms(1) by (simp add: poller_wf_def)
  ultimately show ?thesis unfolding poller_wf_def using w(5,6) by (auto simp: p')
qed

lemma poller_register_returns:
  assumes "raw_socket_of c = Some s" and "mp_registered_sockets p s = None" and "poller_wf p"
  shows "\<exists>slot p'. poller_register i (c, ptr) p = Inr (slot, p')"
proof -
  obtain p1 slot where w: "write_request_and_get_ptr (c, ptr) p = (slot, p1)" by fastforce
  with assms write_request_slot(1)[OF assms(3) w] show ?thesis by (simp add: poller_register_def)
qed

lemma poller_live_socket:
  assumes "poller_wf p" and "(c, ptr, s, slot) \<in> poller_live p"
  shows "raw_socket_of c = Some s" and "\<exists>i. mp_registered_sockets p s = Some (slot, i)" and "mp_slots p slot = Some (c, ptr)"
  using assms poller_wfD(3)[OF assms(1), of s slot] by (auto simp: poller_live_def)

lemma polled_away_wf:
  assumes "poller_wf p" and "(c, ptr, s, slot) \<in> poller_live p"
  shows "poller_wf (polled_away slot s p)" and "poller_live (polled_away slot s p) = poller_live p - {(c, ptr, s, slot)}"
proof -
  obtain i where r: "mp_registered_sockets p s = Some (slot, i)" "mp_slots p slot = Some (c, ptr)" "raw_socket_of c = Some s"
    using poller_live_socket[OF assms] by blast
  have fin: "finite (poller_sockets p)" using assms(1) by (simp add: poller_wf_def)
  have other: "mp_registered_sockets p s' \<noteq> Some (slot, j)" if "s' \<noteq> s" for s' j
    using poller_wfD(3)[OF assms(1), of s' slot j] r that by auto
  have free: "distinct (mp_request_slots p)" "\<forall>x \<in> set (mp_request_slots p). x < mp_next_slot p"
    using assms(1) by (simp_all add: poller_wf_def)
  show "poller_wf (polled_away slot s p)"
    unfolding poller_wf_def polled_away_def
    using free fin poller_wfD[OF assms(1)] poller_wfD(1,2)[OF assms(1) r(1)] other by (auto split: if_splits)
  show "poller_live (polled_away slot s p) = poller_live p - {(c, ptr, s, slot)}"
    using r by (auto simp: poller_live_def polled_away_def split: if_splits)
qed

lemma poller_deregister_live:
  assumes "poller_wf p" and "(c, ptr, s, slot) \<in> poller_live p"
  shows "release_request_slot slot p = Inr ((c, ptr), p\<lparr>mp_request_slots := mp_request_slots p @ [slot]\<rparr>)"
    and "poller_deregister s slot p = Inr (polled_away slot s p)"
  using poller_live_socket[OF assms]
  by (auto simp: poller_deregister_def release_request_slot_def poller_deregister_socket_def polled_away_def)

text \<open>A poll takes the requests of its events, when each event is for a registered socket and each socket has one event.\<close>

abbreviation event_result :: "poll_event \<Rightarrow> bool" where
  "event_result e \<equiv> \<not> (pe_is_error e \<or> \<not> pe_is_readable e \<and> \<not> pe_is_writable e)"

definition live_token :: "mio_poller \<Rightarrow> nat \<Rightarrow> bool" where
  "live_token p slot \<longleftrightarrow> (\<exists>s i. mp_registered_sockets p s = Some (slot, i))"

lemma live_token_call:
  assumes "poller_wf p" and "live_token p slot" shows "\<exists>c ptr s. (c, ptr, s, slot) \<in> poller_live p"
  using assms poller_wfD(3)[OF assms(1)] by (fastforce simp: live_token_def poller_live_def)

lemma poller_poll_live:
  "poller_wf p \<Longrightarrow> distinct (map pe_token events) \<Longrightarrow> \<forall>e \<in> set events. live_token p (pe_token e) \<Longrightarrow>
   \<exists>xs p'. poller_poll events p = Inr (zip (map event_result events) (map live_request xs), p') \<and> poller_wf p' \<and>
     length xs = length events \<and> distinct xs \<and> set xs \<inter> poller_live p' = {} \<and>
     poller_live p = set xs \<union> poller_live p' \<and> map (\<lambda>x. snd (snd (snd x))) xs = map pe_token events"
proof (induction events arbitrary: p)
  case (Cons e es)
  obtain c ptr s where l: "(c, ptr, s, pe_token e) \<in> poller_live p" using live_token_call Cons.prems by (meson list.set_intros(1))
  let ?p = "polled_away (pe_token e) s p"
  note away = polled_away_wf[OF Cons.prems(1) l]
  have "live_token ?p (pe_token e')" if e': "e' \<in> set es" for e'
  proof -
    have "pe_token e' \<noteq> pe_token e" using e' Cons.prems(2) by (metis distinct.simps(2) image_eqI list.simps(9) list.set_map)
    obtain s' i where "mp_registered_sockets p s' = Some (pe_token e', i)" using Cons.prems(3) e' unfolding live_token_def by (meson list.set_intros(2))
    with \<open>pe_token e' \<noteq> pe_token e\<close> poller_live_socket(2)[OF Cons.prems(1) l]
    show ?thesis by (auto simp: live_token_def polled_away_def intro!: exI[of _ s'])
  qed
  with Cons.IH[OF away(1)] Cons.prems(2) obtain xs p' where IH:
    "poller_poll es ?p = Inr (zip (map event_result es) (map live_request xs), p')" "poller_wf p'"
    "length xs = length es" "distinct xs" "set xs \<inter> poller_live p' = {}" "poller_live ?p = set xs \<union> poller_live p'"
    "map (\<lambda>x. snd (snd (snd x))) xs = map pe_token es" by auto
  note d = poller_deregister_live[OF Cons.prems(1) l] poller_live_socket[OF Cons.prems(1) l]
  have "poller_poll (e # es) p =
      Inr (zip (map event_result (e # es)) (map live_request ((c, ptr, s, pe_token e) # xs)), p')"
    using d IH(1) by (simp add: poller_deregister_def)
  moreover have "distinct ((c, ptr, s, pe_token e) # xs)" "set ((c, ptr, s, pe_token e) # xs) \<inter> poller_live p' = {}"
    "poller_live p = set ((c, ptr, s, pe_token e) # xs) \<union> poller_live p'"
    using IH(4-6) away(2) l by auto
  ultimately show ?case using IH(2,3,7) by (intro exI[of _ "(c, ptr, s, pe_token e) # xs"] exI[of _ p']) simp
qed simp

end
