(* ===== verification/Io_Fallback.thy ===== *)
theory Io_Fallback
  imports Io_Uring Io_Calls
begin

text \<open>
  The I/O worker of systems without io_uring (\<open>src/src/io/sys/fallback/worker.rs\<close>). It tries an operation at once and
  registers the socket with a poller when the operation would block. It is the worker without the feature
  \<open>fallback_thread_pool\<close>, on a Unix with the error numbers of Linux.

  The tasks that the worker executes are recorded in order; what such a task does with the worker while it runs
  is not part of the step that executes it.
\<close>

section \<open>The worker\<close>

text \<open>
  The worker of the feature \<open>fallback_thread_pool\<close> has the same fields and more, so what both do is defined for the
  extensions of this record. The worker with the data of the requests, the deadlines the calls point to, and what it asked the
  executor to do, in order: execute or spawn a task, or leave the call that puts the current task at the start of
  the queue of shared tasks.
\<close>

datatype io_effect = ExecIoTask task | SpawnIoShared task | SpawnIoLocal task | InvokePushCurrentTask

record fallback_worker =
  fw_number_of_active_tasks :: nat
  fw_poller :: mio_poller
  fw_time_bounded_io_task_queue :: "(nat \<times> request_ptr \<times> fd \<times> nat) list"
  fw_last_gotten_time :: nat
  fw_mem :: request_memory
  fw_deadlines :: "deadline_ptr \<Rightarrow> nat"
  fw_effects :: "io_effect list"

definition fallback_worker_new :: "nat \<Rightarrow> fallback_worker" where
  "fallback_worker_new now =
     \<lparr>fw_number_of_active_tasks = 0, fw_poller = mio_poller_new, fw_time_bounded_io_task_queue = [],
      fw_last_gotten_time = now, fw_mem = (\<lambda>_. None), fw_deadlines = (\<lambda>_. 0), fw_effects = []\<rparr>"

definition fallback_has_work :: "'a fallback_worker_scheme \<Rightarrow> bool" where
  "fallback_has_work w = (fw_number_of_active_tasks w > 0)"

definition fallback_deregister_time_bounded_io_task :: "nat \<Rightarrow> 'a fallback_worker_scheme \<Rightarrow> 'a fallback_worker_scheme" where
  "fallback_deregister_time_bounded_io_task deadline w =
     w\<lparr>fw_time_bounded_io_task_queue := snd (time_bounded_remove deadline (fw_time_bounded_io_task_queue w))\<rparr>"

text \<open>Writing the result and taking the task, then what is done with it.\<close>

definition finish_request ::
  "bool \<Rightarrow> (task \<Rightarrow> io_effect) \<Rightarrow> request_ptr \<Rightarrow> io_result \<Rightarrow> 'a fallback_worker_scheme \<Rightarrow> 'a fallback_worker_scheme res" where
  "finish_request dbg eff ptr ret w =
     (case fw_mem w ptr of
        None \<Rightarrow> Inl Undefined
      | Some r \<Rightarrow>
          bindR (io_request_task dbg (io_request_set_ret ret r)) (\<lambda>(t, r').
            Inr (w\<lparr>fw_mem := (fw_mem w)(ptr \<mapsto> r'), fw_effects := fw_effects w @ [eff t]\<rparr>)))"

definition running_effect :: "task \<Rightarrow> io_effect" where
  "running_effect t = (if task_is_local t then SpawnIoLocal t else InvokePushCurrentTask)"

definition polled_effect :: "task \<Rightarrow> io_effect" where
  "polled_effect t = (if task_is_local t then ExecIoTask t else SpawnIoShared t)"

definition check_deadline_and ::
  "bool \<Rightarrow> nat \<Rightarrow> request_ptr \<Rightarrow> ('a fallback_worker_scheme \<Rightarrow> 'a fallback_worker_scheme res option) \<Rightarrow> 'a fallback_worker_scheme \<Rightarrow> 'a fallback_worker_scheme res option" where
  "check_deadline_and dbg deadline ptr op w =
     (if fw_last_gotten_time w < deadline then op w
      else Some (finish_request dbg running_effect ptr (Inl (FromKind TimedOut)) w))"

definition fallback_register_deadline :: "nat \<Rightarrow> 'a fallback_worker_scheme \<Rightarrow> 'a fallback_worker_scheme res" where
  "fallback_register_deadline slot w =
     (case mp_slots (fw_poller w) slot of
        None \<Rightarrow> Inl Undefined
      | Some (c, ptr) \<Rightarrow>
          (case call_deadline c of
             None \<Rightarrow> Inl Asserted
           | Some d \<Rightarrow>
               bindR (unwrap_socket c) (\<lambda>raw_socket.
                 case register_deadline (fw_deadlines w d) (ptr, raw_socket, slot) (fw_time_bounded_io_task_queue w) of
                   (deadline, q) \<Rightarrow>
                     Inr (w\<lparr>fw_deadlines := (fw_deadlines w)(d := deadline), fw_time_bounded_io_task_queue := q\<rparr>))))"

fun expire_requests ::
  "bool \<Rightarrow> (nat \<times> request_ptr \<times> fd \<times> nat) list \<Rightarrow> 'a fallback_worker_scheme \<Rightarrow> 'a fallback_worker_scheme res" where
  "expire_requests dbg [] w = Inr (w\<lparr>fw_time_bounded_io_task_queue := []\<rparr>)"
| "expire_requests dbg ((deadline, ptr, raw_socket, slot) # q) w =
     (if deadline \<le> fw_last_gotten_time w then
        bindR (poller_deregister raw_socket slot (fw_poller w)) (\<lambda>p.
        bindR (finish_request dbg polled_effect ptr (Inl (FromKind TimedOut)) (w\<lparr>fw_poller := p\<rparr>)) (\<lambda>w1.
        bindR (usize_sub dbg (fw_number_of_active_tasks w1) 1) (\<lambda>n.
          expire_requests dbg q (w1\<lparr>fw_number_of_active_tasks := n\<rparr>))))
      else Inr (w\<lparr>fw_time_bounded_io_task_queue := btree_insert deadline (ptr, raw_socket, slot) q\<rparr>))"

definition fallback_check_deadlines :: "bool \<Rightarrow> nat \<Rightarrow> 'a fallback_worker_scheme \<Rightarrow> 'a fallback_worker_scheme res" where
  "fallback_check_deadlines dbg now w =
     expire_requests dbg (fw_time_bounded_io_task_queue w) (w\<lparr>fw_last_gotten_time := now\<rparr>)"

definition schedule_io_call_that_not_retriable ::
  "bool \<Rightarrow> io_call \<Rightarrow> request_ptr \<Rightarrow> fallback_worker \<Rightarrow> fallback_worker res" where
  "schedule_io_call_that_not_retriable dbg c ptr w =
     bindR (if dbg then must_retry c else Inr False) (\<lambda>retry.
       if retry then Inl DebugAssert else finish_request dbg polled_effect ptr (Inr 0) w)"

definition register_io_call_to_poller :: "io_call \<Rightarrow> request_ptr \<Rightarrow> fallback_worker \<Rightarrow> fallback_worker res" where
  "register_io_call_to_poller c ptr w =
     (let w1 = w\<lparr>fw_number_of_active_tasks := fw_number_of_active_tasks w + 1\<rparr> in
      bindR (if is_recv_pollable c then Inr Readable else if is_send_pollable c then Inr Writable
             else if is_both_pollable c then Inr ReadWrite else Inl Asserted) (\<lambda>i.
      bindR (poller_register i (c, ptr) (fw_poller w1)) (\<lambda>(slot, p).
        if call_deadline c \<noteq> None then fallback_register_deadline slot (w1\<lparr>fw_poller := p\<rparr>)
        else Inr (w1\<lparr>fw_poller := p\<rparr>))))"

text \<open>
  An attempt is what the system calls return; the loops go on after an interruption, and \<open>None\<close> is a
  loop that has not ended with the attempts given.
\<close>

fun handle_io_call ::
  "bool \<Rightarrow> os_fun list \<Rightarrow> io_call \<Rightarrow> request_ptr \<Rightarrow> fallback_worker \<Rightarrow> fallback_worker res option" where
  "handle_io_call dbg [] c ptr w = None"
| "handle_io_call dbg (os # attempts) c ptr w =
     (case do_io_work os c of
        Inl p \<Rightarrow> Some (Inl p)
      | Inr (Inr n) \<Rightarrow> Some (finish_request dbg running_effect ptr (Inr n) w)
      | Inr (Inl err) \<Rightarrow>
          if io_error_kind_of err = WouldBlock then Some (register_io_call_to_poller c ptr w)
          else if io_error_kind_of err = Interrupted then handle_io_call dbg attempts c ptr w
          else if err = RawOs EINPROGRESS then Some (register_io_call_to_poller c ptr w)
          else Some (finish_request dbg running_effect ptr (Inl err) w))"

fun handle_io_operation ::
  "bool \<Rightarrow> os_fun list \<Rightarrow> (os_fun \<Rightarrow> io_result) \<Rightarrow> request_ptr \<Rightarrow> fallback_worker \<Rightarrow> fallback_worker res option" where
  "handle_io_operation dbg [] op ptr w = None"
| "handle_io_operation dbg (os # attempts) op ptr w =
     (case op os of
        Inr n \<Rightarrow> Some (finish_request dbg running_effect ptr (Inr n) w)
      | Inl err \<Rightarrow>
          if io_error_kind_of err = WouldBlock then Some (Inl Asserted)
          else if io_error_kind_of err = Interrupted then handle_io_operation dbg attempts op ptr w
          else if err = RawOs EINPROGRESS then Some (Inl Asserted)
          else Some (finish_request dbg running_effect ptr (Inl err) w))"

text \<open>One polled request; \<open>deadline\<close> reads the deadline the call points to.\<close>

definition process_polled ::
  "bool \<Rightarrow> (request_ptr \<Rightarrow> os_fun list) \<Rightarrow> bool \<times> io_call \<times> request_ptr \<Rightarrow> fallback_worker \<Rightarrow> fallback_worker res option" where
  "process_polled dbg attempts request w =
     (case request of (result, c, ptr) \<Rightarrow>
       let retry = (\<lambda>w. bindO (Some (must_retry c)) (\<lambda>again.
                     if again then handle_io_call dbg (attempts ptr) c ptr w
                     else Some (schedule_io_call_that_not_retriable dbg c ptr w)));
           deadline = map_option (fw_deadlines w) (call_deadline c);
           removed = (case deadline of
                        None \<Rightarrow> Inr w
                      | Some d \<Rightarrow>
                          if d \<in> fst ` set (fw_time_bounded_io_task_queue w)
                          then Inr (fallback_deregister_time_bounded_io_task d w) else Inl Asserted) in
       case removed of
         Inl p \<Rightarrow> Some (Inl p)
       | Inr w1 \<Rightarrow>
           if result then (case deadline of Some d \<Rightarrow> check_deadline_and dbg d ptr retry w1 | None \<Rightarrow> retry w1)
           else Some (bindR (usize_sub dbg (fw_number_of_active_tasks w1) 1) (\<lambda>n.
                  finish_request dbg polled_effect ptr (Inl (FromKind OtherKind)) (w1\<lparr>fw_number_of_active_tasks := n\<rparr>))))"

fun process_all ::
  "bool \<Rightarrow> (request_ptr \<Rightarrow> os_fun list) \<Rightarrow> (bool \<times> io_call \<times> request_ptr) list \<Rightarrow> fallback_worker \<Rightarrow> fallback_worker res option" where
  "process_all dbg attempts [] w = Some (Inr w)"
| "process_all dbg attempts (r # rs) w = bindO (process_polled dbg attempts r w) (process_all dbg attempts rs)"

definition poll_and_process ::
  "bool \<Rightarrow> (request_ptr \<Rightarrow> os_fun list) \<Rightarrow> poll_event list \<Rightarrow> fallback_worker \<Rightarrow> fallback_worker res option" where
  "poll_and_process dbg attempts events w =
     bindO (Some (poller_poll events (fw_poller w))) (\<lambda>(requests, p).
     bindO (process_all dbg attempts requests (w\<lparr>fw_poller := p\<rparr>)) (\<lambda>w1.
     bindO (Some (usize_sub dbg (fw_number_of_active_tasks w1) (length requests))) (\<lambda>n.
       Some (Inr (w1\<lparr>fw_number_of_active_tasks := n\<rparr>)))))"

definition fallback_must_poll ::
  "bool \<Rightarrow> (request_ptr \<Rightarrow> os_fun list) \<Rightarrow> poll_event list \<Rightarrow> nat \<Rightarrow> fallback_worker \<Rightarrow> fallback_worker res option" where
  "fallback_must_poll dbg attempts events now w =
     (if fw_number_of_active_tasks w = 0 then Some (Inr w)
      else bindO (poll_and_process dbg attempts events w) (\<lambda>w1. Some (fallback_check_deadlines dbg now w1)))"

section \<open>The operations\<close>

text \<open>The methods of the interface; the deadline of a method is where its future keeps it. A poll of a socket only registers it.\<close>

definition poll_socket :: "interest \<Rightarrow> io_call \<Rightarrow> request_ptr \<Rightarrow> 'a fallback_worker_scheme \<Rightarrow> 'a fallback_worker_scheme res" where
  "poll_socket i c ptr w =
     bindR (poller_register i (c, ptr) (fw_poller w)) (\<lambda>(slot, p).
       Inr (w\<lparr>fw_number_of_active_tasks := fw_number_of_active_tasks w + 1, fw_poller := p\<rparr>))"

definition poll_socket_and_deadline :: "interest \<Rightarrow> io_call \<Rightarrow> request_ptr \<Rightarrow> 'a fallback_worker_scheme \<Rightarrow> 'a fallback_worker_scheme res" where
  "poll_socket_and_deadline i c ptr w =
     bindR (poller_register i (c, ptr) (fw_poller w)) (\<lambda>(slot, p).
       fallback_register_deadline slot
         (w\<lparr>fw_number_of_active_tasks := fw_number_of_active_tasks w + 1, fw_poller := p\<rparr>))"

fun fallback_conns ::
  "bool \<Rightarrow> os_fun list \<Rightarrow> conn_method \<Rightarrow> deadline_ptr option \<Rightarrow> request_ptr \<Rightarrow> fallback_worker \<Rightarrow> fallback_worker res option" where
  "fallback_conns dbg attempts (MAccept s a l) None ptr w = handle_io_call dbg attempts (Accept s a l) ptr w"
| "fallback_conns dbg attempts (MAccept s a l) (Some deadline) ptr w =
     check_deadline_and dbg (fw_deadlines w deadline) ptr
       (handle_io_call dbg attempts (AcceptWithDeadline s a l deadline) ptr) w"
| "fallback_conns dbg attempts (MConnect s a l) None ptr w = handle_io_call dbg attempts (Connect s a l) ptr w"
| "fallback_conns dbg attempts (MConnect s a l) (Some deadline) ptr w =
     check_deadline_and dbg (fw_deadlines w deadline) ptr
       (handle_io_call dbg attempts (ConnectWithDeadline s a l deadline) ptr) w"
| "fallback_conns dbg attempts (MPollSocketRead s) None ptr w = Some (poll_socket Readable (PollRecv s) ptr w)"
| "fallback_conns dbg attempts (MPollSocketRead s) (Some deadline) ptr w =
     check_deadline_and dbg (fw_deadlines w deadline) ptr
       (\<lambda>w. Some (poll_socket_and_deadline Readable (PollRecvWithDeadline s deadline) ptr w)) w"
| "fallback_conns dbg attempts (MPollSocketWrite s) None ptr w = Some (poll_socket Writable (PollSend s) ptr w)"
| "fallback_conns dbg attempts (MPollSocketWrite s) (Some deadline) ptr w =
     check_deadline_and dbg (fw_deadlines w deadline) ptr
       (\<lambda>w. Some (poll_socket_and_deadline Writable (PollSendWithDeadline s deadline) ptr w)) w"

fun fallback_recvs ::
  "bool \<Rightarrow> os_fun list \<Rightarrow> recv_method \<Rightarrow> deadline_ptr option \<Rightarrow> request_ptr \<Rightarrow> fallback_worker \<Rightarrow> fallback_worker res option" where
  "fallback_recvs dbg attempts (MRecv s p n) None ptr w = handle_io_call dbg attempts (Recv s p n) ptr w"
| "fallback_recvs dbg attempts (MRecv s p n) (Some deadline) ptr w =
     check_deadline_and dbg (fw_deadlines w deadline) ptr
       (handle_io_call dbg attempts (RecvWithDeadline s p n deadline) ptr) w"
| "fallback_recvs dbg attempts (MRecvFixed s p n b) None ptr w = handle_io_call dbg attempts (Recv s p n) ptr w"
| "fallback_recvs dbg attempts (MRecvFixed s p n b) (Some deadline) ptr w =
     check_deadline_and dbg (fw_deadlines w deadline) ptr
       (handle_io_call dbg attempts (RecvWithDeadline s p n deadline) ptr) w"
| "fallback_recvs dbg attempts (MRecvFrom s h) None ptr w = handle_io_call dbg attempts (RecvFrom s h) ptr w"
| "fallback_recvs dbg attempts (MRecvFrom s h) (Some deadline) ptr w =
     check_deadline_and dbg (fw_deadlines w deadline) ptr
       (handle_io_call dbg attempts (RecvFromWithDeadline s h deadline) ptr) w"

fun fallback_sends ::
  "bool \<Rightarrow> os_fun list \<Rightarrow> send_method \<Rightarrow> deadline_ptr option \<Rightarrow> request_ptr \<Rightarrow> fallback_worker \<Rightarrow> fallback_worker res option" where
  "fallback_sends dbg attempts (MSend s p n) None ptr w = handle_io_call dbg attempts (Send s p n) ptr w"
| "fallback_sends dbg attempts (MSend s p n) (Some deadline) ptr w =
     check_deadline_and dbg (fw_deadlines w deadline) ptr
       (handle_io_call dbg attempts (SendWithDeadline s p n deadline) ptr) w"
| "fallback_sends dbg attempts (MSendFixed s p n b) None ptr w = handle_io_call dbg attempts (Send s p n) ptr w"
| "fallback_sends dbg attempts (MSendFixed s p n b) (Some deadline) ptr w =
     check_deadline_and dbg (fw_deadlines w deadline) ptr
       (handle_io_call dbg attempts (SendWithDeadline s p n deadline) ptr) w"
| "fallback_sends dbg attempts (MSendTo s h) None ptr w = handle_io_call dbg attempts (SendTo s h) ptr w"
| "fallback_sends dbg attempts (MSendTo s h) (Some deadline) ptr w =
     check_deadline_and dbg (fw_deadlines w deadline) ptr
       (handle_io_call dbg attempts (SendToWithDeadline s h deadline) ptr) w"

fun fallback_peeks ::
  "bool \<Rightarrow> os_fun list \<Rightarrow> peek_method \<Rightarrow> deadline_ptr option \<Rightarrow> request_ptr \<Rightarrow> fallback_worker \<Rightarrow> fallback_worker res option" where
  "fallback_peeks dbg attempts (MPeek s p n) None ptr w = handle_io_call dbg attempts (Peek s p n) ptr w"
| "fallback_peeks dbg attempts (MPeek s p n) (Some deadline) ptr w =
     check_deadline_and dbg (fw_deadlines w deadline) ptr
       (handle_io_call dbg attempts (PeekWithDeadline s p n deadline) ptr) w"
| "fallback_peeks dbg attempts (MPeekFixed s p n b) None ptr w = handle_io_call dbg attempts (Peek s p n) ptr w"
| "fallback_peeks dbg attempts (MPeekFixed s p n b) (Some deadline) ptr w =
     check_deadline_and dbg (fw_deadlines w deadline) ptr
       (handle_io_call dbg attempts (PeekWithDeadline s p n deadline) ptr) w"
| "fallback_peeks dbg attempts (MPeekFrom s h) None ptr w = handle_io_call dbg attempts (PeekFrom s h) ptr w"
| "fallback_peeks dbg attempts (MPeekFrom s h) (Some deadline) ptr w =
     check_deadline_and dbg (fw_deadlines w deadline) ptr
       (handle_io_call dbg attempts (PeekFromWithDeadline s h deadline) ptr) w"

definition fallback_socket ::
  "bool \<Rightarrow> os_fun list \<Rightarrow> int \<Rightarrow> int \<Rightarrow> int \<Rightarrow> request_ptr \<Rightarrow> fallback_worker \<Rightarrow> fallback_worker res option" where
  "fallback_socket dbg attempts domain sock_type protocol =
     handle_io_operation dbg attempts (\<lambda>os. os (SocketOp domain sock_type protocol))"

fun fallback_files ::
  "bool \<Rightarrow> os_fun list \<Rightarrow> file_method \<Rightarrow> request_ptr \<Rightarrow> fallback_worker \<Rightarrow> fallback_worker res option" where
  "fallback_files dbg attempts (MShutdown s how) = handle_io_operation dbg attempts (\<lambda>os. os (ShutdownOp s how))"
| "fallback_files dbg attempts (MOpen path open_how) = handle_io_operation dbg attempts (\<lambda>os. os (OpenOp path open_how))"
| "fallback_files dbg attempts (MFallocate file offset n flags) = handle_io_operation dbg attempts (\<lambda>os. Inr 0)"
| "fallback_files dbg attempts (MSyncAll file) = handle_io_operation dbg attempts (\<lambda>os. os (FsyncOp file))"
| "fallback_files dbg attempts (MSyncData file) = handle_io_operation dbg attempts (\<lambda>os. os (FsyncDataOp file))"
| "fallback_files dbg attempts (MRead file p n) = handle_io_operation dbg attempts (\<lambda>os. os (ReadOp file p n))"
| "fallback_files dbg attempts (MReadFixed file p n b) = handle_io_operation dbg attempts (\<lambda>os. os (ReadOp file p n))"
| "fallback_files dbg attempts (MPread file p n offset) = handle_io_operation dbg attempts (\<lambda>os. os (ReadAtOp file offset p n))"
| "fallback_files dbg attempts (MPreadFixed file p n b offset) = handle_io_operation dbg attempts (\<lambda>os. os (ReadAtOp file offset p n))"

fun fallback_writes ::
  "bool \<Rightarrow> os_fun list \<Rightarrow> write_method \<Rightarrow> request_ptr \<Rightarrow> fallback_worker \<Rightarrow> fallback_worker res option" where
  "fallback_writes dbg attempts (MWrite file p n) = handle_io_operation dbg attempts (\<lambda>os. os (WriteOp file p n))"
| "fallback_writes dbg attempts (MWriteFixed file p n b) = handle_io_operation dbg attempts (\<lambda>os. os (WriteOp file p n))"
| "fallback_writes dbg attempts (MPwrite file p n offset) = handle_io_operation dbg attempts (\<lambda>os. os (WriteAtOp file offset p n))"
| "fallback_writes dbg attempts (MPwriteFixed file p n b offset) = handle_io_operation dbg attempts (\<lambda>os. os (WriteAtOp file offset p n))"
| "fallback_writes dbg attempts (MCloseFile file) = handle_io_operation dbg attempts (\<lambda>os. let _ = os (CloseFileOp file) in Inr 0)"
| "fallback_writes dbg attempts (MCloseSocket s) = handle_io_operation dbg attempts (\<lambda>os. let _ = os (CloseSocketOp s) in Inr 0)"
| "fallback_writes dbg attempts (MRename old_path new_path) = handle_io_operation dbg attempts (\<lambda>os. os (RenameOp old_path new_path))"
| "fallback_writes dbg attempts (MCreateDir path mode) = handle_io_operation dbg attempts (\<lambda>os. os (MkdirOp path mode))"
| "fallback_writes dbg attempts (MRemoveFile path) = handle_io_operation dbg attempts (\<lambda>os. os (UnlinkOp path))"
| "fallback_writes dbg attempts (MRemoveDir path) = handle_io_operation dbg attempts (\<lambda>os. os (RmdirOp path))"

fun fallback_call ::
  "bool \<Rightarrow> os_fun list \<Rightarrow> io_method \<Rightarrow> deadline_ptr option \<Rightarrow> request_ptr \<Rightarrow> fallback_worker \<Rightarrow> fallback_worker res option" where
  "fallback_call dbg attempts (ConnMethod m) d ptr w = fallback_conns dbg attempts m d ptr w"
| "fallback_call dbg attempts (RecvMethod m) d ptr w = fallback_recvs dbg attempts m d ptr w"
| "fallback_call dbg attempts (SendMethod m) d ptr w = fallback_sends dbg attempts m d ptr w"
| "fallback_call dbg attempts (PeekMethod m) d ptr w = fallback_peeks dbg attempts m d ptr w"
| "fallback_call dbg attempts (FileMethod m) d ptr w = fallback_files dbg attempts m ptr w"
| "fallback_call dbg attempts (WriteMethod m) d ptr w = fallback_writes dbg attempts m ptr w"

section \<open>What the worker asks of the executor\<close>

text \<open>The effects of the worker on the executor that owns it, which the worker reaches by \<open>local_executor\<close>.\<close>

fun apply_io_effect :: "bool \<Rightarrow> (executor \<Rightarrow> bool) \<Rightarrow> exec_fun \<Rightarrow> io_effect \<Rightarrow> executor \<Rightarrow> executor res option" where
  "apply_io_effect dbg free exec (ExecIoTask t) e = exec t e"
| "apply_io_effect dbg free exec (SpawnIoShared t) e = Some (spawn_shared_task dbg (free e) t e)"
| "apply_io_effect dbg free exec (SpawnIoLocal t) e = Some (spawn_local_task dbg t e)"
| "apply_io_effect dbg free exec InvokePushCurrentTask e =
     Some (invoke_call dbg PushCurrentTaskAtTheStartOfLIFOSharedQueue e)"

section \<open>Histories of the worker\<close>

text \<open>
  The calls of the executor and of the futures: a future writes the data of its request and its deadline, then calls a
  method; the executor polls. A history goes on as long as each call returns.
\<close>

datatype fallback_op =
    NewRequest request_ptr task
  | SetDeadline deadline_ptr nat
  | CallMethod "os_fun list" io_method "deadline_ptr option" request_ptr
  | CallSocket "os_fun list" int int int request_ptr
  | MustPollFor "request_ptr \<Rightarrow> os_fun list" "poll_event list" nat

fun fallback_do :: "bool \<Rightarrow> fallback_op \<Rightarrow> fallback_worker \<Rightarrow> fallback_worker res option" where
  "fallback_do dbg (NewRequest ptr t) w = Some (Inr (w\<lparr>fw_mem := (fw_mem w)(ptr \<mapsto> io_request_new t)\<rparr>))"
| "fallback_do dbg (SetDeadline d v) w = Some (Inr (w\<lparr>fw_deadlines := (fw_deadlines w)(d := v)\<rparr>))"
| "fallback_do dbg (CallMethod attempts m d ptr) w = fallback_call dbg attempts m d ptr w"
| "fallback_do dbg (CallSocket attempts domain sock_type protocol ptr) w =
     fallback_socket dbg attempts domain sock_type protocol ptr w"
| "fallback_do dbg (MustPollFor attempts events now) w = fallback_must_poll dbg attempts events now w"

definition returned :: "'a res option \<Rightarrow> bool" where
  "returned r \<longleftrightarrow> (case r of Some (Inr _) \<Rightarrow> True | _ \<Rightarrow> False)"

definition fallback_step :: "bool \<Rightarrow> fallback_op \<Rightarrow> fallback_worker \<Rightarrow> bool \<times> fallback_worker" where
  "fallback_step dbg p w = (case fallback_do dbg p w of Some (Inr w') \<Rightarrow> (True, w') | _ \<Rightarrow> (False, w))"

definition fallback_ok :: "bool \<Rightarrow> fallback_op \<Rightarrow> fallback_worker \<Rightarrow> bool" where
  "fallback_ok dbg p w \<longleftrightarrow> returned (fallback_do dbg p w) \<and>
     (case p of MustPollFor _ events _ \<Rightarrow> list_all event_ready events | _ \<Rightarrow> True)"

section \<open>The count of active tasks\<close>

definition sockets :: "'a fallback_worker_scheme \<Rightarrow> fd set" where
  "sockets w = dom (mp_registered_sockets (fw_poller w))"

definition counts :: "nat \<Rightarrow> 'a fallback_worker_scheme \<Rightarrow> bool" where
  "counts k w \<longleftrightarrow> finite (sockets w) \<and> fw_number_of_active_tasks w = card (sockets w) + k"

lemma counts_simps [simp]:
  "counts k (w\<lparr>fw_mem := m\<rparr>) = counts k w" "counts k (w\<lparr>fw_deadlines := d\<rparr>) = counts k w"
  "counts k (w\<lparr>fw_time_bounded_io_task_queue := q\<rparr>) = counts k w" "counts k (w\<lparr>fw_effects := es\<rparr>) = counts k w"
  "counts k (w\<lparr>fw_last_gotten_time := n\<rparr>) = counts k w"
  by (simp_all add: counts_def sockets_def)

lemma finish_request_eq:
  assumes "finish_request dbg eff ptr ret w = Inr w'"
  shows "\<exists>r. w' = w\<lparr>fw_mem := (fw_mem w)(ptr \<mapsto> r), fw_effects := fw_effects w'\<rparr>"
  using assms by (auto simp: finish_request_def bindR_Inr_conv split: option.splits)

lemma finish_request_counts:
  assumes "finish_request dbg eff ptr ret w = Inr w'" and "counts k w" shows "counts k w'"
proof -
  obtain r where "w' = w\<lparr>fw_mem := (fw_mem w)(ptr \<mapsto> r), fw_effects := fw_effects w'\<rparr>"
    using finish_request_eq[OF assms(1)] by blast
  with assms(2) show ?thesis by (metis counts_simps(1) counts_simps(4))
qed

lemma register_counts:
  assumes "counts k w" "poller_register i request (fw_poller w) = Inr (slot, p)"
  shows "counts k (w\<lparr>fw_number_of_active_tasks := Suc (fw_number_of_active_tasks w), fw_poller := p\<rparr>)"
proof -
  obtain s where "s \<notin> poller_sockets (fw_poller w)" "poller_sockets p = insert s (poller_sockets (fw_poller w))"
    using poller_register_sockets[OF assms(2)] by blast
  with assms(1) show ?thesis by (simp add: counts_def sockets_def)
qed

lemma register_deadline_counts:
  "fallback_register_deadline slot w = Inr w' \<Longrightarrow> counts k w \<Longrightarrow> counts k w'"
  by (auto simp: fallback_register_deadline_def bindR_Inr_conv register_deadline_eq split: option.splits)

lemma register_io_call_counts:
  assumes "counts k w" "register_io_call_to_poller c ptr w = Inr w'" shows "counts k w'"
proof -
  from assms(2) obtain i slot p where r: "poller_register i (c, ptr) (fw_poller w) = Inr (slot, p)"
    and w': "(if call_deadline c \<noteq> None then fallback_register_deadline slot
        (w\<lparr>fw_number_of_active_tasks := Suc (fw_number_of_active_tasks w), fw_poller := p\<rparr>)
      else Inr (w\<lparr>fw_number_of_active_tasks := Suc (fw_number_of_active_tasks w), fw_poller := p\<rparr>)) = Inr w'"
    by (auto simp: register_io_call_to_poller_def bindR_Inr_conv Let_def split: prod.splits)
  show ?thesis using register_counts[OF assms(1) r] w' by (auto split: if_splits intro: register_deadline_counts)
qed

lemma handle_io_call_counts:
  "counts k w \<Longrightarrow> handle_io_call dbg attempts c ptr w = Some (Inr w') \<Longrightarrow> counts k w'"
  by (induction dbg attempts c ptr w rule: handle_io_call.induct)
     (auto split: sum.splits if_splits intro: finish_request_counts register_io_call_counts)

lemma handle_io_operation_counts:
  "counts k w \<Longrightarrow> handle_io_operation dbg attempts op ptr w = Some (Inr w') \<Longrightarrow> counts k w'"
  by (induction dbg attempts op ptr w rule: handle_io_operation.induct)
     (auto split: sum.splits if_splits intro: finish_request_counts)

lemma check_deadline_counts:
  assumes "counts k w" "check_deadline_and dbg d ptr op w = Some (Inr w')" "\<And>v. op w = Some (Inr v) \<Longrightarrow> counts k v"
  shows "counts k w'"
  using assms by (auto simp: check_deadline_and_def split: if_splits intro: finish_request_counts)

lemma process_ready_counts:
  assumes "counts k w" "process_polled dbg attempts (True, c, ptr) w = Some (Inr w')"
  shows "counts k w'"
proof -
  have retry: "counts k v'" if "counts k v"
    "bindO (Some (must_retry c)) (\<lambda>again. if again then handle_io_call dbg (attempts ptr) c ptr v
      else Some (schedule_io_call_that_not_retriable dbg c ptr v)) = Some (Inr v')" for v v'
    using that handle_io_call_counts[OF that(1)]
    by (auto simp: bindO_Inr schedule_io_call_that_not_retriable_def bindR_Inr_conv split: if_splits
        intro: finish_request_counts)
  show ?thesis
  proof (cases "call_deadline c")
    case None
    with assms retry show ?thesis by (simp add: process_polled_def Let_def)
  next
    case (Some d)
    let ?w = "fallback_deregister_time_bounded_io_task (fw_deadlines w d) w"
    have "counts k ?w" using assms(1) by (simp add: fallback_deregister_time_bounded_io_task_def)
    with Some assms(2) show ?thesis
      by (auto simp: process_polled_def Let_def split: if_splits elim!: check_deadline_counts[rotated] dest: retry)
  qed
qed

lemma process_all_counts:
  "counts k w \<Longrightarrow> list_all fst requests \<Longrightarrow> process_all dbg attempts requests w = Some (Inr w') \<Longrightarrow> counts k w'"
proof (induction requests arbitrary: w)
  case (Cons r rs)
  obtain c ptr where r: "r = (True, c, ptr)" using Cons.prems(2) by (cases r) auto
  from Cons.prems(3) obtain v where v: "process_polled dbg attempts (True, c, ptr) w = Some (Inr v)"
    "process_all dbg attempts rs v = Some (Inr w')" by (auto simp: bindO_Inr r)
  show ?case using Cons.IH[OF process_ready_counts[OF Cons.prems(1) v(1)] _ v(2)] Cons.prems(2) by simp
qed simp

lemma expire_one_counts:
  assumes "counts 0 w" "poller_deregister s slot (fw_poller w) = Inr p"
    "finish_request dbg eff ptr ret (w\<lparr>fw_poller := p\<rparr>) = Inr w1"
    "usize_sub dbg (fw_number_of_active_tasks w1) 1 = Inr n"
  shows "counts 0 (w1\<lparr>fw_number_of_active_tasks := n\<rparr>)"
proof -
  have "s \<in> sockets w" "dom (mp_registered_sockets p) = sockets w - {s}"
    using poller_deregister_both[OF assms(2)] by (simp_all add: sockets_def)
  then have "counts 1 (w\<lparr>fw_poller := p\<rparr>)" using assms(1) card_Suc_Diff1[of "sockets w" s] by (simp add: counts_def sockets_def)
  then have "counts 1 w1" by (rule finish_request_counts[OF assms(3)])
  with assms(4) show ?thesis by (auto simp: counts_def sockets_def)
qed

lemma expire_requests_counts:
  "counts 0 w \<Longrightarrow> expire_requests dbg q w = Inr w' \<Longrightarrow> counts 0 w'"
proof (induction q arbitrary: w)
  case (Cons x q)
  obtain deadline ptr s slot where x: "x = (deadline, ptr, s, slot)" by (cases x) auto
  show ?case
  proof (cases "deadline \<le> fw_last_gotten_time w")
    case True
    with Cons.prems(2) x obtain p w1 n where st: "poller_deregister s slot (fw_poller w) = Inr p"
      "finish_request dbg polled_effect ptr (Inl (FromKind TimedOut)) (w\<lparr>fw_poller := p\<rparr>) = Inr w1"
      "usize_sub dbg (fw_number_of_active_tasks w1) 1 = Inr n"
      and e: "expire_requests dbg q (w1\<lparr>fw_number_of_active_tasks := n\<rparr>) = Inr w'"
      by (auto simp: bindR_Inr_conv)
    from Cons.IH[OF expire_one_counts[OF Cons.prems(1) st] e] show ?thesis .
  next
    case False
    with Cons.prems x show ?thesis by auto
  qed
qed auto

lemma must_poll_counts:
  assumes "counts 0 w" "list_all event_ready events" "fallback_must_poll dbg attempts events now w = Some (Inr w')"
  shows "counts 0 w'"
proof (cases "fw_number_of_active_tasks w = 0")
  case False
  with assms(3) obtain requests p w1 n where
    p: "poller_poll events (fw_poller w) = Inr (requests, p)"
      "process_all dbg attempts requests (w\<lparr>fw_poller := p\<rparr>) = Some (Inr w1)"
      "usize_sub dbg (fw_number_of_active_tasks w1) (length requests) = Inr n"
      "fallback_check_deadlines dbg now (w1\<lparr>fw_number_of_active_tasks := n\<rparr>) = Inr w'"
    by (auto simp: fallback_must_poll_def poll_and_process_def bindO_Inr)
  have "counts (length requests) (w\<lparr>fw_poller := p\<rparr>)" "list_all fst requests"
    using poller_poll_sockets[OF _ p(1)] assms(1,2) by (auto simp: counts_def sockets_def)
  then have "counts (length requests) w1" using process_all_counts p(2) by blast
  with p(3) have "counts 0 (w1\<lparr>fw_number_of_active_tasks := n\<rparr>)" by (auto simp: counts_def sockets_def)
  then have "counts 0 (w1\<lparr>fw_number_of_active_tasks := n, fw_last_gotten_time := now\<rparr>)" by simp
  from expire_requests_counts[OF this] p(4) show ?thesis by (simp add: fallback_check_deadlines_def)
qed (use assms in \<open>simp add: fallback_must_poll_def\<close>)

lemma poll_socket_counts:
  assumes "counts k w"
  shows "poll_socket i c ptr w = Inr w' \<Longrightarrow> counts k w'" and "poll_socket_and_deadline i c ptr w = Inr w' \<Longrightarrow> counts k w'"
  using assms
  by (auto simp: poll_socket_def poll_socket_and_deadline_def bindR_Inr_conv dest: register_counts
      intro: register_deadline_counts)

text \<open>Every method keeps the count.\<close>

lemmas method_counts = handle_io_call_counts handle_io_operation_counts poll_socket_counts

lemma fallback_conns_counts:
  assumes "counts k w" and "fallback_conns dbg attempts m d ptr w = Some (Inr w')" shows "counts k w'"
  using assms by (cases m; cases d) (auto elim!: check_deadline_counts[rotated] dest: method_counts)

lemma fallback_recvs_counts:
  assumes "counts k w" and "fallback_recvs dbg attempts m d ptr w = Some (Inr w')" shows "counts k w'"
  using assms by (cases m; cases d) (auto elim!: check_deadline_counts[rotated] dest: method_counts)

lemma fallback_sends_counts:
  assumes "counts k w" and "fallback_sends dbg attempts m d ptr w = Some (Inr w')" shows "counts k w'"
  using assms by (cases m; cases d) (auto elim!: check_deadline_counts[rotated] dest: method_counts)

lemma fallback_peeks_counts:
  assumes "counts k w" and "fallback_peeks dbg attempts m d ptr w = Some (Inr w')" shows "counts k w'"
  using assms by (cases m; cases d) (auto elim!: check_deadline_counts[rotated] dest: method_counts)

lemma fallback_files_counts:
  assumes "counts k w" and "fallback_files dbg attempts m ptr w = Some (Inr w')" shows "counts k w'"
  using assms by (cases m) (auto dest: method_counts)

lemma fallback_writes_counts:
  assumes "counts k w" and "fallback_writes dbg attempts m ptr w = Some (Inr w')" shows "counts k w'"
  using assms by (cases m) (auto dest: method_counts)

lemma fallback_call_counts:
  assumes "counts k w" and "fallback_call dbg attempts m d ptr w = Some (Inr w')" shows "counts k w'"
  using assms
  by (cases m) (auto dest: fallback_conns_counts fallback_recvs_counts fallback_sends_counts fallback_peeks_counts
      fallback_files_counts fallback_writes_counts)

lemma fallback_do_counts:
  assumes "counts 0 w" "fallback_ok dbg p w" "fallback_do dbg p w = Some (Inr w')" shows "counts 0 w'"
proof (cases p)
  case (MustPollFor a es n)
  with assms(2,3) must_poll_counts[OF assms(1), of es dbg a n w'] show ?thesis by (simp add: fallback_ok_def)
next
  case (CallMethod a m d ptr)
  with assms fallback_call_counts show ?thesis by simp
next
  case (CallSocket a domain sock_type protocol ptr)
  with assms(3) handle_io_operation_counts[OF assms(1)] show ?thesis by (simp add: fallback_socket_def)
qed (use assms in auto)

interpretation fbw: op_system "fallback_step dbg" "fallback_ok dbg" "counts 0"
proof unfold_locales
  fix w p r w'
  assume a: "counts 0 w" "fallback_ok dbg p w" "fallback_step dbg p w = (r, w')"
  then have "fallback_do dbg p w = Some (Inr w')"
    by (auto simp: fallback_ok_def fallback_step_def returned_def split: option.splits sum.splits)
  with a show "counts 0 w'" using fallback_do_counts by blast
qed

section \<open>Properties\<close>

lemma finish_request_fresh:
  assumes "fw_mem w ptr = Some r" "\<not> rd_was_executed r"
  shows "\<exists>r'. rd_ret r' = ret \<and> finish_request dbg eff ptr ret w =
    Inr (w\<lparr>fw_mem := (fw_mem w)(ptr \<mapsto> r'), fw_effects := fw_effects w @ [eff (rd_task r)]\<rparr>)"
  by (rule exI[of _ "if dbg then r\<lparr>rd_ret := ret, rd_was_executed := True\<rparr> else r\<lparr>rd_ret := ret\<rparr>"])
     (use assms in \<open>simp add: finish_request_def io_request_task_def io_request_set_ret_def\<close>)

lemma poll_and_process_single:
  assumes "mp_slots (fw_poller w) slot = Some (c, ptr)" "raw_socket_of c = Some s"
    and "mp_registered_sockets (fw_poller w) s \<noteq> None"
  shows "poll_and_process dbg attempts [single_event slot failed] w =
    bindO (process_polled dbg attempts (\<not> failed, c, ptr) (w\<lparr>fw_poller := polled_away slot s (fw_poller w)\<rparr>))
      (\<lambda>w1. bindO (Some (usize_sub dbg (fw_number_of_active_tasks w1) 1))
        (\<lambda>n. Some (Inr (w1\<lparr>fw_number_of_active_tasks := n\<rparr>))))"
  using poller_poll_single[OF assms]
  by (simp add: poll_and_process_def bindO_def del: poller_poll.simps split: option.splits sum.splits)

definition would_block :: os_fun where
  "would_block op = Inl (RawOs EAGAIN)"

definition received :: os_fun where
  "received op = Inr 5"

text \<open>A worker with one pending \<open>recv\<close> on the socket 3, of a shared task.\<close>

definition waiting_worker :: fallback_worker where
  "waiting_worker = (fallback_worker_new 0)\<lparr>fw_number_of_active_tasks := 1,
     fw_poller := \<lparr>mp_registered_sockets = [3 \<mapsto> (0, Readable)], mp_request_slots = [],
       mp_slots = [0 \<mapsto> (Recv 3 0 8, 1)], mp_next_slot = 1\<rparr>,
     fw_mem := [1 \<mapsto> io_request_new demo_task]\<rparr>"

text \<open>
  C9. As long as the poller reports no error, the number of active tasks of the worker is the number of sockets in its
  poller, after any history of requests, calls with and without deadlines, polls and expired deadlines. So \<open>has_work\<close>
  holds exactly while a socket is registered.
\<close>

theorem fallback_active_counts_sockets:
  assumes "oks (fallback_ok dbg) (fallback_step dbg) ps (fallback_worker_new now)"
    and "run_ops (fallback_step dbg) ps (fallback_worker_new now) = (os, w)"
  shows "finite (sockets w) \<and> fw_number_of_active_tasks w = card (sockets w) \<and>
    (fallback_has_work w \<longleftrightarrow> (\<exists>s. mp_registered_sockets (fw_poller w) s \<noteq> None))"
proof -
  have "counts 0 (fallback_worker_new now)"
    by (simp add: counts_def sockets_def fallback_worker_new_def mio_poller_new_def)
  then have "counts 0 w" using fbw.run_inv assms by blast
  moreover have "sockets w \<noteq> {} \<longleftrightarrow> (\<exists>s. mp_registered_sockets (fw_poller w) s \<noteq> None)"
    unfolding sockets_def by blast
  ultimately show ?thesis by (simp add: counts_def fallback_has_work_def card_gt_0_iff)
qed

theorem fallback_active_counts_sockets_witness:
  "\<exists>w. run_ops (fallback_step True) [NewRequest 1 demo_task, CallMethod [would_block] (RecvMethod (MRecv 3 0 8)) None 1] (fallback_worker_new 0) =
      ([True, True], w) \<and> fw_number_of_active_tasks w = 1 \<and> card (sockets w) = 1 \<and> fallback_has_work w"
proof -
  let ?ps = "[NewRequest 1 demo_task, CallMethod [would_block] (RecvMethod (MRecv 3 0 8)) None 1]"
  obtain w where w: "run_ops (fallback_step True) ?ps (fallback_worker_new 0) = ([True, True], w)"
    and ok: "oks (fallback_ok True) (fallback_step True) ?ps (fallback_worker_new 0)"
    and n: "fw_number_of_active_tasks w = 1"
    by (simp add: fallback_step_def fallback_ok_def returned_def would_block_def EAGAIN_def ETIMEDOUT_def
        register_io_call_to_poller_def poller_register_def unwrap_socket_def write_request_and_get_ptr_def is_recv_pollable_def
        call_deadline_def fallback_worker_new_def mio_poller_new_def)
  from fallback_active_counts_sockets[OF ok w] n w show ?thesis by (auto simp: fallback_has_work_def)
qed

text \<open>
  An error event ends the request twice in the count: with one active request, a debug build panics with an overflow,
  and a release build is left with the largest count, so that the worker claims to have work with no socket
  registered.
\<close>

theorem fallback_error_event_underflows:
  assumes "mp_slots (fw_poller w) slot = Some (c, ptr)"
    and "\<And>s. mp_registered_sockets (fw_poller w) s \<noteq> None \<longleftrightarrow> raw_socket_of c = Some s" and "raw_socket_of c \<noteq> None"
    and "fw_number_of_active_tasks w = 1" and "call_deadline c = None"
    and "fw_mem w ptr = Some r" and "\<not> rd_was_executed r"
  shows "poll_and_process True attempts [single_event slot True] w = Some (Inl Overflow) \<and>
    (\<exists>w'. poll_and_process False attempts [single_event slot True] w = Some (Inr w') \<and>
       fw_number_of_active_tasks w' = usize_max \<and> fallback_has_work w' \<and> sockets w' = {})"
proof -
  obtain s where c: "raw_socket_of c = Some s" using assms(3) by blast
  let ?w = "w\<lparr>fw_poller := polled_away slot s (fw_poller w), fw_number_of_active_tasks := 0\<rparr>"
  have "x = s" if "mp_registered_sockets (fw_poller w) x = Some y" for x y
    using assms(2)[of x] c that by (metis option.distinct(1) option.inject)
  then have none: "sockets ?w = {}" by (auto simp: sockets_def polled_away_def)
  have "fw_mem ?w ptr = Some r" using assms(6) by simp
  note f = finish_request_fresh[OF this assms(7), of "Inl (FromKind OtherKind)" _ polled_effect]
  have "\<exists>w1. process_polled dbg attempts (False, c, ptr) (w\<lparr>fw_poller := polled_away slot s (fw_poller w)\<rparr>) =
      Some (Inr w1) \<and> fw_number_of_active_tasks w1 = 0 \<and> sockets w1 = {}" for dbg
    using f[of dbg] none assms(4,5) by (auto simp: process_polled_def sockets_def)
  then obtain w1 where w1: "process_polled dbg attempts (False, c, ptr)
      (w\<lparr>fw_poller := polled_away slot s (fw_poller w)\<rparr>) = Some (Inr (w1 dbg))"
    "fw_number_of_active_tasks (w1 dbg) = 0" "sockets (w1 dbg) = {}" for dbg by metis
  have "mp_registered_sockets (fw_poller w) s \<noteq> None" using assms(2) c by simp
  note single = poll_and_process_single[OF assms(1) c this, of _ attempts True]
  show ?thesis using w1(3)[of False]
    by (simp add: single w1 bindO_def usize_sub_def fallback_has_work_def sockets_def)
qed

theorem fallback_error_event_underflows_witness:
  "poll_and_process True (\<lambda>_. []) [single_event 0 True] waiting_worker = Some (Inl Overflow) \<and>
   (\<exists>w'. poll_and_process False (\<lambda>_. []) [single_event 0 True] waiting_worker = Some (Inr w') \<and>
      fw_number_of_active_tasks w' = usize_max \<and> fallback_has_work w' \<and> sockets w' = {})"
  by (rule fallback_error_event_underflows[of waiting_worker 0 "Recv 3 0 8" 1 "io_request_new demo_task"])
     (simp_all add: waiting_worker_def call_deadline_def io_request_new_def)

text \<open>
  C38. A shared task whose call is retried by a poll of the executor is lost when the retry succeeds: the worker only
  leaves the call that queues the current task, but no task is current. The executor gets no task, and the call queues
  the next task that returns \<open>Pending\<close> instead, whatever that task waits for.
\<close>

theorem fallback_retried_shared_task_lost:
  assumes "mp_slots (fw_poller w) slot = Some (c, ptr)"
    and "raw_socket_of c = Some s" and "mp_registered_sockets (fw_poller w) s \<noteq> None"
    and "fw_number_of_active_tasks w \<ge> 1" and "call_deadline c = None" and "must_retry c = Inr True"
    and "fw_mem w ptr = Some r" and "\<not> rd_was_executed r" and "\<not> task_is_local (rd_task r)"
    and "attempts ptr = os # rest" and "do_io_work os c = Inr (Inr n)" and "idle e"
  shows "\<exists>w' e'. poll_and_process dbg attempts [single_event slot False] w = Some (Inr w') \<and>
    fw_effects w' = fw_effects w @ [InvokePushCurrentTask] \<and>
    mp_registered_sockets (fw_poller w') s = None \<and>
    apply_io_effect dbg free exec InvokePushCurrentTask e = Some (Inr e') \<and>
    tasks_of L e' = tasks_of L e \<and>
    (\<forall>u. handle_call dbg free exec u e' = Some (Inr (e\<lparr>ex_shared_tasks := u # ex_shared_tasks e\<rparr>)))"
proof -
  let ?w = "w\<lparr>fw_poller := polled_away slot s (fw_poller w)\<rparr>"
  let ?e = "e\<lparr>ex_current_call := PushCurrentTaskAtTheStartOfLIFOSharedQueue\<rparr>"
  have "fw_mem ?w ptr = Some r" using assms(7) by simp
  from finish_request_fresh[OF this assms(8), of "Inr n" dbg running_effect] assms(9)
  obtain r' where "finish_request dbg running_effect ptr (Inr n) ?w =
      Inr (?w\<lparr>fw_mem := (fw_mem w)(ptr \<mapsto> r'), fw_effects := fw_effects w @ [InvokePushCurrentTask]\<rparr>)"
    by (auto simp: running_effect_def)
  then have "\<exists>w'. poll_and_process dbg attempts [single_event slot False] w = Some (Inr w') \<and>
    fw_effects w' = fw_effects w @ [InvokePushCurrentTask] \<and>
    mp_registered_sockets (fw_poller w') s = None"
    using assms(4-6,10,11)
    by (simp add: poll_and_process_single[OF assms(1-3)] bindO_def process_polled_def polled_away_def)
  moreover have "apply_io_effect dbg free exec InvokePushCurrentTask e = Some (Inr ?e)"
    using assms(12) by (simp add: invoke_call_def idle_def call_is_none_def)
  moreover have "tasks_of L ?e = tasks_of L e" by (simp add: tasks_of_def)
  moreover have "e\<lparr>ex_current_call := CallNone\<rparr> = e" using assms(12) by (simp add: idle_def)
  then have "handle_call dbg free exec u ?e = Some (Inr (e\<lparr>ex_shared_tasks := u # ex_shared_tasks e\<rparr>))" for u
    by (simp add: handle_call_def Let_def)
  ultimately show ?thesis by blast
qed

theorem fallback_retried_shared_task_lost_witness:
  "\<exists>w' e'. poll_and_process True (\<lambda>_. [received]) [single_event 0 False] waiting_worker = Some (Inr w') \<and>
    fw_effects w' = [InvokePushCurrentTask] \<and>
    apply_io_effect True (\<lambda>_. True) queue_exec InvokePushCurrentTask (executor_init 0 demo_config 0 0) = Some (Inr e') \<and>
    tasks_of {} e' = tasks_of {} (executor_init 0 demo_config 0 0)"
proof -
  have "idle (executor_init 0 demo_config 0 0)" by (simp add: idle_def executor_init_def)
  moreover have "\<not> task_is_local demo_task" by (simp add: demo_task_def task_is_local_def task_data_is_local_def)
  ultimately show ?thesis
    using fallback_retried_shared_task_lost[of waiting_worker 0 "Recv 3 0 8" 1 3 "io_request_new demo_task"
        "\<lambda>_. [received]" received "[]" 5 "executor_init 0 demo_config 0 0" True "\<lambda>_. True" queue_exec "{}"]
    by (auto simp: waiting_worker_def call_deadline_def must_retry_def io_request_new_def received_def
        fallback_worker_new_def)
qed

end
