(* ===== verification/Io_Pool_Worker.thy ===== *)
theory Io_Pool_Worker
  imports Io_Fallback
begin

text \<open>
  The fallback worker of the feature \<open>fallback_thread_pool\<close>
  (\<open>src/src/io/sys/fallback/with_thread_pool/worker_with_thread_pool.rs\<close>): threads execute the calls; a call that would
  block goes to the poller and back to a thread when its socket is ready. The worker owns a channel to each thread
  and a list of completions that they share.

  The steps of the threads interleave with those of the worker in any order. The channels and the lock of the list are
  those of the libraries: a channel is a queue, and taking the list is one step.
\<close>

section \<open>State\<close>

datatype worker_result = Done task | MustPoll io_call request_ptr

text \<open>The calls in the channel of each thread, and what each thread executes.\<close>

record pool_worker = fallback_worker +
  pw_workers :: "(io_call \<times> request_ptr) list list"
  pw_threads :: "(io_call \<times> request_ptr) option list"
  pw_completions :: "worker_result list"

definition pool_worker_new :: "nat \<Rightarrow> nat \<Rightarrow> pool_worker" where
  "pool_worker_new number_of_threads now =
     \<lparr>fw_number_of_active_tasks = 0, fw_poller = mio_poller_new, fw_time_bounded_io_task_queue = [],
      fw_last_gotten_time = now, fw_mem = (\<lambda>_. None), fw_deadlines = (\<lambda>_. 0), fw_effects = [],
      pw_workers = replicate number_of_threads [], pw_threads = replicate number_of_threads None, pw_completions = []\<rparr>"

section \<open>A thread\<close>

text \<open>
  A thread waits for a call, then tries it until it is not interrupted. The completion is the task of the request, with
  the result in its data, or the call to poll for.
\<close>

definition thread_worker_recv :: "nat \<Rightarrow> pool_worker \<Rightarrow> pool_worker" where
  "thread_worker_recv i w =
     (case (pw_threads w ! i, pw_workers w ! i) of
        (None, call # rest) \<Rightarrow>
          w\<lparr>pw_threads := (pw_threads w)[i := Some call], pw_workers := (pw_workers w)[i := rest]\<rparr>
      | _ \<Rightarrow> w)"

definition thread_worker_push :: "nat \<Rightarrow> worker_result \<Rightarrow> pool_worker \<Rightarrow> pool_worker" where
  "thread_worker_push i completion w =
     w\<lparr>pw_threads := (pw_threads w)[i := None], pw_completions := pw_completions w @ [completion]\<rparr>"

definition thread_worker_done :: "bool \<Rightarrow> nat \<Rightarrow> request_ptr \<Rightarrow> io_result \<Rightarrow> pool_worker \<Rightarrow> pool_worker res" where
  "thread_worker_done dbg i data_ptr ret w =
     (case fw_mem w data_ptr of
        None \<Rightarrow> Inl Undefined
      | Some data \<Rightarrow>
          bindR (io_request_task dbg (io_request_set_ret ret data)) (\<lambda>(t, data').
            Inr (thread_worker_push i (Done t) (w\<lparr>fw_mem := (fw_mem w)(data_ptr \<mapsto> data')\<rparr>))))"

definition thread_worker_try :: "bool \<Rightarrow> os_fun \<Rightarrow> nat \<Rightarrow> pool_worker \<Rightarrow> pool_worker res" where
  "thread_worker_try dbg os i w =
     (case pw_threads w ! i of
        None \<Rightarrow> Inr w
      | Some (call, data_ptr) \<Rightarrow>
          bindR (do_io_work os call) (\<lambda>result. case result of
              Inr res \<Rightarrow> thread_worker_done dbg i data_ptr (Inr res) w
            | Inl err \<Rightarrow>
                if io_error_kind_of err = WouldBlock then Inr (thread_worker_push i (MustPoll call data_ptr) w)
                else if io_error_kind_of err = Interrupted then Inr w
                else if err = RawOs EINPROGRESS then Inr (thread_worker_push i (MustPoll call data_ptr) w)
                else thread_worker_done dbg i data_ptr (Inl err) w))"

section \<open>The worker\<close>

text \<open>The index of a thread is a remainder: without threads this is a division by zero.\<close>

definition push_to_worker_pool :: "io_call \<Rightarrow> request_ptr \<Rightarrow> pool_worker \<Rightarrow> pool_worker res" where
  "push_to_worker_pool call ptr w =
     (if pw_workers w = [] then Inl Asserted
      else let i = fw_number_of_active_tasks w mod length (pw_workers w) in
        Inr (w\<lparr>pw_workers := (pw_workers w)[i := pw_workers w ! i @ [(call, ptr)]],
               fw_number_of_active_tasks := fw_number_of_active_tasks w + 1\<rparr>))"

definition pool_check_deadline_and ::
  "bool \<Rightarrow> nat \<Rightarrow> request_ptr \<Rightarrow> (pool_worker \<Rightarrow> pool_worker res) \<Rightarrow> pool_worker \<Rightarrow> pool_worker res" where
  "pool_check_deadline_and dbg deadline ptr op w =
     (if fw_last_gotten_time w < deadline then op w
      else finish_request dbg running_effect ptr (Inl (FromKind TimedOut)) w)"

definition push_to_worker_pool_with_deadline :: "bool \<Rightarrow> io_call \<Rightarrow> request_ptr \<Rightarrow> pool_worker \<Rightarrow> pool_worker res" where
  "push_to_worker_pool_with_deadline dbg call ptr w =
     (case call_deadline call of
        None \<Rightarrow> Inl (if dbg then DebugAssert else Asserted)
      | Some d \<Rightarrow> pool_check_deadline_and dbg (fw_deadlines w d) ptr (push_to_worker_pool call ptr) w)"

text \<open>Registering a deadline and expiring deadlines are the same code as in the worker without threads.\<close>

definition pool_register_deadline :: "nat \<Rightarrow> pool_worker \<Rightarrow> pool_worker res" where
  "pool_register_deadline slot w = fallback_register_deadline slot w"

definition pool_check_deadlines :: "bool \<Rightarrow> nat \<Rightarrow> pool_worker \<Rightarrow> pool_worker res" where
  "pool_check_deadlines dbg now w = fallback_check_deadlines dbg now w"

definition pool_schedule_io_call_that_not_retriable ::
  "bool \<Rightarrow> io_call \<Rightarrow> request_ptr \<Rightarrow> pool_worker \<Rightarrow> pool_worker res" where
  "pool_schedule_io_call_that_not_retriable dbg c ptr w =
     bindR (if dbg then must_retry c else Inr False) (\<lambda>retry.
       if retry then Inl DebugAssert
       else bindR (usize_sub dbg (fw_number_of_active_tasks w) 1) (\<lambda>n.
         finish_request dbg polled_effect ptr (Inr 0) (w\<lparr>fw_number_of_active_tasks := n\<rparr>)))"

text \<open>Removing the deadline of a polled request; it has to be there.\<close>

definition remove_deadline :: "nat \<Rightarrow> pool_worker \<Rightarrow> pool_worker res" where
  "remove_deadline d w =
     (case time_bounded_remove d (fw_time_bounded_io_task_queue w) of
        (True, q) \<Rightarrow> Inr (w\<lparr>fw_time_bounded_io_task_queue := q\<rparr>)
      | (False, _) \<Rightarrow> Inl Asserted)"

definition pool_retry :: "bool \<Rightarrow> io_call \<Rightarrow> request_ptr \<Rightarrow> pool_worker \<Rightarrow> pool_worker res" where
  "pool_retry dbg c ptr w =
     bindR (must_retry c) (\<lambda>retry.
       if retry then push_to_worker_pool c ptr w else pool_schedule_io_call_that_not_retriable dbg c ptr w)"

text \<open>A polled request, and whether it did I/O work.\<close>

definition pool_process_polled ::
  "bool \<Rightarrow> bool \<times> io_call \<times> request_ptr \<Rightarrow> pool_worker \<Rightarrow> (bool \<times> pool_worker) res" where
  "pool_process_polled dbg request w =
     (case request of (result, c, ptr) \<Rightarrow>
       if result then
         (case map_option (fw_deadlines w) (call_deadline c) of
            Some d \<Rightarrow>
              bindR (remove_deadline d w) (\<lambda>w1.
              bindR (pool_check_deadline_and dbg d ptr (pool_retry dbg c ptr) w1) (\<lambda>w2.
                Inr (fw_last_gotten_time w1 < d \<and> must_retry c = Inr False, w2)))
          | None \<Rightarrow> bindR (pool_retry dbg c ptr w) (\<lambda>w1. Inr (must_retry c = Inr False, w1)))
       else
         bindR (case map_option (fw_deadlines w) (call_deadline c) of Some d \<Rightarrow> remove_deadline d w | None \<Rightarrow> Inr w) (\<lambda>w1.
         bindR (usize_sub dbg (fw_number_of_active_tasks w1) 1) (\<lambda>n.
         bindR (finish_request dbg polled_effect ptr (Inl (FromKind OtherKind)) (w1\<lparr>fw_number_of_active_tasks := n\<rparr>)) (\<lambda>w2.
           Inr (True, w2)))))"

fun pool_process_all ::
  "bool \<Rightarrow> (bool \<times> io_call \<times> request_ptr) list \<Rightarrow> bool \<Rightarrow> pool_worker \<Rightarrow> (bool \<times> pool_worker) res" where
  "pool_process_all dbg [] have_done w = Inr (have_done, w)"
| "pool_process_all dbg (r # rs) have_done w =
     bindR (pool_process_polled dbg r w) (\<lambda>(did, w1). pool_process_all dbg rs (have_done \<or> did) w1)"

definition pool_poll_and_process :: "bool \<Rightarrow> poll_event list \<Rightarrow> pool_worker \<Rightarrow> (bool \<times> pool_worker) res" where
  "pool_poll_and_process dbg events w =
     bindR (poller_poll events (fw_poller w)) (\<lambda>(requests, p). pool_process_all dbg requests False (w\<lparr>fw_poller := p\<rparr>))"

text \<open>The completions, after they were taken from the list and subtracted from the count.\<close>

definition completion_interest :: "io_call \<Rightarrow> interest res" where
  "completion_interest c =
     (if is_recv_pollable c then Inr Readable else if is_send_pollable c then Inr Writable
      else if is_both_pollable c then Inr ReadWrite else Inl Asserted)"

definition pool_process_completion :: "bool \<Rightarrow> worker_result \<Rightarrow> pool_worker \<Rightarrow> (bool \<times> pool_worker) res" where
  "pool_process_completion dbg result w =
     (case result of
        Done t \<Rightarrow> Inr (True, w\<lparr>fw_effects := fw_effects w @ [polled_effect t]\<rparr>)
      | MustPoll c ptr \<Rightarrow>
          if dbg \<and> \<not> (is_recv_pollable c \<or> is_send_pollable c \<or> is_both_pollable c) then Inl DebugAssert
          else
            bindR (completion_interest c) (\<lambda>i.
            bindR (poller_register i (c, ptr) (fw_poller w)) (\<lambda>(slot, p).
              let w1 = w\<lparr>fw_number_of_active_tasks := fw_number_of_active_tasks w + 1, fw_poller := p\<rparr> in
              bindR (if call_deadline c \<noteq> None then pool_register_deadline slot w1 else Inr w1) (\<lambda>w2.
                Inr (False, w2)))))"

fun pool_process_completions :: "bool \<Rightarrow> worker_result list \<Rightarrow> bool \<Rightarrow> pool_worker \<Rightarrow> (bool \<times> pool_worker) res" where
  "pool_process_completions dbg [] have_done w = Inr (have_done, w)"
| "pool_process_completions dbg (r # rs) have_done w =
     bindR (pool_process_completion dbg r w) (\<lambda>(did, w1). pool_process_completions dbg rs (have_done \<or> did) w1)"

definition synced_completions :: "pool_worker \<Rightarrow> worker_result list \<times> pool_worker" where
  "synced_completions w = (pw_completions w, w\<lparr>pw_completions := []\<rparr>)"

definition pool_take_completions :: "bool \<Rightarrow> bool \<Rightarrow> pool_worker \<Rightarrow> (bool \<times> pool_worker) res" where
  "pool_take_completions dbg have_done w =
     (case synced_completions w of (completions, w1) \<Rightarrow>
       bindR (usize_sub dbg (fw_number_of_active_tasks w1) (length completions)) (\<lambda>n.
         pool_process_completions dbg completions have_done (w1\<lparr>fw_number_of_active_tasks := n\<rparr>)))"

text \<open>
  A round of a poll: the events, the time after them, and the steps of the threads before the worker takes the
  completions.
\<close>

datatype thread_op = ThreadRecv nat | ThreadTry os_fun nat

fun thread_step :: "bool \<Rightarrow> thread_op \<Rightarrow> pool_worker \<Rightarrow> pool_worker res" where
  "thread_step dbg (ThreadRecv i) w = Inr (thread_worker_recv i w)"
| "thread_step dbg (ThreadTry os i) w = thread_worker_try dbg os i w"

fun thread_steps :: "bool \<Rightarrow> thread_op list \<Rightarrow> pool_worker \<Rightarrow> pool_worker res" where
  "thread_steps dbg [] w = Inr w"
| "thread_steps dbg (s # ss) w = bindR (thread_step dbg s w) (thread_steps dbg ss)"

type_synonym poll_round = "poll_event list \<times> nat \<times> thread_op list"

definition pool_must_poll_round :: "bool \<Rightarrow> poll_round \<Rightarrow> pool_worker \<Rightarrow> (bool \<times> pool_worker) res" where
  "pool_must_poll_round dbg round w =
     (case round of (events, now, steps) \<Rightarrow>
       bindR (pool_poll_and_process dbg events w) (\<lambda>(have_done, w1).
       bindR (pool_check_deadlines dbg now w1) (\<lambda>w2.
       bindR (thread_steps dbg steps w2) (\<lambda>w3. pool_take_completions dbg have_done w3))))"

text \<open>
  The loop of \<open>must_poll\<close> after the first round. \<open>rounds i t\<close> is what happens in round \<open>i\<close>, which waits for at
  most \<open>t\<close> nanoseconds; the result has the sum of these times.
\<close>

definition MAX_DIFF :: nat where "MAX_DIFF = 10000000"

definition next_diff :: "nat \<Rightarrow> nat" where
  "next_diff diff = (if MAX_DIFF < diff * 2 then MAX_DIFF else diff * 2)"

partial_function (option) pool_poll_loop ::
  "bool \<Rightarrow> (nat \<Rightarrow> nat \<Rightarrow> poll_round) \<Rightarrow> nat \<Rightarrow> nat \<Rightarrow> nat \<Rightarrow> nat \<Rightarrow> pool_worker \<Rightarrow> (nat \<times> pool_worker) res option" where
  "pool_poll_loop dbg rounds i waited timeout diff w =
     (if timeout = 0 then Some (Inr (waited, w))
      else case pool_must_poll_round dbg (rounds i (min timeout diff)) w of
        Inl p \<Rightarrow> Some (Inl p)
      | Inr r \<Rightarrow>
          if fst r then Some (Inr (waited + min timeout diff, snd r))
          else pool_poll_loop dbg rounds (i + 1) (waited + min timeout diff) (timeout - diff) (next_diff diff) (snd r))"

definition pool_must_poll ::
  "bool \<Rightarrow> (nat \<Rightarrow> nat \<Rightarrow> poll_round) \<Rightarrow> nat option \<Rightarrow> pool_worker \<Rightarrow> (nat \<times> pool_worker) res option" where
  "pool_must_poll dbg rounds timeout_option w =
     (if fw_number_of_active_tasks w = 0 then Some (Inr (0, w))
      else let timeout = (case timeout_option of None \<Rightarrow> 0 | Some t \<Rightarrow> t); diff = 16000 in
        case pool_must_poll_round dbg (rounds 0 (min timeout diff)) w of
          Inl p \<Rightarrow> Some (Inl p)
        | Inr r \<Rightarrow>
            if fst r then Some (Inr (min timeout diff, snd r))
            else pool_poll_loop dbg rounds 1 (min timeout diff) (timeout - diff) diff (snd r))"

section \<open>The operations\<close>

definition pool_socket :: "int \<Rightarrow> int \<Rightarrow> int \<Rightarrow> request_ptr \<Rightarrow> pool_worker \<Rightarrow> pool_worker res" where
  "pool_socket domain sock_type protocol = push_to_worker_pool (Socket domain sock_type protocol)"

fun pool_conns ::
  "bool \<Rightarrow> conn_method \<Rightarrow> deadline_ptr option \<Rightarrow> request_ptr \<Rightarrow> pool_worker \<Rightarrow> pool_worker res" where
  "pool_conns dbg (MAccept s a l) None = push_to_worker_pool (Accept s a l)"
| "pool_conns dbg (MAccept s a l) (Some deadline) = push_to_worker_pool_with_deadline dbg (AcceptWithDeadline s a l deadline)"
| "pool_conns dbg (MConnect s a l) None = push_to_worker_pool (Connect s a l)"
| "pool_conns dbg (MConnect s a l) (Some deadline) = push_to_worker_pool_with_deadline dbg (ConnectWithDeadline s a l deadline)"
| "pool_conns dbg (MPollSocketRead s) None = poll_socket Readable (PollRecv s)"
| "pool_conns dbg (MPollSocketRead s) (Some deadline) = (\<lambda>ptr w.
     pool_check_deadline_and dbg (fw_deadlines w deadline) ptr (poll_socket_and_deadline Readable (PollRecvWithDeadline s deadline) ptr) w)"
| "pool_conns dbg (MPollSocketWrite s) None = poll_socket Writable (PollSend s)"
| "pool_conns dbg (MPollSocketWrite s) (Some deadline) = (\<lambda>ptr w.
     pool_check_deadline_and dbg (fw_deadlines w deadline) ptr (poll_socket_and_deadline Writable (PollSendWithDeadline s deadline) ptr) w)"

fun pool_recvs ::
  "bool \<Rightarrow> recv_method \<Rightarrow> deadline_ptr option \<Rightarrow> request_ptr \<Rightarrow> pool_worker \<Rightarrow> pool_worker res" where
  "pool_recvs dbg (MRecv s p n) None = push_to_worker_pool (Recv s p n)"
| "pool_recvs dbg (MRecv s p n) (Some deadline) = push_to_worker_pool_with_deadline dbg (RecvWithDeadline s p n deadline)"
| "pool_recvs dbg (MRecvFixed s p n b) None = push_to_worker_pool (Recv s p n)"
| "pool_recvs dbg (MRecvFixed s p n b) (Some deadline) = push_to_worker_pool_with_deadline dbg (RecvWithDeadline s p n deadline)"
| "pool_recvs dbg (MRecvFrom s h) None = push_to_worker_pool (RecvFrom s h)"
| "pool_recvs dbg (MRecvFrom s h) (Some deadline) = push_to_worker_pool_with_deadline dbg (RecvFromWithDeadline s h deadline)"

fun pool_sends ::
  "bool \<Rightarrow> send_method \<Rightarrow> deadline_ptr option \<Rightarrow> request_ptr \<Rightarrow> pool_worker \<Rightarrow> pool_worker res" where
  "pool_sends dbg (MSend s p n) None = push_to_worker_pool (Send s p n)"
| "pool_sends dbg (MSend s p n) (Some deadline) = push_to_worker_pool_with_deadline dbg (SendWithDeadline s p n deadline)"
| "pool_sends dbg (MSendFixed s p n b) None = push_to_worker_pool (Send s p n)"
| "pool_sends dbg (MSendFixed s p n b) (Some deadline) = push_to_worker_pool_with_deadline dbg (SendWithDeadline s p n deadline)"
| "pool_sends dbg (MSendTo s h) None = push_to_worker_pool (SendTo s h)"
| "pool_sends dbg (MSendTo s h) (Some deadline) = push_to_worker_pool_with_deadline dbg (SendToWithDeadline s h deadline)"

fun pool_peeks ::
  "bool \<Rightarrow> peek_method \<Rightarrow> deadline_ptr option \<Rightarrow> request_ptr \<Rightarrow> pool_worker \<Rightarrow> pool_worker res" where
  "pool_peeks dbg (MPeek s p n) None = push_to_worker_pool (Peek s p n)"
| "pool_peeks dbg (MPeek s p n) (Some deadline) = push_to_worker_pool_with_deadline dbg (PeekWithDeadline s p n deadline)"
| "pool_peeks dbg (MPeekFixed s p n b) None = push_to_worker_pool (Peek s p n)"
| "pool_peeks dbg (MPeekFixed s p n b) (Some deadline) = push_to_worker_pool_with_deadline dbg (PeekWithDeadline s p n deadline)"
| "pool_peeks dbg (MPeekFrom s h) None = push_to_worker_pool (PeekFrom s h)"
| "pool_peeks dbg (MPeekFrom s h) (Some deadline) = push_to_worker_pool_with_deadline dbg (PeekFromWithDeadline s h deadline)"

fun pool_files :: "file_method \<Rightarrow> request_ptr \<Rightarrow> pool_worker \<Rightarrow> pool_worker res" where
  "pool_files (MShutdown s how) = push_to_worker_pool (Shutdown s how)"
| "pool_files (MOpen path open_how) = push_to_worker_pool (Open path open_how)"
| "pool_files (MFallocate file offset n flags) = push_to_worker_pool Fallocate"
| "pool_files (MSyncAll file) = push_to_worker_pool (FAllSync file)"
| "pool_files (MSyncData file) = push_to_worker_pool (FDataSync file)"
| "pool_files (MRead file p n) = push_to_worker_pool (Read file p n)"
| "pool_files (MReadFixed file p n b) = push_to_worker_pool (Read file p n)"
| "pool_files (MPread file p n offset) = push_to_worker_pool (PRead file p n offset)"
| "pool_files (MPreadFixed file p n b offset) = push_to_worker_pool (PRead file p n offset)"

fun pool_writes :: "write_method \<Rightarrow> request_ptr \<Rightarrow> pool_worker \<Rightarrow> pool_worker res" where
  "pool_writes (MWrite file p n) = push_to_worker_pool (Write file p n)"
| "pool_writes (MWriteFixed file p n b) = push_to_worker_pool (Write file p n)"
| "pool_writes (MPwrite file p n offset) = push_to_worker_pool (PWrite file p n offset)"
| "pool_writes (MPwriteFixed file p n b offset) = push_to_worker_pool (PWrite file p n offset)"
| "pool_writes (MCloseFile file) = push_to_worker_pool (CloseFile file)"
| "pool_writes (MCloseSocket s) = push_to_worker_pool (CloseSocket s)"
| "pool_writes (MRename old_path new_path) = push_to_worker_pool (Rename old_path new_path)"
| "pool_writes (MCreateDir path mode) = push_to_worker_pool (CreateDir path mode)"
| "pool_writes (MRemoveFile path) = push_to_worker_pool (RemoveFile path)"
| "pool_writes (MRemoveDir path) = push_to_worker_pool (RemoveDir path)"

fun pool_call ::
  "bool \<Rightarrow> io_method \<Rightarrow> deadline_ptr option \<Rightarrow> request_ptr \<Rightarrow> pool_worker \<Rightarrow> pool_worker res" where
  "pool_call dbg (ConnMethod m) d = pool_conns dbg m d"
| "pool_call dbg (RecvMethod m) d = pool_recvs dbg m d"
| "pool_call dbg (SendMethod m) d = pool_sends dbg m d"
| "pool_call dbg (PeekMethod m) d = pool_peeks dbg m d"
| "pool_call dbg (FileMethod m) d = pool_files m"
| "pool_call dbg (WriteMethod m) d = pool_writes m"

end
