(* ===== verification/Io_Pool_Safety.thy ===== *)
theory Io_Pool_Safety
  imports Io_Pool_Worker
begin

text \<open>
  The fallback worker with a thread pool resumes every task once. A call moves between the channels, the threads, the
  completions and the poller; the invariant says that no two calls share a request, a deadline or a socket, that the
  deadlines registered are those of the calls in the poller, and that the count of active tasks covers all calls.
\<close>

section \<open>Deadlines of the calls in the poller\<close>

type_synonym deadline_entry = "nat \<times> request_ptr \<times> fd \<times> nat"

definition entry_of :: "(deadline_ptr \<Rightarrow> nat) \<Rightarrow> live_call \<Rightarrow> deadline_entry set" where
  "entry_of dl x = (case x of (c, ptr, s, slot) \<Rightarrow> case call_deadline c of None \<Rightarrow> {} | Some d \<Rightarrow> {(dl d, ptr, s, slot)})"

definition deadlines_ok :: "deadline_entry list \<Rightarrow> (deadline_ptr \<Rightarrow> nat) \<Rightarrow> live_call set \<Rightarrow> bool" where
  "deadlines_ok q dl X \<longleftrightarrow> deadlines_wf q \<and> set q = (\<Union>x \<in> X. entry_of dl x)"

lemma entry_of_Some: "e \<in> entry_of dl x \<longleftrightarrow>
  (\<exists>c ptr s slot d. x = (c, ptr, s, slot) \<and> call_deadline c = Some d \<and> e = (dl d, ptr, s, slot))"
  by (auto simp: entry_of_def split: option.splits)

lemma deadlines_ok_insert_None:
  "call_deadline c = None \<Longrightarrow> deadlines_ok q dl (insert (c, ptr, s, slot) X) \<longleftrightarrow> deadlines_ok q dl X"
  by (simp add: deadlines_ok_def entry_of_def)

lemma deadlines_ok_cong:
  assumes "\<And>x d. x \<in> X \<Longrightarrow> call_deadline (fst x) = Some d \<Longrightarrow> dl' d = dl d"
  shows "deadlines_ok q dl' X = deadlines_ok q dl X"
proof -
  have "entry_of dl' x = entry_of dl x" if "x \<in> X" for x
    using assms[OF that] by (cases x) (auto simp: entry_of_def split: option.splits)
  then show ?thesis by (simp add: deadlines_ok_def)
qed

lemma deadlines_ok_register:
  assumes "deadlines_ok q dl X" and "call_deadline c = Some d" and "\<forall>x \<in> X. call_deadline (fst x) \<noteq> Some d"
    and "register_deadline (dl d) (ptr, s, slot) q = (d', q')"
  shows "deadlines_ok q' (dl(d := d')) (insert (c, ptr, s, slot) X)"
proof -
  have r: "deadlines_wf q'" "mset q' = add_mset (d', ptr, s, slot) (mset q)"
    using register_deadline_ok[OF _ assms(4)] assms(1) by (simp_all add: deadlines_ok_def)
  then have q': "deadlines_wf q'" "set q' = insert (d', ptr, s, slot) (set q)"
    by (simp, metis set_mset_add_mset_insert set_mset_mset)
  have "deadlines_ok q (dl(d := d')) X = deadlines_ok q dl X" by (rule deadlines_ok_cong) (use assms(3) in auto)
  with assms(1,2) q' show ?thesis by (auto simp: deadlines_ok_def entry_of_def)
qed

lemma deadlines_ok_key:
  assumes "deadlines_ok q dl X" and "e \<in> set q" and "e' \<in> set q" and "fst e = fst e'" shows "e = e'"
proof -
  have "distinct (map fst q)" using assms(1) by (simp add: deadlines_ok_def deadlines_wf_distinct)
  with assms(2-4) show ?thesis by (metis eq_key_imp_eq_value prod.collapse)
qed

lemma deadlines_ok_remove:
  assumes "deadlines_ok q dl (insert (c, ptr, s, slot) X)" and "call_deadline c = Some d" and "\<forall>x \<in> X. fst (snd x) \<noteq> ptr"
  shows "time_bounded_remove (dl d) q = (True, filter (\<lambda>(k, _). k \<noteq> dl d) q)"
    and "deadlines_ok (filter (\<lambda>(k, _). k \<noteq> dl d) q) dl X"
proof -
  have e: "(dl d, ptr, s, slot) \<in> set q" using assms(1,2) by (auto simp: deadlines_ok_def entry_of_def)
  then show "time_bounded_remove (dl d) q = (True, filter (\<lambda>(k, _). k \<noteq> dl d) q)"
    by (force simp: time_bounded_remove_def)
  have q: "set q = insert (dl d, ptr, s, slot) (\<Union>x \<in> X. entry_of dl x)"
    using assms(1,2) by (simp add: deadlines_ok_def entry_of_def)
  have "k \<noteq> dl d" if "(k, v) \<in> entry_of dl x" "x \<in> X" for k v x
  proof
    assume "k = dl d"
    have "(k, v) \<in> set q" using that q by blast
    then have "(k, v) = (dl d, ptr, s, slot)" using deadlines_ok_key[OF assms(1) _ e] \<open>k = dl d\<close> by simp
    with that assms(3) show False by (auto simp: entry_of_Some)
  qed
  with q have "set (filter (\<lambda>(k, _). k \<noteq> dl d) q) = (\<Union>x \<in> X. entry_of dl x)" by fastforce
  then show "deadlines_ok (filter (\<lambda>(k, _). k \<noteq> dl d) q) dl X"
    using assms(1) deadlines_wf_filter by (auto simp: deadlines_ok_def)
qed

lemma deadlines_ok_head:
  assumes "deadlines_ok ((k, ptr, s, slot) # q) dl X" and "inj_on (\<lambda>x. fst (snd x)) X"
  obtains c where "(c, ptr, s, slot) \<in> X" "deadlines_ok q dl (X - {(c, ptr, s, slot)})"
proof -
  obtain c d where x: "(c, ptr, s, slot) \<in> X" "call_deadline c = Some d" "k = dl d"
  proof -
    have "(k, ptr, s, slot) \<in> (\<Union>x \<in> X. entry_of dl x)" using assms(1) unfolding deadlines_ok_def by (metis list.set_intros(1))
    then obtain y where "y \<in> X" "(k, ptr, s, slot) \<in> entry_of dl y" by blast
    with that show ?thesis by (auto simp: entry_of_Some)
  qed
  let ?X = "X - {(c, ptr, s, slot)}"
  have X: "insert (c, ptr, s, slot) ?X = X" using x(1) by blast
  have "\<forall>y \<in> ?X. fst (snd y) \<noteq> ptr" using inj_onD[OF assms(2), of _ "(c, ptr, s, slot)"] x(1) by auto
  with X assms(1) have "deadlines_ok (filter (\<lambda>(k', _). k' \<noteq> dl d) ((k, ptr, s, slot) # q)) dl ?X"
    using deadlines_ok_remove(2)[of "(k, ptr, s, slot) # q" dl c ptr s slot ?X d] x(2) by metis
  moreover have "filter (\<lambda>(k', _). k' \<noteq> dl d) ((k, ptr, s, slot) # q) = q"
  proof -
    have "k \<notin> fst ` set q" using assms(1) by (auto simp: deadlines_ok_def)
    then have "\<forall>y \<in> set q. (case y of (k', _) \<Rightarrow> k' \<noteq> dl d)" using x(3) by force
    then show ?thesis using x(3) by (simp add: filter_id_conv)
  qed
  ultimately show ?thesis using x(1) that by simp
qed

section \<open>Calls that do not interfere\<close>

text \<open>Two calls are apart when they share no request, no deadline and no socket.\<close>

definition apart :: "io_call \<times> request_ptr \<Rightarrow> io_call \<times> request_ptr \<Rightarrow> bool" where
  "apart x y \<longleftrightarrow> snd x \<noteq> snd y \<and> (call_deadline (fst x) = None \<or> call_deadline (fst x) \<noteq> call_deadline (fst y)) \<and>
     (raw_socket_of (fst x) = None \<or> raw_socket_of (fst x) \<noteq> raw_socket_of (fst y))"

definition all_apart :: "(io_call \<times> request_ptr) multiset \<Rightarrow> bool" where
  "all_apart M \<longleftrightarrow> (\<forall>x \<in># M. \<forall>y \<in># M - {#x#}. apart x y)"

lemma apart_sym: "apart x y \<Longrightarrow> apart y x"
  by (auto simp: apart_def)

lemma all_apart_add: "all_apart (add_mset x M) \<longleftrightarrow> all_apart M \<and> (\<forall>y \<in># M. apart x y)"
proof
  assume a: "all_apart (add_mset x M)"
  have "apart z y" if "z \<in># M" "y \<in># M - {#z#}" for y z
  proof -
    have "y \<in># add_mset x M - {#z#}" using that by (cases "x = z") (auto simp: in_diffD)
    with a that(1) show ?thesis by (auto simp: all_apart_def)
  qed
  with a show "all_apart M \<and> (\<forall>y \<in># M. apart x y)" by (auto simp: all_apart_def)
next
  assume a: "all_apart M \<and> (\<forall>y \<in># M. apart x y)"
  have "apart z y" if z: "z \<in># add_mset x M" and y: "y \<in># add_mset x M - {#z#}" for y z
  proof (cases "z = x")
    case True
    with a y show ?thesis by simp
  next
    case False
    then have "z \<in># M" "y = x \<or> y \<in># M - {#z#}" using z y by auto
    with a show ?thesis by (auto simp: all_apart_def intro: apart_sym)
  qed
  then show "all_apart (add_mset x M)" by (simp add: all_apart_def)
qed

lemma all_apart_empty [simp]: "all_apart {#}"
  by (simp add: all_apart_def)

text \<open>The calls, and the data of their requests: not yet executed, so the task can be taken once.\<close>

definition unfinished :: "request_memory \<Rightarrow> request_ptr \<Rightarrow> bool" where
  "unfinished mem ptr \<longleftrightarrow> (\<exists>r. mem ptr = Some r \<and> \<not> rd_was_executed r)"

definition requests_ok :: "request_memory \<Rightarrow> (io_call \<times> request_ptr) multiset \<Rightarrow> bool" where
  "requests_ok mem M \<longleftrightarrow> all_apart M \<and> (\<forall>x \<in># M. unfinished mem (snd x))"

definition task_at :: "request_memory \<Rightarrow> io_call \<times> request_ptr \<Rightarrow> task" where
  "task_at mem x = rd_task (the (mem (snd x)))"

lemma requests_ok_drop:
  assumes "requests_ok mem (add_mset x M)"
  shows "requests_ok (mem(snd x := r)) M" and "image_mset (task_at (mem(snd x := r))) M = image_mset (task_at mem) M"
proof -
  have "\<forall>y \<in># M. snd y \<noteq> snd x" using assms by (auto simp: requests_ok_def all_apart_add apart_def)
  with assms show "requests_ok (mem(snd x := r)) M" by (auto simp: requests_ok_def all_apart_add unfinished_def)
  show "image_mset (task_at (mem(snd x := r))) M = image_mset (task_at mem) M"
    using \<open>\<forall>y \<in># M. snd y \<noteq> snd x\<close> by (intro image_mset_cong) (simp add: task_at_def)
qed

lemma requests_ok_less: "requests_ok mem (add_mset x M) \<Longrightarrow> requests_ok mem M"
  by (simp add: requests_ok_def all_apart_add)

section \<open>The invariant\<close>

text \<open>A thread can execute every call but those that only poll, which are not retried.\<close>

definition call_runs :: "io_call \<Rightarrow> bool" where
  "call_runs c = (case c of
     PollRecv _ \<Rightarrow> False | PollRecvWithDeadline _ _ \<Rightarrow> False | PollSend _ \<Rightarrow> False | PollSendWithDeadline _ _ \<Rightarrow> False
   | _ \<Rightarrow> True)"

lemma call_runs_returns: "call_runs c \<Longrightarrow> \<exists>r. do_io_work os c = Inr r"
  unfolding call_runs_def by (cases c) simp_all

lemma must_retry_runs: "must_retry c = Inr True \<Longrightarrow> call_runs c"
  unfolding call_runs_def must_retry_def by (cases c) simp_all

definition to_poll :: "worker_result list \<Rightarrow> (io_call \<times> request_ptr) list" where
  "to_poll rs = concat (map (\<lambda>r. case r of MustPoll c ptr \<Rightarrow> [(c, ptr)] | Done _ \<Rightarrow> []) rs)"

definition dones :: "worker_result list \<Rightarrow> task list" where
  "dones rs = concat (map (\<lambda>r. case r of MustPoll _ _ \<Rightarrow> [] | Done t \<Rightarrow> [t]) rs)"

lemma completions_simps [simp]:
  "to_poll [] = []" "to_poll (Done t # rs) = to_poll rs" "to_poll (MustPoll c ptr # rs) = (c, ptr) # to_poll rs"
  "to_poll (rs @ rs') = to_poll rs @ to_poll rs'"
  "dones [] = []" "dones (Done t # rs) = t # dones rs" "dones (MustPoll c ptr # rs) = dones rs"
  "dones (rs @ rs') = dones rs @ dones rs'"
  by (simp_all add: to_poll_def dones_def)

definition thread_call :: "(io_call \<times> request_ptr) option \<Rightarrow> (io_call \<times> request_ptr) list" where
  "thread_call o' = (case o' of None \<Rightarrow> [] | Some x \<Rightarrow> [x])"

lemma thread_call_simps [simp]: "thread_call None = []" "thread_call (Some x) = [x]"
  by (simp_all add: thread_call_def)

text \<open>The calls that a thread has or will get, and all calls.\<close>

definition running_calls :: "pool_worker \<Rightarrow> (io_call \<times> request_ptr) multiset" where
  "running_calls w = mset (concat (pw_workers w)) + mset (concat (map thread_call (pw_threads w)))"

definition pool_calls :: "pool_worker \<Rightarrow> (io_call \<times> request_ptr) multiset" where
  "pool_calls w = running_calls w + mset (to_poll (pw_completions w)) + poller_calls (fw_poller w)"

lemma pool_calls_simps [simp]:
  "running_calls (w\<lparr>fw_mem := m\<rparr>) = running_calls w" "pool_calls (w\<lparr>fw_mem := m\<rparr>) = pool_calls w"
  "running_calls (w\<lparr>fw_effects := es\<rparr>) = running_calls w" "pool_calls (w\<lparr>fw_effects := es\<rparr>) = pool_calls w"
  "running_calls (w\<lparr>fw_number_of_active_tasks := k\<rparr>) = running_calls w"
  "pool_calls (w\<lparr>fw_number_of_active_tasks := k\<rparr>) = pool_calls w"
  "running_calls (w\<lparr>fw_time_bounded_io_task_queue := q\<rparr>) = running_calls w"
  "pool_calls (w\<lparr>fw_time_bounded_io_task_queue := q\<rparr>) = pool_calls w"
  "running_calls (w\<lparr>fw_deadlines := dl\<rparr>) = running_calls w" "pool_calls (w\<lparr>fw_deadlines := dl\<rparr>) = pool_calls w"
  "running_calls (w\<lparr>fw_last_gotten_time := now\<rparr>) = running_calls w"
  "pool_calls (w\<lparr>fw_last_gotten_time := now\<rparr>) = pool_calls w"
  "running_calls (w\<lparr>fw_poller := p\<rparr>) = running_calls w"
  by (simp_all add: running_calls_def pool_calls_def)

text \<open>
  The invariant within an operation, when the calls \<open>P\<close> are in its hands, the deadlines of the calls \<open>D\<close> among them
  are still registered, and \<open>n\<close> of them are still counted.
\<close>

definition pool_state ::
  "(io_call \<times> request_ptr) multiset \<Rightarrow> live_call set \<Rightarrow> nat \<Rightarrow> pool_worker \<Rightarrow> bool" where
  "pool_state P D n w \<longleftrightarrow> pw_workers w \<noteq> [] \<and> length (pw_threads w) = length (pw_workers w) \<and> poller_wf (fw_poller w) \<and>
     requests_ok (fw_mem w) (pool_calls w + P) \<and> (\<forall>x \<in># running_calls w. call_runs (fst x)) \<and>
     (\<forall>x \<in> set (to_poll (pw_completions w)). call_pollable (fst x)) \<and>
     finite D \<and> D \<inter> poller_live (fw_poller w) = {} \<and> image_mset live_request (mset_set D) \<subseteq># P \<and>
     deadlines_ok (fw_time_bounded_io_task_queue w) (fw_deadlines w) (poller_live (fw_poller w) \<union> D) \<and>
     size (pool_calls w) + length (dones (pw_completions w)) + n \<le> fw_number_of_active_tasks w"

abbreviation pool_inv :: "pool_worker \<Rightarrow> bool" where
  "pool_inv w \<equiv> pool_state {#} {} 0 w"

text \<open>The tasks that wait for calls, with those of the completions \<open>ts\<close> in the hands of an operation.\<close>

definition parked :: "(io_call \<times> request_ptr) multiset \<Rightarrow> task list \<Rightarrow> pool_worker \<Rightarrow> task multiset" where
  "parked P ts w = image_mset (task_at (fw_mem w)) (pool_calls w + P) + mset (dones (pw_completions w)) + mset ts"

text \<open>The task that an effect resumes; \<open>cur\<close> is the running task, if there is one.\<close>

fun effect_tasks :: "task list \<Rightarrow> io_effect \<Rightarrow> task list" where
  "effect_tasks cur (ExecIoTask t) = [t]"
| "effect_tasks cur (SpawnIoShared t) = [t]"
| "effect_tasks cur (SpawnIoLocal t) = [t]"
| "effect_tasks cur InvokePushCurrentTask = cur"

definition resumes :: "task list \<Rightarrow> task multiset \<Rightarrow> pool_worker \<Rightarrow> task multiset \<Rightarrow> pool_worker \<Rightarrow> bool" where
  "resumes cur A w B w' \<longleftrightarrow>
     (\<exists>es. fw_effects w' = fw_effects w @ es \<and> A = B + mset (concat (map (effect_tasks cur) es)))"

lemma resumes_refl [simp]: "fw_effects w' = fw_effects w \<Longrightarrow> resumes cur A w B w' \<longleftrightarrow> A = B"
  by (simp add: resumes_def)

lemma resumes_trans:
  assumes "resumes cur A w B w'" and "resumes cur B w' C w''" shows "resumes cur A w C w''"
proof -
  obtain es es' where "fw_effects w' = fw_effects w @ es" "A = B + mset (concat (map (effect_tasks cur) es))"
    "fw_effects w'' = fw_effects w' @ es'" "B = C + mset (concat (map (effect_tasks cur) es'))"
    using assms by (auto simp: resumes_def)
  then show ?thesis by (auto simp: resumes_def ac_simps)
qed

lemma live_requests_inj:
  assumes "all_apart M" and "finite X" and "image_mset live_request (mset_set X) \<subseteq># M"
  shows "inj_on (\<lambda>x. fst (snd x)) X"
proof (rule inj_onI, rule ccontr)
  fix x y
  assume xy: "x \<in> X" "y \<in> X" "fst (snd x) = fst (snd y)" "x \<noteq> y"
  have "mset_set {x, y} \<subseteq># mset_set X" using xy(1,2) assms(2) by (simp add: subset_imp_msubset_mset_set)
  then have "{#x, y#} \<subseteq># mset_set X" using xy(4) by (simp add: add_mset_commute)
  then have "{#live_request x, live_request y#} \<subseteq># M"
    using image_mset_subseteq_mono[of "{#x, y#}" "mset_set X" live_request] assms(3) by (auto intro: subset_mset.trans)
  then obtain M' where "M = {#live_request x, live_request y#} + M'" by (metis mset_subset_eq_exists_conv)
  with assms(1) xy(3) show False by (simp add: all_apart_add apart_def)
qed

section \<open>The steps of an operation\<close>

lemma pool_stateD:
  assumes "pool_state P D n w"
  shows "requests_ok (fw_mem w) (pool_calls w + P)" and "poller_wf (fw_poller w)"
    and "inj_on (\<lambda>x. fst (snd x)) (poller_live (fw_poller w) \<union> D)"
    and "deadlines_ok (fw_time_bounded_io_task_queue w) (fw_deadlines w) (poller_live (fw_poller w) \<union> D)"
    and "size (pool_calls w) + length (dones (pw_completions w)) + n \<le> fw_number_of_active_tasks w"
proof -
  let ?L = "poller_live (fw_poller w)"
  show r: "requests_ok (fw_mem w) (pool_calls w + P)" and wf: "poller_wf (fw_poller w)"
    and "deadlines_ok (fw_time_bounded_io_task_queue w) (fw_deadlines w) (?L \<union> D)"
    and "size (pool_calls w) + length (dones (pw_completions w)) + n \<le> fw_number_of_active_tasks w"
    using assms by (simp_all add: pool_state_def)
  have fin: "finite ?L" "finite D" "?L \<inter> D = {}" "image_mset live_request (mset_set D) \<subseteq># P"
    using finite_poller_live[OF wf] assms by (auto simp: pool_state_def)
  have "image_mset live_request (mset_set (?L \<union> D)) = poller_calls (fw_poller w) + image_mset live_request (mset_set D)"
    using fin(1-3) by (simp add: mset_set_Union poller_calls_def)
  also have "\<dots> \<subseteq># pool_calls w + P" unfolding pool_calls_def using fin(4) by (simp add: subset_mset.add_mono)
  finally show "inj_on (\<lambda>x. fst (snd x)) (?L \<union> D)"
    using r fin(1,2) by (intro live_requests_inj) (auto simp: requests_ok_def)
qed

lemma pool_uncount:
  assumes "pool_state P D (Suc n) w"
  shows "usize_sub dbg (fw_number_of_active_tasks w) 1 = Inr (fw_number_of_active_tasks w - 1)"
    and "pool_state P D n (w\<lparr>fw_number_of_active_tasks := fw_number_of_active_tasks w - 1\<rparr>)"
    and "parked P ts (w\<lparr>fw_number_of_active_tasks := m\<rparr>) = parked P ts w"
proof -
  have "Suc n \<le> fw_number_of_active_tasks w" using assms by (simp add: pool_state_def)
  then show "usize_sub dbg (fw_number_of_active_tasks w) 1 = Inr (fw_number_of_active_tasks w - 1)" by simp
  show "pool_state P D n (w\<lparr>fw_number_of_active_tasks := fw_number_of_active_tasks w - 1\<rparr>)"
    using assms by (auto simp: pool_state_def)
qed (simp add: parked_def)

lemma pool_forget_count: "pool_state P D (Suc n) w \<Longrightarrow> pool_state P D n w"
  by (simp add: pool_state_def)

text \<open>Ending a request in hand resumes its task.\<close>

lemma pool_finish:
  assumes "pool_state (add_mset (c, ptr) P) D n w" and "image_mset live_request (mset_set D) \<subseteq># P"
    and "effect_tasks cur (eff (task_at (fw_mem w) (c, ptr))) = [task_at (fw_mem w) (c, ptr)]"
  shows "\<exists>w'. finish_request dbg eff ptr ret w = Inr w' \<and> pool_state P D n w' \<and>
    resumes cur (parked (add_mset (c, ptr) P) ts w) w (parked P ts w') w'"
proof -
  let ?M = "pool_calls w + P"
  have r: "requests_ok (fw_mem w) (add_mset (c, ptr) ?M)" using assms(1) by (simp add: pool_state_def)
  then obtain d where d: "fw_mem w ptr = Some d" "\<not> rd_was_executed d" by (auto simp: requests_ok_def unfinished_def)
  obtain d' where f: "finish_request dbg eff ptr ret w =
      Inr (w\<lparr>fw_mem := (fw_mem w)(ptr \<mapsto> d'), fw_effects := fw_effects w @ [eff (rd_task d)]\<rparr>)"
    using finish_request_fresh[OF d, of ret dbg eff] by blast
  let ?w = "w\<lparr>fw_mem := (fw_mem w)(ptr \<mapsto> d'), fw_effects := fw_effects w @ [eff (rd_task d)]\<rparr>"
  note drop = requests_ok_drop[OF r, of "Some d'", simplified]
  have "pool_state P D n ?w" using assms(1,2) drop(1) by (simp add: pool_state_def)
  moreover have "resumes cur (parked (add_mset (c, ptr) P) ts w) w (parked P ts ?w) ?w"
    using assms(3) drop(2) d(1) by (simp add: resumes_def parked_def task_at_def)
  ultimately show ?thesis using f by blast
qed

lemma pool_finish_polled:
  assumes "pool_state (add_mset (c, ptr) P) D n w" and "image_mset live_request (mset_set D) \<subseteq># P"
  shows "\<exists>w'. finish_request dbg polled_effect ptr ret w = Inr w' \<and> pool_state P D n w' \<and>
    resumes cur (parked (add_mset (c, ptr) P) ts w) w (parked P ts w') w'"
  by (rule pool_finish[OF assms]) (simp add: polled_effect_def)

text \<open>A call in hand goes to a thread.\<close>

lemma pool_push:
  assumes "pool_state (add_mset (c, ptr) P) D n w" and "image_mset live_request (mset_set D) \<subseteq># P" and "call_runs c"
  shows "\<exists>w'. push_to_worker_pool c ptr w = Inr w' \<and> pool_state P D n w' \<and>
    resumes cur (parked (add_mset (c, ptr) P) ts w) w (parked P ts w') w'"
proof -
  let ?i = "fw_number_of_active_tasks w mod length (pw_workers w)"
  let ?ws = "(pw_workers w)[?i := pw_workers w ! ?i @ [(c, ptr)]]"
  define w' where "w' = w\<lparr>pw_workers := ?ws, fw_number_of_active_tasks := fw_number_of_active_tasks w + 1\<rparr>"
  have ne: "pw_workers w \<noteq> []" using assms(1) by (simp add: pool_state_def)
  then have "?i < length (pw_workers w)" by simp
  from mset_concat_update[OF this, of "pw_workers w ! ?i @ [(c, ptr)]"]
  have "mset (concat ?ws) = add_mset (c, ptr) (mset (concat (pw_workers w)))" by simp
  then have run: "running_calls w' = add_mset (c, ptr) (running_calls w)"
    and calls: "pool_calls w' = add_mset (c, ptr) (pool_calls w)" by (simp_all add: pool_calls_def running_calls_def w'_def)
  have "pool_state P D n w'" using assms ne unfolding pool_state_def calls run by (simp add: w'_def)
  moreover have "parked P ts w' = parked (add_mset (c, ptr) P) ts w" unfolding parked_def calls by (simp add: w'_def)
  moreover have "push_to_worker_pool c ptr w = Inr w'" using ne by (simp add: push_to_worker_pool_def w'_def Let_def)
  ultimately show ?thesis by (intro exI[of _ w']) (simp add: w'_def)
qed

text \<open>A call in hand goes to the poller, with its deadline.\<close>

lemma live_call_apart:
  assumes "pool_state (add_mset x P) D n w" and "image_mset live_request (mset_set D) \<subseteq># P"
    and "y \<in> poller_live (fw_poller w) \<union> D"
  shows "apart x (live_request y)"
proof -
  have fin: "finite (poller_live (fw_poller w))" "finite D"
    using assms(1) finite_poller_live by (auto simp: pool_state_def)
  have "live_request y \<in># pool_calls w + P"
  proof (cases "y \<in> D")
    case True
    then have "live_request y \<in># image_mset live_request (mset_set D)" using fin(2) by simp
    then show ?thesis using mset_subset_eqD[OF assms(2)] by simp
  next
    case False
    then have "live_request y \<in># poller_calls (fw_poller w)" using assms(3) fin(1) by (simp add: poller_calls_def)
    then show ?thesis by (simp add: pool_calls_def)
  qed
  with assms(1) show ?thesis by (simp add: pool_state_def requests_ok_def all_apart_add)
qed

lemma pool_state_register:
  assumes "pool_state (add_mset (c, ptr) P) D n w" and "image_mset live_request (mset_set D) \<subseteq># P"
    and "poller_register i (c, ptr) (fw_poller w) = Inr (slot, p)" and "raw_socket_of c = Some s"
    and "deadlines_ok q dl (insert (c, ptr, s, slot) (poller_live (fw_poller w) \<union> D))"
  defines "w' \<equiv> w\<lparr>fw_number_of_active_tasks := fw_number_of_active_tasks w + 1, fw_poller := p, fw_deadlines := dl,
      fw_time_bounded_io_task_queue := q\<rparr>"
  shows "pool_state P D n w'" and "parked P ts w' = parked (add_mset (c, ptr) P) ts w"
proof -
  have wf: "poller_wf (fw_poller w)" using assms(1) by (simp add: pool_state_def)
  from poller_register_live[OF wf assms(3)] assms(4)
  have live: "poller_live p = insert (c, ptr, s, slot) (poller_live (fw_poller w))" "(c, ptr, s, slot) \<notin> poller_live (fw_poller w)"
    by auto
  have "poller_calls p = add_mset (c, ptr) (poller_calls (fw_poller w))" using poller_calls_insert[OF wf live] by simp
  then have calls: "pool_calls w' = add_mset (c, ptr) (pool_calls w)" and run: "running_calls w' = running_calls w"
    by (simp_all add: pool_calls_def running_calls_def w'_def)
  have "(c, ptr, s, slot) \<notin> D" using live_call_apart[OF assms(1,2), of "(c, ptr, s, slot)"] by (auto simp: apart_def)
  then show "pool_state P D n w'"
    using assms(1,2,5) poller_register_wf[OF wf assms(3)] live(1) unfolding pool_state_def calls run by (auto simp: w'_def)
  show "parked P ts w' = parked (add_mset (c, ptr) P) ts w" unfolding parked_def calls by (simp add: w'_def)
qed

lemma pool_register_returns:
  assumes "pool_state (add_mset (c, ptr) P) D n w" and "image_mset live_request (mset_set D) \<subseteq># P" and "raw_socket_of c = Some s"
  shows "\<exists>slot p. poller_register i (c, ptr) (fw_poller w) = Inr (slot, p)"
proof -
  have wf: "poller_wf (fw_poller w)" using assms(1) by (simp add: pool_state_def)
  have "mp_registered_sockets (fw_poller w) s = None"
  proof (rule ccontr)
    assume "mp_registered_sockets (fw_poller w) s \<noteq> None"
    then obtain slot j where r: "mp_registered_sockets (fw_poller w) s = Some (slot, j)" by auto
    obtain c' ptr' where "mp_slots (fw_poller w) slot = Some (c', ptr')" "raw_socket_of c' = Some s"
      using poller_wfD(3)[OF wf r] by blast
    with r live_call_apart[OF assms(1,2), of "(c', ptr', s, slot)"] assms(3) show False
      by (auto simp: poller_live_def apart_def)
  qed
  with poller_register_returns[OF assms(3) _ wf] show ?thesis by blast
qed

lemma pool_poll_socket:
  assumes "pool_state (add_mset (c, ptr) P) D n w" and "image_mset live_request (mset_set D) \<subseteq># P" and "call_pollable c"
  shows "\<exists>slot p. poller_register i (c, ptr) (fw_poller w) = Inr (slot, p) \<and>
    (\<exists>w'. (if call_deadline c = None then Inr (w\<lparr>fw_number_of_active_tasks := fw_number_of_active_tasks w + 1, fw_poller := p\<rparr>)
      else fallback_register_deadline slot (w\<lparr>fw_number_of_active_tasks := fw_number_of_active_tasks w + 1, fw_poller := p\<rparr>)) = Inr w' \<and>
    pool_state P D n w' \<and> resumes cur (parked (add_mset (c, ptr) P) ts w) w (parked P ts w') w')"
proof -
  obtain s where s: "raw_socket_of c = Some s" using assms(3) by (auto simp: call_pollable_socket)
  obtain slot p where r: "poller_register i (c, ptr) (fw_poller w) = Inr (slot, p)"
    using pool_register_returns[OF assms(1,2) s] by blast
  let ?w = "w\<lparr>fw_number_of_active_tasks := fw_number_of_active_tasks w + 1, fw_poller := p\<rparr>"
  note reg = pool_state_register[OF assms(1,2) r s]
  note dl = pool_stateD(4)[OF assms(1)]
  have "\<exists>w'. (if call_deadline c = None then Inr ?w else fallback_register_deadline slot ?w) = Inr w' \<and>
    pool_state P D n w' \<and> resumes cur (parked (add_mset (c, ptr) P) ts w) w (parked P ts w') w'"
  proof (cases "call_deadline c")
    case None
    with reg[of "fw_time_bounded_io_task_queue w" "fw_deadlines w"] dl show ?thesis
      by (intro exI[of _ "?w"]) (simp add: deadlines_ok_insert_None)
  next
    case (Some d)
    obtain d' q where q: "register_deadline (fw_deadlines w d) (ptr, s, slot) (fw_time_bounded_io_task_queue w) = (d', q)"
      by fastforce
    have "\<forall>y \<in> poller_live (fw_poller w) \<union> D. call_deadline (fst y) \<noteq> Some d"
      using live_call_apart[OF assms(1,2)] Some by (metis apart_def fst_conv option.distinct(1))
    from deadlines_ok_register[OF dl Some this q] reg
    have ok: "pool_state P D n (?w\<lparr>fw_deadlines := (fw_deadlines w)(d := d'), fw_time_bounded_io_task_queue := q\<rparr>)"
      "parked P ts (?w\<lparr>fw_deadlines := (fw_deadlines w)(d := d'), fw_time_bounded_io_task_queue := q\<rparr>) =
        parked (add_mset (c, ptr) P) ts w" by simp_all
    have "mp_slots p slot = Some (c, ptr)" using poller_register_live[OF pool_stateD(2)[OF assms(1)] r] by blast
    then have "fallback_register_deadline slot ?w =
        Inr (?w\<lparr>fw_deadlines := (fw_deadlines w)(d := d'), fw_time_bounded_io_task_queue := q\<rparr>)"
      using Some s q by (simp add: fallback_register_deadline_def)
    with ok Some show ?thesis by simp
  qed
  with r show ?thesis by blast
qed

section \<open>Polling\<close>

text \<open>A polled request first loses its deadline.\<close>

lemma live_requests_less:
  assumes "finite D" and "x \<notin> D" and "image_mset live_request (mset_set (insert x D)) \<subseteq># P"
  shows "image_mset live_request (mset_set D) \<subseteq># P"
  using assms by (auto dest: mset_subset_eq_insertD intro: subset_mset.less_imp_le)

lemma pool_no_deadline:
  assumes "pool_state P (insert (c, ptr, s, slot) D) n w" and "call_deadline c = None" and "(c, ptr, s, slot) \<notin> D"
  shows "pool_state P D n w"
proof -
  have "finite D" "image_mset live_request (mset_set (insert (c, ptr, s, slot) D)) \<subseteq># P"
    using assms(1) by (simp_all add: pool_state_def)
  from live_requests_less[OF this(1) assms(3) this(2)] assms show ?thesis
    by (simp add: pool_state_def deadlines_ok_insert_None)
qed

lemma pool_remove_deadline:
  assumes "pool_state P (insert (c, ptr, s, slot) D) n w" and "call_deadline c = Some d" and "(c, ptr, s, slot) \<notin> D"
  shows "\<exists>w'. remove_deadline (fw_deadlines w d) w = Inr w' \<and> pool_state P D n w' \<and> parked P ts w' = parked P ts w \<and>
    fw_effects w' = fw_effects w \<and> fw_last_gotten_time w' = fw_last_gotten_time w \<and> fw_mem w' = fw_mem w"
proof -
  let ?L = "poller_live (fw_poller w)" and ?x = "(c, ptr, s, slot)"
  let ?q = "filter (\<lambda>(k, _). k \<noteq> fw_deadlines w d) (fw_time_bounded_io_task_queue w)"
  have X: "?L \<union> insert ?x D = insert ?x (?L \<union> D)" "?x \<notin> ?L \<union> D" "finite D"
    using assms(1,3) by (auto simp: pool_state_def)
  have "\<forall>y \<in> ?L \<union> D. fst (snd y) \<noteq> ptr"
    using inj_onD[OF pool_stateD(3)[OF assms(1)], of ?x] X(2) by fastforce
  from deadlines_ok_remove[OF pool_stateD(4)[OF assms(1), unfolded X(1)] assms(2) this]
  have rem: "time_bounded_remove (fw_deadlines w d) (fw_time_bounded_io_task_queue w) = (True, ?q)"
    and ok: "deadlines_ok ?q (fw_deadlines w) (?L \<union> D)" .
  have "image_mset live_request (mset_set (insert ?x D)) \<subseteq># P" using assms(1) by (simp add: pool_state_def)
  from live_requests_less[OF X(3) assms(3) this] assms(1) ok
  have "pool_state P D n (w\<lparr>fw_time_bounded_io_task_queue := ?q\<rparr>)" by (simp add: pool_state_def)
  with rem show ?thesis by (simp add: remove_deadline_def parked_def)
qed

lemma pool_retry_ok:
  assumes "pool_state (add_mset (c, ptr) P) D (Suc n) w" and "image_mset live_request (mset_set D) \<subseteq># P" and "call_pollable c"
  shows "\<exists>w'. pool_retry dbg c ptr w = Inr w' \<and> pool_state P D n w' \<and>
    resumes cur (parked (add_mset (c, ptr) P) ts w) w (parked P ts w') w'"
proof -
  obtain b where b: "must_retry c = Inr b" using assms(3) by (auto simp: call_pollable_retry)
  show ?thesis
  proof (cases b)
    case True
    then have "call_runs c" using b must_retry_runs by simp
    with pool_push[OF pool_forget_count[OF assms(1)] assms(2)] b True show ?thesis by (simp add: pool_retry_def)
  next
    case False
    let ?w = "w\<lparr>fw_number_of_active_tasks := fw_number_of_active_tasks w - 1\<rparr>"
    note u = pool_uncount[OF assms(1)]
    obtain w' where w': "finish_request dbg polled_effect ptr (Inr 0) ?w = Inr w'" "pool_state P D n w'"
      "resumes cur (parked (add_mset (c, ptr) P) ts ?w) ?w (parked P ts w') w'"
      using pool_finish_polled[OF u(2) assms(2)] by blast
    have "resumes cur (parked (add_mset (c, ptr) P) ts w) w (parked P ts w') w'" using w'(3) by (simp add: u(3) resumes_def)
    moreover have "pool_retry dbg c ptr w = Inr w'"
      using b False u(1)[of dbg] w'(1)
      by (cases dbg) (simp_all add: pool_retry_def pool_schedule_io_call_that_not_retriable_def)
    ultimately show ?thesis using w'(2) by blast
  qed
qed

text \<open>
  A request whose deadline has passed when its socket is ready ends as if its task were running. A local task is
  spawned.
\<close>

definition polled_task_kept :: "pool_worker \<Rightarrow> io_call \<times> request_ptr \<Rightarrow> bool" where
  "polled_task_kept w x \<longleftrightarrow> (\<forall>d. call_deadline (fst x) = Some d \<longrightarrow>
     fw_last_gotten_time w < fw_deadlines w d \<or> task_is_local (task_at (fw_mem w) x))"

lemma pool_process_ready:
  assumes "pool_state (add_mset (c, ptr) P) (insert (c, ptr, s, slot) D) (Suc n) w" and "(c, ptr, s, slot) \<notin> D"
    and "image_mset live_request (mset_set D) \<subseteq># P" and "call_pollable c" and "polled_task_kept w (c, ptr)"
  shows "\<exists>did w'. pool_process_polled dbg (True, c, ptr) w = Inr (did, w') \<and> pool_state P D n w' \<and>
    resumes [] (parked (add_mset (c, ptr) P) ts w) w (parked P ts w') w'"
proof (cases "call_deadline c")
  case None
  obtain w' where "pool_retry dbg c ptr w = Inr w'" "pool_state P D n w'"
    "resumes [] (parked (add_mset (c, ptr) P) ts w) w (parked P ts w') w'"
    using pool_retry_ok[OF pool_no_deadline[OF assms(1) None assms(2)] assms(3,4)] by blast
  with None show ?thesis by (simp add: pool_process_polled_def)
next
  case (Some d)
  obtain w1 where w1: "remove_deadline (fw_deadlines w d) w = Inr w1" "pool_state (add_mset (c, ptr) P) D (Suc n) w1"
    "parked (add_mset (c, ptr) P) ts w1 = parked (add_mset (c, ptr) P) ts w"
    "fw_effects w1 = fw_effects w" "fw_last_gotten_time w1 = fw_last_gotten_time w" "fw_mem w1 = fw_mem w"
    using pool_remove_deadline[OF assms(1) Some assms(2)] by blast
  have "\<exists>w'. pool_check_deadline_and dbg (fw_deadlines w d) ptr (pool_retry dbg c ptr) w1 = Inr w' \<and> pool_state P D n w' \<and>
      resumes [] (parked (add_mset (c, ptr) P) ts w1) w1 (parked P ts w') w'"
    (is "\<exists>w'. ?R w'")
  proof (cases "fw_last_gotten_time w1 < fw_deadlines w d")
    case True
    with pool_retry_ok[OF w1(2) assms(3,4)] show ?thesis by (simp add: pool_check_deadline_and_def)
  next
    case False
    then have "task_is_local (task_at (fw_mem w1) (c, ptr))" using assms(5) Some w1(5,6) by (simp add: polled_task_kept_def)
    then show ?thesis using pool_finish[OF pool_forget_count[OF w1(2)] assms(3), of "[]" running_effect] False
      by (simp add: pool_check_deadline_and_def running_effect_def)
  qed
  then obtain w' where "?R w'" by blast
  with w1 Some show ?thesis by (simp add: pool_process_polled_def resumes_def)
qed

lemma pool_process_error:
  assumes "pool_state (add_mset (c, ptr) P) (insert (c, ptr, s, slot) D) (Suc n) w" and "(c, ptr, s, slot) \<notin> D"
    and "image_mset live_request (mset_set D) \<subseteq># P"
  shows "\<exists>did w'. pool_process_polled dbg (False, c, ptr) w = Inr (did, w') \<and> pool_state P D n w' \<and>
    resumes cur (parked (add_mset (c, ptr) P) ts w) w (parked P ts w') w'"
proof -
  let ?rem = "case map_option (fw_deadlines w) (call_deadline c) of Some d \<Rightarrow> remove_deadline d w | None \<Rightarrow> Inr w"
  obtain w1 where w1: "?rem = Inr w1" "pool_state (add_mset (c, ptr) P) D (Suc n) w1"
    "parked (add_mset (c, ptr) P) ts w1 = parked (add_mset (c, ptr) P) ts w" "fw_effects w1 = fw_effects w"
    using pool_no_deadline[OF assms(1) _ assms(2)] pool_remove_deadline[OF assms(1) _ assms(2)]
    by (cases "call_deadline c") auto
  note u = pool_uncount[OF w1(2)]
  let ?w = "w1\<lparr>fw_number_of_active_tasks := fw_number_of_active_tasks w1 - 1\<rparr>"
  obtain w' where w': "finish_request dbg polled_effect ptr (Inl (FromKind OtherKind)) ?w = Inr w'" "pool_state P D n w'"
    "resumes cur (parked (add_mset (c, ptr) P) ts ?w) ?w (parked P ts w') w'"
    using pool_finish_polled[OF u(2) assms(3)] by blast
  have "resumes cur (parked (add_mset (c, ptr) P) ts w) w (parked P ts w') w'"
    using w'(3) w1(3,4) by (simp add: u(3) resumes_def)
  moreover have "pool_process_polled dbg (False, c, ptr) w = Inr (True, w')"
    using w1(1) u(1)[of dbg] w'(1) by (simp add: pool_process_polled_def)
  ultimately show ?thesis using w'(2) by blast
qed

text \<open>What the processing of a request leaves alone.\<close>

definition framed :: "request_ptr \<Rightarrow> pool_worker \<Rightarrow> pool_worker \<Rightarrow> bool" where
  "framed ptr w w' \<longleftrightarrow> fw_deadlines w' = fw_deadlines w \<and> fw_last_gotten_time w' = fw_last_gotten_time w \<and>
     (\<forall>u. u \<noteq> ptr \<longrightarrow> fw_mem w' u = fw_mem w u)"

lemma finish_request_framed: "finish_request dbg eff ptr ret w = Inr w' \<Longrightarrow> framed ptr w w'"
  by (auto simp: finish_request_def framed_def bindR_Inr_conv split: option.splits)

lemma pool_retry_framed: "pool_retry dbg c ptr w = Inr w' \<Longrightarrow> framed ptr w w'"
  by (auto simp: pool_retry_def push_to_worker_pool_def pool_schedule_io_call_that_not_retriable_def bindR_Inr_conv Let_def
      framed_def dest!: finish_request_framed split: if_splits)

lemma pool_check_deadline_framed:
  "pool_check_deadline_and dbg d ptr (pool_retry dbg c ptr) w = Inr w' \<Longrightarrow> framed ptr w w'"
  by (auto simp: pool_check_deadline_and_def dest: finish_request_framed pool_retry_framed split: if_splits)

lemma remove_deadline_framed: "remove_deadline d w = Inr w' \<Longrightarrow> framed ptr w w'"
  by (auto simp: remove_deadline_def framed_def split: prod.splits bool.splits)

lemma framed_trans: "framed ptr w w' \<Longrightarrow> framed ptr w' w'' \<Longrightarrow> framed ptr w w''"
  by (simp add: framed_def)

lemma pool_process_framed:
  assumes "pool_process_polled dbg (b, c, ptr) w = Inr (did, w')" shows "framed ptr w w'"
proof (cases b)
  case True
  with assms show ?thesis
    by (auto simp: pool_process_polled_def bindR_Inr_conv split: option.splits
        intro: pool_retry_framed framed_trans[OF remove_deadline_framed pool_check_deadline_framed])
next
  case False
  with assms obtain w1 n where "w1 = w \<or> (\<exists>d. remove_deadline d w = Inr w1)"
    "finish_request dbg polled_effect ptr (Inl (FromKind OtherKind)) (w1\<lparr>fw_number_of_active_tasks := n\<rparr>) = Inr w'"
    by (auto simp: pool_process_polled_def bindR_Inr_conv split: option.splits)
  with finish_request_framed remove_deadline_framed show ?thesis by (fastforce simp: framed_def)
qed

lemma polled_task_kept_framed:
  assumes "framed ptr w w'" and "snd x \<noteq> ptr" shows "polled_task_kept w' x = polled_task_kept w x"
  using assms by (simp add: framed_def polled_task_kept_def task_at_def)

lemma pool_process_all_ok:
  "pool_state (mset (map live_request xs) + P) (set xs) (length xs) w \<Longrightarrow> distinct xs \<Longrightarrow> length bs = length xs \<Longrightarrow>
   \<forall>x \<in> set xs. call_pollable (fst x) \<Longrightarrow> list_all2 (\<lambda>b x. b \<longrightarrow> polled_task_kept w (live_request x)) bs xs \<Longrightarrow>
   \<exists>did w'. pool_process_all dbg (zip bs (map live_request xs)) h w = Inr (did, w') \<and> pool_state P {} 0 w' \<and>
     resumes [] (parked (mset (map live_request xs) + P) ts w) w (parked P ts w') w'"
proof (induction xs arbitrary: bs w h)
  case (Cons x xs)
  obtain c ptr s slot where x: "x = (c, ptr, s, slot)" by (cases x)
  obtain b bs' where bs: "bs = b # bs'" using Cons.prems(3) by (cases bs) auto
  let ?P = "mset (map live_request xs) + P"
  have st: "pool_state (add_mset (c, ptr) ?P) (insert (c, ptr, s, slot) (set xs)) (Suc (length xs)) w" "(c, ptr, s, slot) \<notin> set xs"
    using Cons.prems(1,2) x by simp_all
  have D: "image_mset live_request (mset_set (set xs)) \<subseteq># ?P" using Cons.prems(2) by (simp add: mset_set_set)
  have poll: "call_pollable c" "b \<longrightarrow> polled_task_kept w (c, ptr)" using Cons.prems(4,5) x bs by simp_all
  have "\<exists>did w1. pool_process_polled dbg (b, c, ptr) w = Inr (did, w1) \<and> pool_state ?P (set xs) (length xs) w1 \<and>
    resumes [] (parked (add_mset (c, ptr) ?P) ts w) w (parked ?P ts w1) w1"
    using pool_process_ready[OF st D poll(1), of dbg ts] pool_process_error[OF st D, of dbg "[]" ts] poll(2) by (cases b) simp_all
  then obtain did w1 where w1: "pool_process_polled dbg (b, c, ptr) w = Inr (did, w1)" "pool_state ?P (set xs) (length xs) w1"
    "resumes [] (parked (add_mset (c, ptr) ?P) ts w) w (parked ?P ts w1) w1" by blast
  have "requests_ok (fw_mem w) (add_mset (c, ptr) (pool_calls w + ?P))" using st(1) by (simp add: pool_state_def)
  then have other: "snd (live_request y) \<noteq> ptr" if "y \<in> set xs" for y
    using that by (force simp: requests_ok_def all_apart_add apart_def)
  have "list_all2 (\<lambda>b x. b \<longrightarrow> polled_task_kept w (live_request x)) bs' xs" using Cons.prems(5) bs by simp
  then have "list_all2 (\<lambda>b x. b \<longrightarrow> polled_task_kept w1 (live_request x)) bs' xs"
    by (rule list.rel_mono_strong) (use polled_task_kept_framed[OF pool_process_framed[OF w1(1)] other] in blast)
  with Cons.IH[OF w1(2), of bs' "h \<or> did"] Cons.prems bs obtain did' w2 where
    w2: "pool_process_all dbg (zip bs' (map live_request xs)) (h \<or> did) w1 = Inr (did', w2)" "pool_state P {} 0 w2"
      "resumes [] (parked ?P ts w1) w1 (parked P ts w2) w2" by auto
  have "resumes [] (parked (add_mset (c, ptr) ?P) ts w) w (parked P ts w2) w2" by (rule resumes_trans[OF w1(3) w2(3)])
  with w1(1) w2(1,2) show ?case by (simp add: bs x)
qed simp


text \<open>
  The events of a poll: each is for a registered socket, no two are for the same, and none is for a shared task whose
  deadline has passed.
\<close>

definition events_ok :: "poll_event list \<Rightarrow> pool_worker \<Rightarrow> bool" where
  "events_ok events w \<longleftrightarrow> distinct (map pe_token events) \<and>
     (\<forall>e \<in> set events. live_token (fw_poller w) (pe_token e) \<and>
        (event_result e \<longrightarrow> polled_task_kept w (the (mp_slots (fw_poller w) (pe_token e)))))"

lemma pool_take_polled:
  assumes "pool_inv w" and "poller_wf p" and "distinct xs" and "set xs \<inter> poller_live p = {}"
    and "poller_live (fw_poller w) = set xs \<union> poller_live p"
  shows "pool_state (mset (map live_request xs)) (set xs) (length xs) (w\<lparr>fw_poller := p\<rparr>)"
    and "parked (mset (map live_request xs)) ts (w\<lparr>fw_poller := p\<rparr>) = parked {#} ts w"
proof -
  have "poller_calls (fw_poller w) = mset (map live_request xs) + poller_calls p"
    using assms(3-5) finite_poller_live[OF assms(2)]
    by (simp add: poller_calls_def mset_set_Union mset_set_set)
  then have calls: "pool_calls w = pool_calls (w\<lparr>fw_poller := p\<rparr>) + mset (map live_request xs)"
    by (simp add: pool_calls_def)
  show "pool_state (mset (map live_request xs)) (set xs) (length xs) (w\<lparr>fw_poller := p\<rparr>)"
    using assms calls by (auto simp: pool_state_def mset_set_set Un_commute)
  show "parked (mset (map live_request xs)) ts (w\<lparr>fw_poller := p\<rparr>) = parked {#} ts w" using calls by (simp add: parked_def)
qed

lemma poller_live_pollable: "poller_wf p \<Longrightarrow> x \<in> poller_live p \<Longrightarrow> call_pollable (fst x)"
  by (cases x) (simp add: call_pollable_socket poller_live_socket(1))

lemma polled_events_kept:
  assumes "events_ok events w" and "map (\<lambda>x. snd (snd (snd x))) xs = map pe_token events"
    and "set xs \<subseteq> poller_live (fw_poller w)"
  shows "list_all2 (\<lambda>b x. b \<longrightarrow> polled_task_kept w (live_request x)) (map event_result events) xs"
proof (rule list_all2_all_nthI)
  show len: "length (map event_result events) = length xs" using arg_cong[OF assms(2), of length] by simp
  fix i
  assume i: "i < length (map event_result events)"
  obtain c ptr s slot where x: "xs ! i = (c, ptr, s, slot)" by (cases "xs ! i")
  have slot: "slot = pe_token (events ! i)" using arg_cong[OF assms(2), of "\<lambda>l. l ! i"] i len x by simp
  have "(c, ptr, s, slot) \<in> poller_live (fw_poller w)" using assms(3) i len x nth_mem[of i xs] by auto
  then have req: "the (mp_slots (fw_poller w) (pe_token (events ! i))) = (c, ptr)" using slot by (simp add: poller_live_def)
  have "events ! i \<in> set events" using i by simp
  then have "event_result (events ! i) \<longrightarrow> polled_task_kept w (the (mp_slots (fw_poller w) (pe_token (events ! i))))"
    using assms(1) unfolding events_ok_def by blast
  then have "event_result (events ! i) \<longrightarrow> polled_task_kept w (live_request (xs ! i))" unfolding req x by simp
  then show "map event_result events ! i \<longrightarrow> polled_task_kept w (live_request (xs ! i))" using i by (simp only: nth_map length_map)
qed

lemma pool_poll_and_process_ok:
  assumes "pool_inv w" and "events_ok events w"
  shows "\<exists>did w'. pool_poll_and_process dbg events w = Inr (did, w') \<and> pool_inv w' \<and>
    resumes [] (parked {#} [] w) w (parked {#} [] w') w'"
proof -
  have wf: "poller_wf (fw_poller w)" using assms(1) by (simp add: pool_state_def)
  have "distinct (map pe_token events)" "\<forall>e \<in> set events. live_token (fw_poller w) (pe_token e)"
    using assms(2) by (simp_all add: events_ok_def)
  from poller_poll_live[OF wf this] obtain xs p where
    xs: "poller_poll events (fw_poller w) = Inr (zip (map event_result events) (map live_request xs), p)"
    "poller_wf p" "distinct xs" "set xs \<inter> poller_live p = {}" "poller_live (fw_poller w) = set xs \<union> poller_live p"
    and len: "length xs = length events" and tok: "map (\<lambda>x. snd (snd (snd x))) xs = map pe_token events" by blast
  let ?w = "w\<lparr>fw_poller := p\<rparr>"
  have poll: "\<forall>x \<in> set xs. call_pollable (fst x)"
    using xs(5) poller_live_pollable[OF wf] by blast
  have "list_all2 (\<lambda>b x. b \<longrightarrow> polled_task_kept w (live_request x)) (map event_result events) xs"
    by (rule polled_events_kept[OF assms(2) tok]) (use xs(5) in blast)
  then have kept: "list_all2 (\<lambda>b x. b \<longrightarrow> polled_task_kept ?w (live_request x)) (map event_result events) xs"
    by (simp add: polled_task_kept_def)
  note st = pool_take_polled[OF assms(1) xs(2-5)]
  have "pool_state (mset (map live_request xs) + {#}) (set xs) (length xs) ?w" using st(1) by simp
  from pool_process_all_ok[OF this xs(3) _ poll kept, of dbg False "[]"] len
  obtain did w' where "pool_process_all dbg (zip (map event_result events) (map live_request xs)) False ?w = Inr (did, w')"
    "pool_inv w'" "resumes [] (parked (mset (map live_request xs) + {#}) [] ?w) ?w (parked {#} [] w') w'" by auto
  with xs(1) st(2)[of "[]"] show ?thesis by (simp add: pool_poll_and_process_def resumes_def)
qed

section \<open>Completions and deadlines\<close>

lemma pool_completion_ok:
  assumes "pool_state (mset (to_poll (r # rs))) {} 0 w" and "\<forall>x \<in> set (to_poll (r # rs)). call_pollable (fst x)"
  shows "\<exists>did w'. pool_process_completion dbg r w = Inr (did, w') \<and> pool_state (mset (to_poll rs)) {} 0 w' \<and>
    resumes cur (parked (mset (to_poll (r # rs))) (dones (r # rs)) w) w (parked (mset (to_poll rs)) (dones rs) w') w'"
proof (cases r)
  case (Done t)
  let ?w = "w\<lparr>fw_effects := fw_effects w @ [polled_effect t]\<rparr>"
  have "pool_state (mset (to_poll rs)) {} 0 ?w" using assms(1) Done by (simp add: pool_state_def)
  moreover have "resumes cur (parked (mset (to_poll rs)) (t # dones rs) w) w (parked (mset (to_poll rs)) (dones rs) ?w) ?w"
    by (simp add: resumes_def parked_def polled_effect_def)
  ultimately show ?thesis using Done by (auto simp: pool_process_completion_def)
next
  case (MustPoll c ptr)
  have pool: "pool_state (add_mset (c, ptr) (mset (to_poll rs))) {} 0 w" and c: "call_pollable c"
    using assms MustPoll by simp_all
  have p: "is_recv_pollable c \<or> is_send_pollable c \<or> is_both_pollable c" using c by (simp add: call_pollable_def)
  then have "\<exists>i. completion_interest c = Inr i" unfolding completion_interest_def by auto
  then obtain i where i: "completion_interest c = Inr i" by blast
  have none: "image_mset live_request (mset_set {}) \<subseteq># mset (to_poll rs)" by simp
  obtain slot p w' where r: "poller_register i (c, ptr) (fw_poller w) = Inr (slot, p)"
    "(if call_deadline c = None then Inr (w\<lparr>fw_number_of_active_tasks := fw_number_of_active_tasks w + 1, fw_poller := p\<rparr>)
      else fallback_register_deadline slot (w\<lparr>fw_number_of_active_tasks := fw_number_of_active_tasks w + 1, fw_poller := p\<rparr>)) = Inr w'"
    "pool_state (mset (to_poll rs)) {} 0 w'"
    "resumes cur (parked (add_mset (c, ptr) (mset (to_poll rs))) (dones rs) w) w (parked (mset (to_poll rs)) (dones rs) w') w'"
    using pool_poll_socket[OF pool none c, of i cur "dones rs"] by blast
  have "pool_process_completion dbg r w = Inr (False, w')"
    using MustPoll p i r(1,2) unfolding pool_process_completion_def
    by (cases "call_deadline c") (simp_all add: pool_register_deadline_def Let_def)
  with r(3,4) MustPoll show ?thesis by auto
qed

lemma pool_completions_ok:
  "pool_state (mset (to_poll rs)) {} 0 w \<Longrightarrow> \<forall>x \<in> set (to_poll rs). call_pollable (fst x) \<Longrightarrow>
   \<exists>did w'. pool_process_completions dbg rs h w = Inr (did, w') \<and> pool_inv w' \<and>
     resumes cur (parked (mset (to_poll rs)) (dones rs) w) w (parked {#} [] w') w'"
proof (induction rs arbitrary: w h)
  case (Cons r rs)
  obtain did w1 where w1: "pool_process_completion dbg r w = Inr (did, w1)" "pool_state (mset (to_poll rs)) {} 0 w1"
    "resumes cur (parked (mset (to_poll (r # rs))) (dones (r # rs)) w) w (parked (mset (to_poll rs)) (dones rs) w1) w1"
    using pool_completion_ok[OF Cons.prems] by blast
  have "\<forall>x \<in> set (to_poll rs). call_pollable (fst x)" using Cons.prems(2) by (cases r) simp_all
  from Cons.IH[OF w1(2) this, of "h \<or> did"] obtain did' w2 where
    w2: "pool_process_completions dbg rs (h \<or> did) w1 = Inr (did', w2)" "pool_inv w2"
      "resumes cur (parked (mset (to_poll rs)) (dones rs) w1) w1 (parked {#} [] w2) w2" by blast
  have "pool_process_completions dbg (r # rs) h w = Inr (did', w2)" using w1(1) w2(1) by simp
  with w2(2) resumes_trans[OF w1(3) w2(3)] show ?case by blast
qed simp

lemma length_completions: "length (to_poll rs) + length (dones rs) = length rs"
  by (induction rs) (auto simp: to_poll_def dones_def split: worker_result.splits)

lemma pool_take_completions_ok:
  assumes "pool_inv w"
  shows "\<exists>did w'. pool_take_completions dbg h w = Inr (did, w') \<and> pool_inv w' \<and>
    resumes cur (parked {#} [] w) w (parked {#} [] w') w'"
proof -
  let ?rs = "pw_completions w"
  define w1 where "w1 = w\<lparr>pw_completions := [], fw_number_of_active_tasks := fw_number_of_active_tasks w - length ?rs\<rparr>"
  have calls: "pool_calls w = pool_calls w1 + mset (to_poll ?rs)" and run: "running_calls w1 = running_calls w"
    by (simp_all add: pool_calls_def running_calls_def w1_def)
  have le: "length ?rs \<le> fw_number_of_active_tasks w" "size (pool_calls w1) \<le> fw_number_of_active_tasks w1"
    using pool_stateD(5)[OF assms] length_completions[of ?rs] calls by (auto simp: w1_def)
  have "pool_state (mset (to_poll ?rs)) {} 0 w1"
    using assms le(2) unfolding pool_state_def run calls by (simp add: w1_def)
  moreover have "\<forall>x \<in> set (to_poll ?rs). call_pollable (fst x)" using assms by (simp add: pool_state_def)
  ultimately obtain did w' where w': "pool_process_completions dbg ?rs h w1 = Inr (did, w')" "pool_inv w'"
    "resumes cur (parked (mset (to_poll ?rs)) (dones ?rs) w1) w1 (parked {#} [] w') w'"
    using pool_completions_ok by blast
  have "parked (mset (to_poll ?rs)) (dones ?rs) w1 = parked {#} [] w" unfolding parked_def calls by (simp add: w1_def)
  moreover have "pool_take_completions dbg h w = Inr (did, w')"
    using le(1) w'(1) by (simp add: pool_take_completions_def synced_completions_def w1_def)
  ultimately show ?thesis using w'(2,3) by (simp add: resumes_def w1_def)
qed

text \<open>An expired deadline takes its call out of the poller and ends it.\<close>

lemma pool_expire_one:
  assumes "pool_inv (w\<lparr>fw_time_bounded_io_task_queue := (k, ptr, s, slot) # q\<rparr>)"
  obtains p w1 where "poller_deregister s slot (fw_poller w) = Inr p"
    "finish_request dbg polled_effect ptr ret (w\<lparr>fw_poller := p\<rparr>) = Inr w1"
    "usize_sub dbg (fw_number_of_active_tasks w1) 1 = Inr (fw_number_of_active_tasks w1 - 1)"
    "pool_inv (w1\<lparr>fw_number_of_active_tasks := fw_number_of_active_tasks w1 - 1, fw_time_bounded_io_task_queue := q\<rparr>)"
    "resumes cur (parked {#} [] w) w (parked {#} [] w1) w1" "framed ptr w w1"
proof -
  let ?v = "w\<lparr>fw_time_bounded_io_task_queue := (k, ptr, s, slot) # q\<rparr>" and ?p = "polled_away slot s (fw_poller w)"
  have wf: "poller_wf (fw_poller w)" using assms by (simp add: pool_state_def)
  obtain c where c: "(c, ptr, s, slot) \<in> poller_live (fw_poller w)"
    "deadlines_ok q (fw_deadlines w) (poller_live (fw_poller w) - {(c, ptr, s, slot)})"
    using deadlines_ok_head[of k ptr s slot q "fw_deadlines w" "poller_live (fw_poller w)"] pool_stateD(3,4)[OF assms] by auto
  note away = polled_away_wf[OF wf c(1)]
  have "poller_calls (fw_poller w) = add_mset (c, ptr) (poller_calls ?p)"
    using poller_calls_insert[OF away(1), of "fw_poller w" "(c, ptr, s, slot)"] away(2) c(1) by auto
  then have calls: "pool_calls w = add_mset (c, ptr) (pool_calls (w\<lparr>fw_poller := ?p\<rparr>))" by (simp add: pool_calls_def)
  have st: "pool_state {#(c, ptr)#} {} (Suc 0) (w\<lparr>fw_poller := ?p, fw_time_bounded_io_task_queue := q\<rparr>)"
    using assms away c(2) calls by (simp add: pool_state_def)
  let ?u = "w\<lparr>fw_poller := ?p, fw_time_bounded_io_task_queue := q\<rparr>"
  obtain d where d: "fw_mem w ptr = Some d" "\<not> rd_was_executed d"
    using pool_stateD(1)[OF st] by (auto simp: requests_ok_def unfinished_def)
  obtain d' where f: "finish_request dbg polled_effect ptr ret (w\<lparr>fw_poller := ?p\<rparr>) = Inr (w\<lparr>fw_poller := ?p,
      fw_mem := (fw_mem w)(ptr \<mapsto> d'), fw_effects := fw_effects w @ [polled_effect (rd_task d)]\<rparr>)"
    using finish_request_fresh[of "w\<lparr>fw_poller := ?p\<rparr>" ptr d ret dbg polled_effect] d by auto
  let ?w1 = "w\<lparr>fw_poller := ?p, fw_mem := (fw_mem w)(ptr \<mapsto> d'), fw_effects := fw_effects w @ [polled_effect (rd_task d)]\<rparr>"
  have "requests_ok (fw_mem w) (add_mset (c, ptr) (pool_calls ?u))" using pool_stateD(1)[OF st] by simp
  note drop = requests_ok_drop[OF this, of "Some d'", simplified]
  have "pool_state {#} {} (Suc 0) (?w1\<lparr>fw_time_bounded_io_task_queue := q\<rparr>)" using st drop(1) by (simp add: pool_state_def)
  note u = pool_uncount[OF this]
  have "resumes cur (parked {#} [] w) w (parked {#} [] ?w1) ?w1"
    using drop(2) d(1) by (simp add: resumes_def parked_def calls task_at_def polled_effect_def)
  moreover have "pool_inv (?w1\<lparr>fw_number_of_active_tasks := fw_number_of_active_tasks ?w1 - 1, fw_time_bounded_io_task_queue := q\<rparr>)"
    using u(2) by (simp add: pool_state_def)
  ultimately show ?thesis using that[OF poller_deregister_live(2)[OF wf c(1)] f] u(1) by (simp add: framed_def)
qed

lemma pool_expire_ok:
  "pool_inv (w\<lparr>fw_time_bounded_io_task_queue := q\<rparr>) \<Longrightarrow>
   \<exists>w'. expire_requests dbg q w = Inr w' \<and> pool_inv w' \<and> resumes cur (parked {#} [] w) w (parked {#} [] w') w'"
proof (induction q arbitrary: w)
  case (Cons e q)
  obtain k ptr s slot where e: "e = (k, ptr, s, slot)" by (cases e)
  show ?case
  proof (cases "k \<le> fw_last_gotten_time w")
    case True
    obtain p w1 where w1: "poller_deregister s slot (fw_poller w) = Inr p"
      "finish_request dbg polled_effect ptr (Inl (FromKind TimedOut)) (w\<lparr>fw_poller := p\<rparr>) = Inr w1"
      "usize_sub dbg (fw_number_of_active_tasks w1) 1 = Inr (fw_number_of_active_tasks w1 - 1)"
      "pool_inv (w1\<lparr>fw_number_of_active_tasks := fw_number_of_active_tasks w1 - 1, fw_time_bounded_io_task_queue := q\<rparr>)"
      "resumes cur (parked {#} [] w) w (parked {#} [] w1) w1"
      using Cons.prems unfolding e by (rule pool_expire_one)
    let ?w = "w1\<lparr>fw_number_of_active_tasks := fw_number_of_active_tasks w1 - 1\<rparr>"
    from Cons.IH[of ?w] w1(4) obtain w' where w': "expire_requests dbg q ?w = Inr w'" "pool_inv w'"
      "resumes cur (parked {#} [] ?w) ?w (parked {#} [] w') w'" by auto
    have "resumes cur (parked {#} [] w1) w1 (parked {#} [] w') w'" using w'(3) by (simp add: resumes_def parked_def)
    with w1 w'(1,2) True resumes_trans show ?thesis by (auto simp: e)
  next
    case False
    have "deadlines_wf ((k, ptr, s, slot) # q)" using pool_stateD(4)[OF Cons.prems] e by (simp add: deadlines_ok_def)
    then have "btree_insert k (ptr, s, slot) q = (k, ptr, s, slot) # q" by (rule btree_insert_head)
    with False Cons.prems show ?thesis by (simp add: e parked_def)
  qed
qed (simp add: parked_def)

lemma pool_check_deadlines_ok:
  assumes "pool_inv w"
  shows "\<exists>w'. pool_check_deadlines dbg now w = Inr w' \<and> pool_inv w' \<and> resumes cur (parked {#} [] w) w (parked {#} [] w') w'"
proof -
  let ?w = "w\<lparr>fw_last_gotten_time := now\<rparr>"
  have "pool_inv (?w\<lparr>fw_time_bounded_io_task_queue := fw_time_bounded_io_task_queue w\<rparr>)"
    using assms by (simp add: pool_state_def)
  from pool_expire_ok[OF this, of dbg cur] show ?thesis
    by (simp add: pool_check_deadlines_def fallback_check_deadlines_def resumes_def parked_def)
qed

section \<open>The threads\<close>

lemma thread_recv_ok:
  assumes "pool_inv w" and "i < length (pw_threads w)"
  shows "pool_inv (thread_worker_recv i w)" and "parked {#} [] (thread_worker_recv i w) = parked {#} [] w"
    and "fw_effects (thread_worker_recv i w) = fw_effects w"
proof -
  define w' where "w' = thread_worker_recv i w"
  have "w' = w \<or> (\<exists>x rest. pw_threads w ! i = None \<and> pw_workers w ! i = x # rest \<and>
      w' = w\<lparr>pw_threads := (pw_threads w)[i := Some x], pw_workers := (pw_workers w)[i := rest]\<rparr>)"
    by (simp add: w'_def thread_worker_recv_def split: option.splits list.splits)
  then have "pool_inv w' \<and> parked {#} [] w' = parked {#} [] w \<and> fw_effects w' = fw_effects w"
  proof
    assume "\<exists>x rest. pw_threads w ! i = None \<and> pw_workers w ! i = x # rest \<and>
      w' = w\<lparr>pw_threads := (pw_threads w)[i := Some x], pw_workers := (pw_workers w)[i := rest]\<rparr>"
    then obtain x rest where x: "pw_threads w ! i = None" "pw_workers w ! i = x # rest"
      and w': "w' = w\<lparr>pw_threads := (pw_threads w)[i := Some x], pw_workers := (pw_workers w)[i := rest]\<rparr>" by blast
    have len: "i < length (pw_workers w)" "i < length (map thread_call (pw_threads w))" using assms by (simp_all add: pool_state_def)
    have "mset (concat ((pw_workers w)[i := rest])) + {#x#} = mset (concat (pw_workers w))"
      using mset_concat_update[OF len(1), of rest] x(2) by simp
    moreover have "mset (concat (map thread_call ((pw_threads w)[i := Some x]))) = mset (concat (map thread_call (pw_threads w))) + {#x#}"
      using mset_concat_update[OF len(2), of "[x]"] x(1) assms(2) by (simp add: map_update)
    ultimately have run: "running_calls w' = running_calls w" by (simp add: running_calls_def w')
    then have calls: "pool_calls w' = pool_calls w" by (simp add: pool_calls_def w')
    show ?thesis using assms(1) unfolding pool_state_def parked_def run calls by (simp add: w')
  qed (use assms(1) in simp)
  then show "pool_inv (thread_worker_recv i w)" "parked {#} [] (thread_worker_recv i w) = parked {#} [] w"
    "fw_effects (thread_worker_recv i w) = fw_effects w" by (simp_all add: w'_def)
qed

lemma thread_take_call:
  assumes "pool_inv w" and "i < length (pw_threads w)" and "pw_threads w ! i = Some x"
  shows "running_calls w = add_mset x (running_calls (w\<lparr>pw_threads := (pw_threads w)[i := None]\<rparr>))"
    and "pool_calls w = add_mset x (pool_calls (w\<lparr>pw_threads := (pw_threads w)[i := None]\<rparr>))"
proof -
  have "mset (concat (map thread_call (pw_threads w))) = add_mset x (mset (concat (map thread_call ((pw_threads w)[i := None]))))"
    using mset_concat_update[of i "map thread_call (pw_threads w)" "[]"] assms(2,3) by (simp add: map_update)
  then show "running_calls w = add_mset x (running_calls (w\<lparr>pw_threads := (pw_threads w)[i := None]\<rparr>))"
    "pool_calls w = add_mset x (pool_calls (w\<lparr>pw_threads := (pw_threads w)[i := None]\<rparr>))"
    by (simp_all add: running_calls_def pool_calls_def)
qed

lemma thread_done_ok:
  assumes "pool_inv w" and "i < length (pw_threads w)" and "pw_threads w ! i = Some (c, ptr)"
  shows "\<exists>w'. thread_worker_done dbg i ptr ret w = Inr w' \<and> pool_inv w' \<and> parked {#} [] w' = parked {#} [] w \<and>
    fw_effects w' = fw_effects w"
proof -
  let ?v = "w\<lparr>pw_threads := (pw_threads w)[i := None]\<rparr>"
  note take = thread_take_call[OF assms]
  have r: "requests_ok (fw_mem w) (add_mset (c, ptr) (pool_calls ?v))" using pool_stateD(1)[OF assms(1)] take(2) by simp
  then obtain d where d: "fw_mem w ptr = Some d" "\<not> rd_was_executed d" by (auto simp: requests_ok_def unfinished_def)
  have "\<exists>d'. io_request_task dbg (io_request_set_ret ret d) = Inr (rd_task d, d')"
    using d(2) by (simp add: io_request_task_def io_request_set_ret_def)
  then obtain d' where d': "io_request_task dbg (io_request_set_ret ret d) = Inr (rd_task d, d')" by blast
  define w' where "w' = thread_worker_push i (Done (rd_task d)) (w\<lparr>fw_mem := (fw_mem w)(ptr \<mapsto> d')\<rparr>)"
  note drop = requests_ok_drop[OF r, of "Some d'", simplified]
  have run: "running_calls w' = running_calls ?v" and calls: "pool_calls w' = pool_calls ?v"
    by (simp_all add: w'_def thread_worker_push_def running_calls_def pool_calls_def)
  have "pool_inv w'" using assms(1) drop(1) take unfolding pool_state_def run calls
    by (simp add: w'_def thread_worker_push_def)
  moreover have "parked {#} [] w' = parked {#} [] w" using drop(2) d(1) take(2) unfolding parked_def calls
    by (simp add: w'_def thread_worker_push_def task_at_def)
  moreover have "thread_worker_done dbg i ptr ret w = Inr w'" using d d' by (simp add: thread_worker_done_def w'_def)
  ultimately show ?thesis by (simp add: w'_def thread_worker_push_def)
qed

lemma thread_must_poll_ok:
  assumes "pool_inv w" and "i < length (pw_threads w)" and "pw_threads w ! i = Some (c, ptr)" and "call_pollable c"
  shows "pool_inv (thread_worker_push i (MustPoll c ptr) w)"
    and "parked {#} [] (thread_worker_push i (MustPoll c ptr) w) = parked {#} [] w"
proof -
  let ?v = "w\<lparr>pw_threads := (pw_threads w)[i := None]\<rparr>"
  define w' where "w' = thread_worker_push i (MustPoll c ptr) w"
  note take = thread_take_call[OF assms(1-3)]
  have run: "running_calls w' = running_calls ?v" and calls: "pool_calls w' = pool_calls w"
    using take(2) by (simp_all add: w'_def thread_worker_push_def running_calls_def pool_calls_def)
  show "pool_inv (thread_worker_push i (MustPoll c ptr) w)"
    using assms(1,4) take(1) unfolding w'_def[symmetric] pool_state_def run calls
    by (auto simp: w'_def thread_worker_push_def)
  show "parked {#} [] (thread_worker_push i (MustPoll c ptr) w) = parked {#} [] w"
    unfolding w'_def[symmetric] parked_def calls by (simp add: w'_def thread_worker_push_def)
qed

text \<open>A call that would block is one that can be polled for.\<close>

definition thread_ok :: "thread_op \<Rightarrow> pool_worker \<Rightarrow> bool" where
  "thread_ok p w \<longleftrightarrow> (case p of
     ThreadRecv i \<Rightarrow> i < length (pw_threads w)
   | ThreadTry os i \<Rightarrow> i < length (pw_threads w) \<and>
       (\<forall>c ptr err. pw_threads w ! i = Some (c, ptr) \<longrightarrow> do_io_work os c = Inr (Inl err) \<longrightarrow>
          io_error_kind_of err = WouldBlock \<or> err = RawOs EINPROGRESS \<longrightarrow> call_pollable c))"

lemma thread_step_ok:
  assumes "pool_inv w" and "thread_ok p w"
  shows "\<exists>w'. thread_step dbg p w = Inr w' \<and> pool_inv w' \<and> parked {#} [] w' = parked {#} [] w \<and> fw_effects w' = fw_effects w"
proof (cases p)
  case (ThreadRecv i)
  with thread_recv_ok[OF assms(1)] assms(2) show ?thesis by (simp add: thread_ok_def)
next
  case (ThreadTry os i)
  with assms(2) have i: "i < length (pw_threads w)" by (simp add: thread_ok_def)
  show ?thesis
  proof (cases "pw_threads w ! i")
    case None
    with ThreadTry assms(1) show ?thesis by (simp add: thread_worker_try_def)
  next
    case (Some x)
    then obtain c ptr where c: "pw_threads w ! i = Some (c, ptr)" by (cases x) auto
    have "call_runs c" using assms(1) thread_take_call(1)[OF assms(1) i c] by (simp add: pool_state_def)
    then obtain r where r: "do_io_work os c = Inr r" using call_runs_returns by blast
    note fin = thread_done_ok[OF assms(1) i c, of dbg]
    show ?thesis
    proof (cases r)
      case (Inr n)
      with fin[of "Inr n"] ThreadTry c r show ?thesis by (simp add: thread_worker_try_def)
    next
      case (Inl err)
      have "call_pollable c" if "io_error_kind_of err = WouldBlock \<or> err = RawOs EINPROGRESS"
        using assms(2) ThreadTry c r Inl that unfolding thread_ok_def by fastforce
      note poll = thread_must_poll_ok[OF assms(1) i c this]
      show ?thesis
        using poll fin[of "Inl err"] ThreadTry c r Inl assms(1)
        by (auto simp: thread_worker_try_def thread_worker_push_def)
    qed
  qed
qed

section \<open>The methods\<close>

text \<open>The call that each method makes.\<close>

fun method_call :: "io_method \<Rightarrow> deadline_ptr option \<Rightarrow> io_call" where
  "method_call (ConnMethod (MAccept s a l)) None = Accept s a l"
| "method_call (ConnMethod (MAccept s a l)) (Some d) = AcceptWithDeadline s a l d"
| "method_call (ConnMethod (MConnect s a l)) None = Connect s a l"
| "method_call (ConnMethod (MConnect s a l)) (Some d) = ConnectWithDeadline s a l d"
| "method_call (ConnMethod (MPollSocketRead s)) None = PollRecv s"
| "method_call (ConnMethod (MPollSocketRead s)) (Some d) = PollRecvWithDeadline s d"
| "method_call (ConnMethod (MPollSocketWrite s)) None = PollSend s"
| "method_call (ConnMethod (MPollSocketWrite s)) (Some d) = PollSendWithDeadline s d"
| "method_call (RecvMethod (MRecv s p n)) None = Recv s p n"
| "method_call (RecvMethod (MRecv s p n)) (Some d) = RecvWithDeadline s p n d"
| "method_call (RecvMethod (MRecvFixed s p n b)) None = Recv s p n"
| "method_call (RecvMethod (MRecvFixed s p n b)) (Some d) = RecvWithDeadline s p n d"
| "method_call (RecvMethod (MRecvFrom s h)) None = RecvFrom s h"
| "method_call (RecvMethod (MRecvFrom s h)) (Some d) = RecvFromWithDeadline s h d"
| "method_call (SendMethod (MSend s p n)) None = Send s p n"
| "method_call (SendMethod (MSend s p n)) (Some d) = SendWithDeadline s p n d"
| "method_call (SendMethod (MSendFixed s p n b)) None = Send s p n"
| "method_call (SendMethod (MSendFixed s p n b)) (Some d) = SendWithDeadline s p n d"
| "method_call (SendMethod (MSendTo s h)) None = SendTo s h"
| "method_call (SendMethod (MSendTo s h)) (Some d) = SendToWithDeadline s h d"
| "method_call (PeekMethod (MPeek s p n)) None = Peek s p n"
| "method_call (PeekMethod (MPeek s p n)) (Some d) = PeekWithDeadline s p n d"
| "method_call (PeekMethod (MPeekFixed s p n b)) None = Peek s p n"
| "method_call (PeekMethod (MPeekFixed s p n b)) (Some d) = PeekWithDeadline s p n d"
| "method_call (PeekMethod (MPeekFrom s h)) None = PeekFrom s h"
| "method_call (PeekMethod (MPeekFrom s h)) (Some d) = PeekFromWithDeadline s h d"
| "method_call (FileMethod (MShutdown s how)) d = Shutdown s how"
| "method_call (FileMethod (MOpen path open_how)) d = Open path open_how"
| "method_call (FileMethod (MFallocate file offset n flags)) d = Fallocate"
| "method_call (FileMethod (MSyncAll file)) d = FAllSync file"
| "method_call (FileMethod (MSyncData file)) d = FDataSync file"
| "method_call (FileMethod (MRead file p n)) d = Read file p n"
| "method_call (FileMethod (MReadFixed file p n b)) d = Read file p n"
| "method_call (FileMethod (MPread file p n offset)) d = PRead file p n offset"
| "method_call (FileMethod (MPreadFixed file p n b offset)) d = PRead file p n offset"
| "method_call (WriteMethod (MWrite file p n)) d = Write file p n"
| "method_call (WriteMethod (MWriteFixed file p n b)) d = Write file p n"
| "method_call (WriteMethod (MPwrite file p n offset)) d = PWrite file p n offset"
| "method_call (WriteMethod (MPwriteFixed file p n b offset)) d = PWrite file p n offset"
| "method_call (WriteMethod (MCloseFile file)) d = CloseFile file"
| "method_call (WriteMethod (MCloseSocket s)) d = CloseSocket s"
| "method_call (WriteMethod (MRename old_path new_path)) d = Rename old_path new_path"
| "method_call (WriteMethod (MCreateDir path mode)) d = CreateDir path mode"
| "method_call (WriteMethod (MRemoveFile path)) d = RemoveFile path"
| "method_call (WriteMethod (MRemoveDir path)) d = RemoveDir path"

text \<open>Pushing a call to a thread, or registering one that only polls.\<close>

definition pool_issue :: "bool \<Rightarrow> interest \<Rightarrow> io_call \<Rightarrow> request_ptr \<Rightarrow> pool_worker \<Rightarrow> pool_worker res" where
  "pool_issue dbg i c ptr w =
     (let op = (if call_runs c then push_to_worker_pool c ptr
                else if call_deadline c = None then poll_socket i c ptr else poll_socket_and_deadline i c ptr) in
      case call_deadline c of
        None \<Rightarrow> op w
      | Some d \<Rightarrow> pool_check_deadline_and dbg (fw_deadlines w d) ptr op w)"

lemma pool_call_issue: "\<exists>i. \<forall>w. pool_call dbg m d ptr w = pool_issue dbg i (method_call m d) ptr w"
proof -
  note defs = pool_issue_def call_runs_def call_deadline_def push_to_worker_pool_with_deadline_def
  show ?thesis
  proof (cases m)
    case (ConnMethod x)
    then show ?thesis by (cases x; cases d) (auto simp: defs)
  next
    case (RecvMethod x)
    then show ?thesis by (cases x; cases d) (auto simp: defs)
  next
    case (SendMethod x)
    then show ?thesis by (cases x; cases d) (auto simp: defs)
  next
    case (PeekMethod x)
    then show ?thesis by (cases x; cases d) (auto simp: defs)
  next
    case (FileMethod x)
    then show ?thesis by (cases x) (simp_all add: defs)
  next
    case (WriteMethod x)
    then show ?thesis by (cases x) (simp_all add: defs)
  qed
qed

lemma poll_call_pollable: "\<not> call_runs c \<Longrightarrow> call_pollable c"
  unfolding call_runs_def call_pollable_def is_recv_pollable_def is_send_pollable_def by (cases c) simp_all

lemma pool_issue_ok:
  assumes "pool_inv w" and "unfinished (fw_mem w) ptr" and "\<forall>y \<in># pool_calls w. apart (c, ptr) y"
  shows "\<exists>w'. pool_issue dbg i c ptr w = Inr w' \<and> pool_inv w' \<and>
    resumes [task_at (fw_mem w) (c, ptr)] (add_mset (task_at (fw_mem w) (c, ptr)) (parked {#} [] w)) w (parked {#} [] w') w'"
proof -
  let ?t = "task_at (fw_mem w) (c, ptr)"
  have st: "pool_state {#(c, ptr)#} {} 0 w"
    using assms by (simp add: pool_state_def requests_ok_def all_apart_add)
  have none: "image_mset live_request (mset_set {}) \<subseteq># {#}" by simp
  have parked: "add_mset ?t (parked {#} [] w) = parked {#(c, ptr)#} [] w" by (simp add: parked_def)
  define op where "op = (if call_runs c then push_to_worker_pool c ptr
    else if call_deadline c = None then poll_socket i c ptr else poll_socket_and_deadline i c ptr)"
  have op: "\<exists>w'. op w = Inr w' \<and> pool_inv w' \<and> resumes [?t] (parked {#(c, ptr)#} [] w) w (parked {#} [] w') w'"
  proof (cases "call_runs c")
    case True
    with pool_push[OF st none] show ?thesis by (simp add: op_def)
  next
    case False
    obtain slot p w' where r: "poller_register i (c, ptr) (fw_poller w) = Inr (slot, p)"
      "(if call_deadline c = None then Inr (w\<lparr>fw_number_of_active_tasks := fw_number_of_active_tasks w + 1, fw_poller := p\<rparr>)
        else fallback_register_deadline slot (w\<lparr>fw_number_of_active_tasks := fw_number_of_active_tasks w + 1, fw_poller := p\<rparr>)) = Inr w'"
      "pool_inv w'" "resumes [?t] (parked {#(c, ptr)#} [] w) w (parked {#} [] w') w'"
      using pool_poll_socket[OF st none poll_call_pollable[OF False], of i "[?t]" "[]"] by blast
    have "op w = Inr w'"
      using False r(1,2) by (cases "call_deadline c") (simp_all add: op_def poll_socket_def poll_socket_and_deadline_def)
    with r(3,4) show ?thesis by blast
  qed
  have "\<exists>w'. pool_issue dbg i c ptr w = Inr w' \<and> pool_inv w' \<and> resumes [?t] (parked {#(c, ptr)#} [] w) w (parked {#} [] w') w'"
  proof (cases "\<exists>d. call_deadline c = Some d \<and> \<not> fw_last_gotten_time w < fw_deadlines w d")
    case True
    have "effect_tasks [?t] (running_effect ?t) = [?t]" by (simp add: running_effect_def)
    from pool_finish[OF st none, of "[?t]" running_effect dbg "Inl (FromKind TimedOut)" "[]"] this True show ?thesis
      by (auto simp: pool_issue_def pool_check_deadline_and_def)
  next
    case False
    then have "pool_issue dbg i c ptr w = op w"
      unfolding pool_issue_def op_def[symmetric] by (auto simp: pool_check_deadline_and_def split: option.splits)
    with op show ?thesis by simp
  qed
  with parked show ?thesis by simp
qed

section \<open>Histories\<close>

text \<open>
  The futures write the data and the deadlines of their requests and call methods; the threads and the parts of a poll take their
  steps in any order. What the callers respect: a request, its deadline and its socket belong to one call at
  a time.
\<close>

datatype pool_op =
    PoolNewRequest request_ptr task
  | PoolSetDeadline deadline_ptr nat
  | PoolCall io_method "deadline_ptr option" request_ptr
  | PoolSocket int int int request_ptr
  | PoolThread thread_op
  | PoolPoll "poll_event list"
  | PoolCheckDeadlines nat
  | PoolTakeCompletions

fun pool_do :: "bool \<Rightarrow> pool_op \<Rightarrow> pool_worker \<Rightarrow> pool_worker res" where
  "pool_do dbg (PoolNewRequest ptr t) w = Inr (w\<lparr>fw_mem := (fw_mem w)(ptr \<mapsto> io_request_new t)\<rparr>)"
| "pool_do dbg (PoolSetDeadline d v) w = Inr (w\<lparr>fw_deadlines := (fw_deadlines w)(d := v)\<rparr>)"
| "pool_do dbg (PoolCall m d ptr) w = pool_call dbg m d ptr w"
| "pool_do dbg (PoolSocket domain sock_type protocol ptr) w = pool_socket domain sock_type protocol ptr w"
| "pool_do dbg (PoolThread p) w = thread_step dbg p w"
| "pool_do dbg (PoolPoll events) w = bindR (pool_poll_and_process dbg events w) (\<lambda>(_, w'). Inr w')"
| "pool_do dbg (PoolCheckDeadlines now) w = pool_check_deadlines dbg now w"
| "pool_do dbg PoolTakeCompletions w = bindR (pool_take_completions dbg False w) (\<lambda>(_, w'). Inr w')"

text \<open>The call of an operation, and the task that makes it.\<close>

fun op_call :: "pool_op \<Rightarrow> (io_call \<times> request_ptr) option" where
  "op_call (PoolCall m d ptr) = Some (method_call m d, ptr)"
| "op_call (PoolSocket domain sock_type protocol ptr) = Some (Socket domain sock_type protocol, ptr)"
| "op_call _ = None"

definition op_tasks :: "pool_op \<Rightarrow> pool_worker \<Rightarrow> task list" where
  "op_tasks p w = (case op_call p of None \<Rightarrow> [] | Some x \<Rightarrow> [task_at (fw_mem w) x])"

fun pool_op_ok :: "pool_op \<Rightarrow> pool_worker \<Rightarrow> bool" where
  "pool_op_ok (PoolNewRequest ptr t) w \<longleftrightarrow> (\<forall>y \<in># pool_calls w. snd y \<noteq> ptr)"
| "pool_op_ok (PoolSetDeadline d v) w \<longleftrightarrow> (\<forall>y \<in># pool_calls w. call_deadline (fst y) \<noteq> Some d)"
| "pool_op_ok (PoolThread p) w \<longleftrightarrow> thread_ok p w"
| "pool_op_ok (PoolPoll events) w \<longleftrightarrow> events_ok events w"
| "pool_op_ok p w \<longleftrightarrow>
     (\<forall>x. op_call p = Some x \<longrightarrow> unfinished (fw_mem w) (snd x) \<and> (\<forall>y \<in># pool_calls w. apart x y))"

record pool_report =
  pr_submitted :: "task list"
  pr_resumed :: "task list"
  pr_no_panic :: bool

definition pool_step :: "bool \<Rightarrow> pool_op \<Rightarrow> pool_worker \<Rightarrow> pool_report \<times> pool_worker" where
  "pool_step dbg p w =
     (case pool_do dbg p w of
        Inl _ \<Rightarrow> (\<lparr>pr_submitted = [], pr_resumed = [], pr_no_panic = False\<rparr>, w)
      | Inr w' \<Rightarrow>
          (\<lparr>pr_submitted = op_tasks p w,
            pr_resumed = concat (map (effect_tasks (op_tasks p w)) (drop (length (fw_effects w)) (fw_effects w'))),
            pr_no_panic = True\<rparr>, w'))"

lemma pool_data_ok:
  assumes "pool_inv w"
  shows "\<forall>y \<in># pool_calls w. snd y \<noteq> ptr \<Longrightarrow> pool_inv (w\<lparr>fw_mem := (fw_mem w)(ptr \<mapsto> r)\<rparr>) \<and>
      parked {#} [] (w\<lparr>fw_mem := (fw_mem w)(ptr \<mapsto> r)\<rparr>) = parked {#} [] w"
    and "\<forall>y \<in># pool_calls w. call_deadline (fst y) \<noteq> Some d \<Longrightarrow> pool_inv (w\<lparr>fw_deadlines := (fw_deadlines w)(d := v)\<rparr>) \<and>
      parked {#} [] (w\<lparr>fw_deadlines := (fw_deadlines w)(d := v)\<rparr>) = parked {#} [] w"
proof -
  assume ptr: "\<forall>y \<in># pool_calls w. snd y \<noteq> ptr"
  then have "image_mset (task_at ((fw_mem w)(ptr \<mapsto> r))) (pool_calls w) = image_mset (task_at (fw_mem w)) (pool_calls w)"
    by (intro image_mset_cong) (simp add: task_at_def)
  with assms ptr show "pool_inv (w\<lparr>fw_mem := (fw_mem w)(ptr \<mapsto> r)\<rparr>) \<and>
      parked {#} [] (w\<lparr>fw_mem := (fw_mem w)(ptr \<mapsto> r)\<rparr>) = parked {#} [] w"
    by (auto simp: pool_state_def parked_def requests_ok_def unfinished_def)
next
  assume d: "\<forall>y \<in># pool_calls w. call_deadline (fst y) \<noteq> Some d"
  have fin: "finite (poller_live (fw_poller w))" using assms finite_poller_live by (simp add: pool_state_def)
  have "call_deadline (fst x) \<noteq> Some d" if "x \<in> poller_live (fw_poller w)" for x
  proof -
    have "live_request x \<in># pool_calls w" using that fin by (simp add: pool_calls_def poller_calls_def)
    with d show ?thesis by force
  qed
  then have "deadlines_ok (fw_time_bounded_io_task_queue w) ((fw_deadlines w)(d := v)) (poller_live (fw_poller w)) =
    deadlines_ok (fw_time_bounded_io_task_queue w) (fw_deadlines w) (poller_live (fw_poller w))"
    by (intro deadlines_ok_cong) auto
  with assms show "pool_inv (w\<lparr>fw_deadlines := (fw_deadlines w)(d := v)\<rparr>) \<and>
      parked {#} [] (w\<lparr>fw_deadlines := (fw_deadlines w)(d := v)\<rparr>) = parked {#} [] w"
    by (simp add: pool_state_def parked_def)
qed

lemma pool_do_ok:
  assumes "pool_inv w" and "pool_op_ok p w"
  shows "\<exists>w'. pool_do dbg p w = Inr w' \<and> pool_inv w' \<and>
    resumes (op_tasks p w) (parked {#} [] w + mset (op_tasks p w)) w (parked {#} [] w') w'"
proof (cases p)
  case (PoolNewRequest ptr t)
  with pool_data_ok(1)[OF assms(1)] assms(2) show ?thesis by (simp add: op_tasks_def)
next
  case (PoolSetDeadline d v)
  with pool_data_ok(2)[OF assms(1)] assms(2) show ?thesis by (simp add: op_tasks_def)
next
  case (PoolCall m d ptr)
  obtain i where i: "\<forall>w. pool_call dbg m d ptr w = pool_issue dbg i (method_call m d) ptr w" using pool_call_issue by blast
  from PoolCall assms(2) have "unfinished (fw_mem w) ptr" "\<forall>y \<in># pool_calls w. apart (method_call m d, ptr) y" by simp_all
  from pool_issue_ok[OF assms(1) this, of dbg i] PoolCall i show ?thesis by (simp add: op_tasks_def)
next
  case (PoolSocket domain sock_type protocol ptr)
  let ?c = "Socket domain sock_type protocol"
  have "pool_socket domain sock_type protocol ptr w = pool_issue dbg i ?c ptr w" for i
    by (simp add: pool_socket_def pool_issue_def call_runs_def call_deadline_def)
  moreover from PoolSocket assms(2) have "unfinished (fw_mem w) ptr" "\<forall>y \<in># pool_calls w. apart (?c, ptr) y" by simp_all
  ultimately show ?thesis using pool_issue_ok[OF assms(1), of ptr ?c dbg] PoolSocket by (simp add: op_tasks_def)
next
  case (PoolThread q)
  with thread_step_ok[OF assms(1)] assms(2) show ?thesis by (fastforce simp: op_tasks_def)
next
  case (PoolPoll events)
  then obtain did w' where "pool_poll_and_process dbg events w = Inr (did, w')" "pool_inv w'"
    "resumes [] (parked {#} [] w) w (parked {#} [] w') w'"
    using pool_poll_and_process_ok[OF assms(1)] assms(2) by force
  with PoolPoll show ?thesis by (simp add: op_tasks_def)
next
  case (PoolCheckDeadlines now)
  with pool_check_deadlines_ok[OF assms(1)] show ?thesis by (simp add: op_tasks_def)
next
  case PoolTakeCompletions
  obtain did w' where "pool_take_completions dbg False w = Inr (did, w')" "pool_inv w'"
    "resumes [] (parked {#} [] w) w (parked {#} [] w') w'"
    using pool_take_completions_ok[OF assms(1)] by blast
  with PoolTakeCompletions show ?thesis by (simp add: op_tasks_def)
qed

lemma pool_step_ok:
  assumes "pool_inv w" and "pool_op_ok p w" and "pool_step dbg p w = (r, w')"
  shows "pool_inv w'" and "pr_no_panic r"
    and "parked {#} [] w + mset (pr_submitted r) = parked {#} [] w' + mset (pr_resumed r)"
proof -
  obtain v where v: "pool_do dbg p w = Inr v" "pool_inv v"
    "resumes (op_tasks p w) (parked {#} [] w + mset (op_tasks p w)) w (parked {#} [] v) v"
    using pool_do_ok[OF assms(1,2)] by blast
  with assms(3) show "pool_inv w'" "pr_no_panic r"
    "parked {#} [] w + mset (pr_submitted r) = parked {#} [] w' + mset (pr_resumed r)"
    by (auto simp: pool_step_def resumes_def)
qed

interpretation pool: parking "pool_step dbg" pool_op_ok pool_inv "parked {#} []" pr_submitted pr_resumed
  by unfold_locales (use pool_step_ok in blast)+

lemma pool_start:
  assumes "0 < n"
  shows "pool_inv (pool_worker_new n now)" and "parked {#} [] (pool_worker_new n now) = {#}"
proof -
  have "concat (map thread_call (replicate n None)) = []" "concat (replicate n []) = []" by simp_all
  then have calls: "running_calls (pool_worker_new n now) = {#}" "pool_calls (pool_worker_new n now) = {#}"
    by (simp_all add: running_calls_def pool_calls_def pool_worker_new_def poller_new_wf)
  then show "parked {#} [] (pool_worker_new n now) = {#}" by (simp add: parked_def) (simp add: pool_worker_new_def)
  show "pool_inv (pool_worker_new n now)"
    using assms unfolding pool_state_def calls
    by (simp add: pool_worker_new_def poller_new_wf requests_ok_def deadlines_ok_def)
qed

section \<open>Properties\<close>

text \<open>
  C7. The fallback worker with a thread pool resumes every task once. Start it with at least one thread; let tasks call methods
  with and without deadlines, threads execute calls, sockets become ready or fail, deadlines pass and the worker take
  completions, in any order, under these conditions: a request, its deadline and its socket belong to one call at a time (two calls that
  block on one socket panic), only a call on a socket would block, a poll has at most one event for each registered socket and no other, and no shared task has an expired
  deadline when its socket becomes ready (such a task is lost). Then nothing panics,
  the tasks handed over are those resumed and those that wait, and the worker has work while a task waits.
\<close>

theorem pool_tasks_resumed_once:
  assumes "0 < n" and "oks pool_op_ok (pool_step dbg) ps (pool_worker_new n now)"
    and "run_ops (pool_step dbg) ps (pool_worker_new n now) = (os, w)"
  shows "list_all pr_no_panic os \<and>
    count (mset (concat (map pr_resumed os))) t + count (parked {#} [] w) t = count (mset (concat (map pr_submitted os))) t \<and>
    (parked {#} [] w \<noteq> {#} \<longrightarrow> fallback_has_work w)"
proof -
  note start = pool_start[OF assms(1), of now]
  have "list_all pr_no_panic os" by (rule pool.run_reports[OF _ start(1) assms(2,3)]) (rule pool_step_ok(2))
  moreover have "pool_inv w" by (rule pool.run_inv[OF start(1) assms(2,3)])
  then have "size (parked {#} [] w) \<le> fw_number_of_active_tasks w" using pool_stateD(5) by (fastforce simp: parked_def)
  then have "parked {#} [] w \<noteq> {#} \<longrightarrow> fallback_has_work w" by (auto simp: fallback_has_work_def nonempty_has_size)
  ultimately show ?thesis using pool.run_resumed_once[OF start assms(2,3), of t] by blast
qed

definition pool_demo :: "pool_op list" where
  "pool_demo = [PoolNewRequest 256 demo_task, PoolCall (RecvMethod (MRecv 5 4096 64)) None 256,
     PoolThread (ThreadRecv 0), PoolThread (ThreadTry would_block 0), PoolTakeCompletions,
     PoolPoll [single_event 0 False], PoolThread (ThreadRecv 0), PoolThread (ThreadTry received 0), PoolTakeCompletions]"

theorem pool_tasks_resumed_once_witness:
  "\<exists>os w. run_ops (pool_step True) pool_demo (pool_worker_new 1 0) = (os, w) \<and> list_all pr_no_panic os \<and>
     concat (map pr_submitted os) = [demo_task] \<and> concat (map pr_resumed os) = [demo_task] \<and> parked {#} [] w = {#}"
proof -
  note state = pool_worker_new_def mio_poller_new_def poller_new_wf(3)[unfolded mio_poller_new_def] pool_calls_def running_calls_def
  note threads = thread_ok_def thread_worker_recv_def thread_worker_try_def thread_worker_push_def thread_worker_done_def
    would_block_def received_def io_request_task_def io_request_set_ret_def io_request_new_def EAGAIN_def ETIMEDOUT_def
    call_pollable_def is_recv_pollable_def unfinished_def
  note polls = push_to_worker_pool_def pool_take_completions_def synced_completions_def pool_process_completion_def
    completion_interest_def poller_register_def unwrap_socket_def write_request_and_get_ptr_def call_deadline_def
    events_ok_def live_token_def polled_task_kept_def single_event_def pool_poll_and_process_def release_request_slot_def
    poller_deregister_socket_def pool_process_polled_def pool_retry_def must_retry_def
  note defs = pool_demo_def pool_step_def op_tasks_def task_at_def polled_effect_def Let_def state threads polls
  have ok: "oks pool_op_ok (pool_step True) pool_demo (pool_worker_new 1 0)" by (simp add: defs)
  obtain os w where r: "run_ops (pool_step True) pool_demo (pool_worker_new 1 0) = (os, w)" by fastforce
  then have out: "concat (map pr_submitted os) = [demo_task]" "concat (map pr_resumed os) = [demo_task]" by (auto simp: defs)
  have "parked {#} [] w = {#}"
  proof (rule multiset_eqI)
    fix t
    show "count (parked {#} [] w) t = count {#} t" using pool_tasks_resumed_once[OF _ ok r, of t] out by simp
  qed
  with r out pool_tasks_resumed_once[OF _ ok r] show ?thesis by simp
qed

text \<open>The steps from a ready socket to the resumed task, on the thread \<open>i\<close>.\<close>

definition retry_steps :: "nat \<Rightarrow> os_fun \<Rightarrow> nat \<Rightarrow> pool_op list" where
  "retry_steps slot os i = [PoolPoll [single_event slot False], PoolThread (ThreadRecv i), PoolThread (ThreadTry os i),
     PoolTakeCompletions]"

lemma idle_threads:
  assumes "pool_state P D n w" and "running_calls w = {#}" and "i < length (pw_workers w)"
  shows "pw_workers w ! i = []" and "pw_threads w ! i = None"
proof -
  have c: "concat (pw_workers w) = []" "concat (map thread_call (pw_threads w)) = []" using assms(2) by (simp_all add: running_calls_def)
  have i: "i < length (pw_threads w)" using assms(1,3) by (simp add: pool_state_def)
  have "pw_workers w ! i \<in> set (pw_workers w)" "pw_threads w ! i \<in> set (pw_threads w)" using assms(3) i by simp_all
  then have "pw_workers w ! i = []" "thread_call (pw_threads w ! i) = []" using c by auto
  then show "pw_workers w ! i = []" "pw_threads w ! i = None" by (simp_all add: thread_call_def split: option.splits)
qed

lemma retry_steps_run:
  assumes "pool_inv w" and "running_calls w = {#}" and "pw_completions w = []" and "fw_number_of_active_tasks w = 1"
    and "(c, ptr, s, slot) \<in> poller_live (fw_poller w)" and "must_retry c = Inr True" and "call_deadline c = None"
    and "do_io_work os c = Inr (Inr k)" and "i = 1 mod length (pw_workers w)" and "fw_mem w ptr = Some d" and "\<not> rd_was_executed d"
  shows "oks pool_op_ok (pool_step dbg) (retry_steps slot os i) w \<and>
    (\<exists>os' w'. run_ops (pool_step dbg) (retry_steps slot os i) w = (os', w') \<and> concat (map pr_submitted os') = [] \<and> concat (map pr_resumed os') = [rd_task d] \<and> fw_number_of_active_tasks w' = 1)"
proof -
  have ws: "pw_workers w \<noteq> []" "length (pw_threads w) = length (pw_workers w)" "poller_wf (fw_poller w)"
    using assms(1) by (simp_all add: pool_state_def)
  have i: "i < length (pw_workers w)" using ws(1) assms(9) by (metis length_greater_0_conv mod_less_divisor)
  note idle = idle_threads[OF assms(1,2) i]
  note live = poller_live_socket[OF ws(3) assms(5)]
  let ?p = "polled_away slot s (fw_poller w)"
  have poll: "poller_poll [single_event slot False] (fw_poller w) = Inr ([(True, c, ptr)], ?p)"
    using poller_poll_single[OF live(3,1), of False] live(2) by auto
  let ?w1 = "w\<lparr>fw_poller := ?p, pw_workers := (pw_workers w)[i := [(c, ptr)]], fw_number_of_active_tasks := Suc 1\<rparr>"
  have s1: "pool_do dbg (PoolPoll [single_event slot False]) w = Inr ?w1"
    using poll assms(4,6,7,9) ws(1) idle(1)
    by (simp add: pool_poll_and_process_def pool_process_polled_def pool_retry_def push_to_worker_pool_def
        del: poller_poll.simps)
  let ?w2 = "?w1\<lparr>pw_threads := (pw_threads w)[i := Some (c, ptr)], pw_workers := (pw_workers w)[i := []]\<rparr>"
  have s2: "pool_do dbg (PoolThread (ThreadRecv i)) ?w1 = Inr ?w2"
    using i ws(2) idle(2) by (simp add: thread_worker_recv_def)
  obtain d' where d': "io_request_task dbg (io_request_set_ret (Inr k) d) = Inr (rd_task d, d')"
    using assms(11) by (cases dbg) (simp_all add: io_request_task_def io_request_set_ret_def)
  let ?w3 = "?w2\<lparr>fw_mem := (fw_mem w)(ptr \<mapsto> d'), pw_threads := (pw_threads w)[i := None], pw_completions := [Done (rd_task d)]\<rparr>"
  have s3: "pool_do dbg (PoolThread (ThreadTry os i)) ?w2 = Inr ?w3"
    using i ws(2) assms(3,8,10) d' by (simp add: thread_worker_try_def thread_worker_done_def thread_worker_push_def)
  let ?w4 = "?w3\<lparr>pw_completions := [], fw_number_of_active_tasks := 1, fw_effects := fw_effects w @ [polled_effect (rd_task d)]\<rparr>"
  have s4: "pool_do dbg PoolTakeCompletions ?w3 = Inr ?w4"
    by (simp add: pool_take_completions_def synced_completions_def pool_process_completion_def)
  have e: "effect_tasks [] (polled_effect (rd_task d)) = [rd_task d]" by (simp add: polled_effect_def)
  have step: "pool_step dbg p v = (\<lparr>pr_submitted = [], pr_resumed = concat (map (effect_tasks []) es), pr_no_panic = True\<rparr>, v')"
    if "pool_do dbg p v = Inr v'" "op_call p = None" "fw_effects v' = fw_effects v @ es" for p v v' es
    using that by (simp add: pool_step_def op_tasks_def)
  have r: "pool_step dbg (PoolPoll [single_event slot False]) w = (\<lparr>pr_submitted = [], pr_resumed = [], pr_no_panic = True\<rparr>, ?w1)"
    "pool_step dbg (PoolThread (ThreadRecv i)) ?w1 = (\<lparr>pr_submitted = [], pr_resumed = [], pr_no_panic = True\<rparr>, ?w2)"
    "pool_step dbg (PoolThread (ThreadTry os i)) ?w2 = (\<lparr>pr_submitted = [], pr_resumed = [], pr_no_panic = True\<rparr>, ?w3)"
    "pool_step dbg PoolTakeCompletions ?w3 = (\<lparr>pr_submitted = [], pr_resumed = [rd_task d], pr_no_panic = True\<rparr>, ?w4)"
    using step[OF s1, of "[]"] step[OF s2, of "[]"] step[OF s3, of "[]"] step[OF s4, of "[polled_effect (rd_task d)]"] e
    by simp_all
  have k1: "pool_op_ok (PoolPoll [single_event slot False]) w"
    using live(2) assms(7) live(3) by (auto simp: events_ok_def live_token_def polled_task_kept_def single_event_def)
  have k2: "pool_op_ok (PoolThread (ThreadRecv i)) ?w1" "pool_op_ok (PoolThread (ThreadTry os i)) ?w2" "pool_op_ok PoolTakeCompletions ?w3"
    using i ws(2) assms(8) by (simp_all add: thread_ok_def)
  show ?thesis unfolding retry_steps_def oks.simps run_ops.simps r snd_conv prod.case using k1 k2 by simp
qed

text \<open>
  C39. The pool worker counts a call twice when it would block first: the poll that hands it back to a thread adds to the count and nothing takes
  it away. When a single call waits in the poller, its socket becomes ready, and a thread completes it, then the task is resumed, nothing waits,
  and the worker still says that it has work, so its executor goes on polling.
\<close>

theorem pool_retried_call_leaks_count:
  assumes "pool_inv w" and "pool_calls w = {#(c, ptr)#}" and "pw_completions w = []" and "fw_number_of_active_tasks w = 1"
    and "(c, ptr, s, slot) \<in> poller_live (fw_poller w)" and "must_retry c = Inr True" and "call_deadline c = None"
    and "do_io_work os c = Inr (Inr k)"
  shows "\<exists>os' w'. run_ops (pool_step dbg) (retry_steps slot os (1 mod length (pw_workers w))) w = (os', w') \<and>
    concat (map pr_resumed os') = [task_at (fw_mem w) (c, ptr)] \<and> parked {#} [] w' = {#} \<and> fallback_has_work w'"
proof -
  let ?i = "1 mod length (pw_workers w)"
  have wf: "poller_wf (fw_poller w)" "pw_workers w \<noteq> []" "length (pw_threads w) = length (pw_workers w)"
    using assms(1) by (simp_all add: pool_state_def)
  have "live_request (c, ptr, s, slot) \<in># poller_calls (fw_poller w)"
    using assms(5) finite_poller_live[OF wf(1)] unfolding poller_calls_def set_image_mset by (intro imageI) simp
  then have "(c, ptr) \<in># poller_calls (fw_poller w)" by simp
  then obtain M where "poller_calls (fw_poller w) = add_mset (c, ptr) M" by (rule mset_add)
  then have run: "running_calls w = {#}" using assms(2) by (simp add: pool_calls_def)
  obtain d where d: "fw_mem w ptr = Some d" "\<not> rd_was_executed d"
    using pool_stateD(1)[OF assms(1)] assms(2) by (auto simp: requests_ok_def unfinished_def)
  obtain os' w' where ok: "oks pool_op_ok (pool_step dbg) (retry_steps slot os ?i) w"
    and r: "run_ops (pool_step dbg) (retry_steps slot os ?i) w = (os', w')"
      "concat (map pr_submitted os') = []" "concat (map pr_resumed os') = [rd_task d]" "fw_number_of_active_tasks w' = 1"
    using retry_steps_run[OF assms(1) run assms(3-8) refl d] by blast
  from pool.run_balance[OF assms(1) ok r(1)] r(2,3) assms(2,3) d(1)
  have "parked {#} [] w' = {#}" by (simp add: parked_def task_at_def)
  with r d(1) show ?thesis by (simp add: fallback_has_work_def task_at_def)
qed

theorem pool_retried_call_leaks_count_witness:
  "\<exists>w os' w'. snd (run_ops (pool_step True) (take 5 pool_demo) (pool_worker_new 1 0)) = w \<and>
     run_ops (pool_step True) (retry_steps 0 received 0) w = (os', w') \<and>
     concat (map pr_resumed os') = [demo_task] \<and> parked {#} [] w' = {#} \<and> fallback_has_work w'"
proof -
  note state = pool_worker_new_def mio_poller_new_def poller_new_wf(3)[unfolded mio_poller_new_def] pool_calls_def running_calls_def
  note threads = thread_ok_def thread_worker_recv_def thread_worker_try_def thread_worker_push_def thread_worker_done_def
    would_block_def io_request_new_def EAGAIN_def ETIMEDOUT_def call_pollable_def is_recv_pollable_def unfinished_def
  note polls = push_to_worker_pool_def pool_take_completions_def synced_completions_def pool_process_completion_def
    completion_interest_def poller_register_def unwrap_socket_def write_request_and_get_ptr_def call_deadline_def
  note defs = pool_demo_def pool_step_def op_tasks_def task_at_def polled_effect_def Let_def state threads polls
  let ?c = "Recv 5 4096 64"
  have ok: "oks pool_op_ok (pool_step True) (take 5 pool_demo) (pool_worker_new 1 0)" by (simp add: defs)
  obtain os w where r: "run_ops (pool_step True) (take 5 pool_demo) (pool_worker_new 1 0) = (os, w)" by fastforce
  have inv: "pool_inv w" by (rule pool.run_inv[OF pool_start(1) ok r]) simp
  have live: "(?c, 256, 5, 0) \<in> poller_live (fw_poller w)" using r by (auto simp: defs poller_live_def)
  have w: "running_calls w = {#}" "pw_completions w = []" "fw_number_of_active_tasks w = 1" "length (pw_workers w) = 1"
    "task_at (fw_mem w) (?c, 256) = demo_task"
    using r by (auto simp: defs)
  have "poller_live (fw_poller w) = {(?c, 256, 5, 0)}" using r by (auto simp: defs poller_live_def split: if_splits)
  then have calls: "pool_calls w = {#(?c, 256)#}" using w(1,2) by (simp add: pool_calls_def poller_calls_def)
  have "must_retry ?c = Inr True" "call_deadline ?c = None" "do_io_work received ?c = Inr (Inr 5)"
    by (simp_all add: must_retry_def call_deadline_def received_def)
  from pool_retried_call_leaks_count[OF inv calls w(2,3) live this, of True] w(4,5) r show ?thesis by simp
qed

text \<open>
  The loop of \<open>must_poll\<close>: every round takes its time slice off the timeout, so the loop ends, and the slices add up to at most the timeout.
\<close>

lemma pool_poll_loop_returns:
  "0 < diff \<Longrightarrow> \<exists>r. pool_poll_loop dbg rounds i waited timeout diff w = Some r \<and>
     (case r of Inl _ \<Rightarrow> True | Inr (t', _) \<Rightarrow> waited \<le> t' \<and> t' \<le> waited + timeout)"
proof (induction timeout arbitrary: i waited diff w rule: less_induct)
  case (less timeout)
  show ?case
  proof (cases "timeout = 0")
    case False
    show ?thesis
    proof (cases "pool_must_poll_round dbg (rounds i (min timeout diff)) w")
      case (Inr r)
      have "0 < next_diff diff" using less.prems by (simp add: next_diff_def MAX_DIFF_def)
      moreover have "timeout - diff < timeout" using False less.prems by simp
      ultimately obtain r' where "pool_poll_loop dbg rounds (i + 1) (waited + min timeout diff) (timeout - diff) (next_diff diff) (snd r) = Some r'"
        and "case r' of Inl _ \<Rightarrow> True | Inr (t', _) \<Rightarrow>
          waited + min timeout diff \<le> t' \<and> t' \<le> waited + min timeout diff + (timeout - diff)"
        using less.IH[of "timeout - diff" "next_diff diff" "i + 1" "waited + min timeout diff" "snd r"] by blast
      with Inr False show ?thesis
        by (subst pool_poll_loop.simps) (auto split: sum.splits prod.splits)
    qed (use False in \<open>subst pool_poll_loop.simps; simp\<close>)
  qed (subst pool_poll_loop.simps; simp)
qed

text \<open>
  C29. The poll of the pool worker always returns, whatever the sockets and the threads do, and unless a round panics the time slices that it waits
  for add up to at most the timeout that it was given.
\<close>

theorem pool_must_poll_returns:
  "\<exists>r. pool_must_poll dbg rounds timeout_option w = Some r \<and>
     (case r of Inl _ \<Rightarrow> True | Inr (waited, _) \<Rightarrow> waited \<le> (case timeout_option of None \<Rightarrow> 0 | Some t \<Rightarrow> t))"
proof -
  let ?t = "case timeout_option of None \<Rightarrow> 0 | Some t \<Rightarrow> t"
  show ?thesis
  proof (cases "pool_must_poll_round dbg (rounds 0 (min ?t 16000)) w")
    case (Inr r)
    obtain r' where "pool_poll_loop dbg rounds 1 (min ?t 16000) (?t - 16000) 16000 (snd r) = Some r'"
      and "case r' of Inl _ \<Rightarrow> True | Inr (t', _) \<Rightarrow> min ?t 16000 \<le> t' \<and> t' \<le> min ?t 16000 + (?t - 16000)"
      using pool_poll_loop_returns[of 16000 dbg rounds 1 "min ?t 16000" "?t - 16000" "snd r"] by auto
    with Inr show ?thesis unfolding pool_must_poll_def Let_def by (auto split: sum.splits prod.splits)
  qed (simp add: pool_must_poll_def Let_def)
qed

end
