(* ===== verification/Io_Futures.thy ===== *)
theory Io_Futures
  imports Io_Uring
begin

text \<open>
  The futures of single I/O operations (\<open>src/src/io/net\<close>, \<open>src/src/io/fs\<close>, \<open>src/src/io/close.rs\<close>): the method of the worker that each
  one calls, with its arguments, and what it makes of the result. A future is polled by the macros of
  \<open>src/orengine-macros/src/lib.rs\<close>, here with the io_uring worker.

  A slice is its address and its length, a path or a message header its address.
\<close>

section \<open>What a future keeps\<close>

text \<open>
  The last argument of the macros turns \<open>ret\<close> into the output. \<open>RetFd\<close> is a cast to a descriptor, an \<open>i32\<close>. \<open>RetAccept\<close> adds the
  address that the kernel wrote, with its length, and \<open>RetFrom\<close> sets the length of the caller's address.
\<close>

datatype io_ret = RetUsize | RetU32 | RetUnit | RetFd | RetAccept | RetFrom

datatype io_output = OutUsize nat | OutU32 "32 word" | OutUnit | OutFd fd | OutAccept fd nat | OutFrom nat nat

definition as_raw_fd :: "nat \<Rightarrow> fd" where
  "as_raw_fd ret = sint (of_nat ret :: 32 word)"

fun ret_output :: "io_ret \<Rightarrow> nat \<Rightarrow> nat \<Rightarrow> io_output" where
  "ret_output RetUsize addr_len ret = OutUsize ret"
| "ret_output RetU32 addr_len ret = OutU32 (of_nat ret)"
| "ret_output RetUnit addr_len ret = OutUnit"
| "ret_output RetFd addr_len ret = OutFd (as_raw_fd ret)"
| "ret_output RetAccept addr_len ret = OutAccept (as_raw_fd ret) addr_len"
| "ret_output RetFrom addr_len ret = OutFrom ret addr_len"

record io_future =
  fu_method :: io_method
  fu_deadline :: "nat option"
  fu_ret :: io_ret

definition io_future :: "io_method \<Rightarrow> nat option \<Rightarrow> io_ret \<Rightarrow> io_future" where
  "io_future m deadline ret = \<lparr>fu_method = m, fu_deadline = deadline, fu_ret = ret\<rparr>"

text \<open>The cast \<open>buf.len() as u32\<close>.\<close>

definition len_as_u32 :: "nat \<Rightarrow> 32 word" where
  "len_as_u32 len = of_nat len"

section \<open>Sockets\<close>

datatype recv_future =
    RecvBytes fd addr nat
  | RecvFixed fd addr "32 word" "16 word"
  | RecvBytesWithDeadline fd addr nat nat
  | RecvFixedWithDeadline fd addr "32 word" "16 word" nat

fun recv_request :: "recv_future \<Rightarrow> io_future" where
  "recv_request (RecvBytes raw_socket buf len) = io_future (RecvMethod (MRecv raw_socket buf (len_as_u32 len))) None RetUsize"
| "recv_request (RecvFixed raw_socket ptr len fixed_index) =
     io_future (RecvMethod (MRecvFixed raw_socket ptr len fixed_index)) None RetU32"
| "recv_request (RecvBytesWithDeadline raw_socket buf len deadline) =
     io_future (RecvMethod (MRecv raw_socket buf (len_as_u32 len))) (Some deadline) RetUsize"
| "recv_request (RecvFixedWithDeadline raw_socket ptr len fixed_index deadline) =
     io_future (RecvMethod (MRecvFixed raw_socket ptr len fixed_index)) (Some deadline) RetU32"

datatype peek_future =
    PeekBytes fd addr nat
  | PeekFixed fd addr "32 word" "16 word"
  | PeekBytesWithDeadline fd addr nat nat
  | PeekFixedWithDeadline fd addr "32 word" "16 word" nat

fun peek_request :: "peek_future \<Rightarrow> io_future" where
  "peek_request (PeekBytes raw_socket buf len) = io_future (PeekMethod (MPeek raw_socket buf (len_as_u32 len))) None RetUsize"
| "peek_request (PeekFixed raw_socket ptr len fixed_index) =
     io_future (PeekMethod (MPeekFixed raw_socket ptr len fixed_index)) None RetU32"
| "peek_request (PeekBytesWithDeadline raw_socket buf len deadline) =
     io_future (PeekMethod (MPeek raw_socket buf (len_as_u32 len))) (Some deadline) RetUsize"
| "peek_request (PeekFixedWithDeadline raw_socket ptr len fixed_index deadline) =
     io_future (PeekMethod (MPeekFixed raw_socket ptr len fixed_index)) (Some deadline) RetU32"

datatype send_future =
    SendBytes fd addr nat
  | SendFixed fd addr "32 word" "16 word"
  | SendBytesWithDeadline fd addr nat nat
  | SendFixedWithDeadline fd addr "32 word" "16 word" nat

fun send_request :: "send_future \<Rightarrow> io_future" where
  "send_request (SendBytes raw_socket buf len) = io_future (SendMethod (MSend raw_socket buf (len_as_u32 len))) None RetUsize"
| "send_request (SendFixed raw_socket ptr len fixed_index) =
     io_future (SendMethod (MSendFixed raw_socket ptr len fixed_index)) None RetU32"
| "send_request (SendBytesWithDeadline raw_socket buf len deadline) =
     io_future (SendMethod (MSend raw_socket buf (len_as_u32 len))) (Some deadline) RetUsize"
| "send_request (SendFixedWithDeadline raw_socket ptr len fixed_index deadline) =
     io_future (SendMethod (MSendFixed raw_socket ptr len fixed_index)) (Some deadline) RetU32"

text \<open>The futures that come without and with a deadline, otherwise alike.\<close>

definition recv_from_request :: "fd \<Rightarrow> addr \<Rightarrow> nat option \<Rightarrow> io_future" where
  "recv_from_request raw_socket msg_header deadline = io_future (RecvMethod (MRecvFrom raw_socket msg_header)) deadline RetFrom"

definition peek_from_request :: "fd \<Rightarrow> addr \<Rightarrow> nat option \<Rightarrow> io_future" where
  "peek_from_request raw_socket msg_header deadline = io_future (PeekMethod (MPeekFrom raw_socket msg_header)) deadline RetFrom"

definition send_to_request :: "fd \<Rightarrow> addr \<Rightarrow> nat option \<Rightarrow> io_future" where
  "send_to_request raw_socket msg_header deadline = io_future (SendMethod (MSendTo raw_socket msg_header)) deadline RetUsize"

definition accept_request :: "fd \<Rightarrow> addr \<Rightarrow> addr \<Rightarrow> nat option \<Rightarrow> io_future" where
  "accept_request raw_socket storage len deadline = io_future (ConnMethod (MAccept raw_socket storage len)) deadline RetAccept"

definition connect_request :: "fd \<Rightarrow> addr \<Rightarrow> nat \<Rightarrow> nat option \<Rightarrow> io_future" where
  "connect_request raw_fd addr addr_len deadline = io_future (ConnMethod (MConnect raw_fd addr addr_len)) deadline RetUnit"

text \<open>\<open>generate_poll!\<close>, with the method as its argument.\<close>

definition poll_fd_request :: "(fd \<Rightarrow> conn_method) \<Rightarrow> fd \<Rightarrow> nat option \<Rightarrow> io_future" where
  "poll_fd_request method raw_socket deadline = io_future (ConnMethod (method raw_socket)) deadline RetUnit"

definition poll_recv_request :: "fd \<Rightarrow> nat option \<Rightarrow> io_future" where
  "poll_recv_request = poll_fd_request MPollSocketRead"

definition poll_send_request :: "fd \<Rightarrow> nat option \<Rightarrow> io_future" where
  "poll_send_request = poll_fd_request MPollSocketWrite"

definition shutdown_request :: "fd \<Rightarrow> shutdown \<Rightarrow> io_future" where
  "shutdown_request raw_socket how = io_future (FileMethod (MShutdown raw_socket how)) None RetUnit"

section \<open>Files\<close>

datatype read_future =
    ReadBytes fd addr nat
  | ReadFixed fd addr "32 word" "16 word"
  | PositionedReadBytes fd addr nat "64 word"
  | PositionedReadFixed fd addr "32 word" "16 word" "64 word"

fun read_request :: "read_future \<Rightarrow> io_future" where
  "read_request (ReadBytes raw_file buf len) = io_future (FileMethod (MRead raw_file buf (len_as_u32 len))) None RetUsize"
| "read_request (ReadFixed raw_file ptr len fixed_index) = io_future (FileMethod (MReadFixed raw_file ptr len fixed_index)) None RetU32"
| "read_request (PositionedReadBytes raw_file buf len offset) =
     io_future (FileMethod (MPread raw_file buf (len_as_u32 len) offset)) None RetUsize"
| "read_request (PositionedReadFixed raw_file ptr len fixed_index offset) =
     io_future (FileMethod (MPreadFixed raw_file ptr len fixed_index offset)) None RetU32"

datatype write_future =
    WriteBytes fd addr nat
  | WriteFixed fd addr "32 word" "16 word"
  | PositionedWriteBytes fd addr nat "64 word"
  | PositionedWriteFixed fd addr "32 word" "16 word" "64 word"

fun write_request :: "write_future \<Rightarrow> io_future" where
  "write_request (WriteBytes raw_file buf len) = io_future (WriteMethod (MWrite raw_file buf (len_as_u32 len))) None RetUsize"
| "write_request (WriteFixed raw_file ptr len fixed_index) =
     io_future (WriteMethod (MWriteFixed raw_file ptr len fixed_index)) None RetU32"
| "write_request (PositionedWriteBytes raw_file buf len offset) =
     io_future (WriteMethod (MPwrite raw_file buf (len_as_u32 len) offset)) None RetUsize"
| "write_request (PositionedWriteFixed raw_file ptr len fixed_index offset) =
     io_future (WriteMethod (MPwriteFixed raw_file ptr len fixed_index offset)) None RetU32"

definition open_request :: "addr \<Rightarrow> addr \<Rightarrow> io_future" where
  "open_request path os_open_options = io_future (FileMethod (MOpen path os_open_options)) None RetFd"

definition fallocate_request :: "fd \<Rightarrow> 64 word \<Rightarrow> 64 word \<Rightarrow> int \<Rightarrow> io_future" where
  "fallocate_request raw_file offset len flags = io_future (FileMethod (MFallocate raw_file offset len flags)) None RetUnit"

definition sync_all_request :: "fd \<Rightarrow> io_future" where
  "sync_all_request raw_file = io_future (FileMethod (MSyncAll raw_file)) None RetUsize"

definition sync_data_request :: "fd \<Rightarrow> io_future" where
  "sync_data_request raw_file = io_future (FileMethod (MSyncData raw_file)) None RetUsize"

definition rename_request :: "addr \<Rightarrow> addr \<Rightarrow> io_future" where
  "rename_request old_path new_path = io_future (WriteMethod (MRename old_path new_path)) None RetUnit"

definition create_dir_request :: "addr \<Rightarrow> 32 word \<Rightarrow> io_future" where
  "create_dir_request os_path mode = io_future (WriteMethod (MCreateDir os_path mode)) None RetUnit"

definition remove_request :: "addr \<Rightarrow> io_future" where
  "remove_request path = io_future (WriteMethod (MRemoveFile path)) None RetUnit"

definition remove_dir_request :: "addr \<Rightarrow> io_future" where
  "remove_dir_request path = io_future (WriteMethod (MRemoveDir path)) None RetUnit"

definition close_socket_request :: "fd \<Rightarrow> io_future" where
  "close_socket_request raw_socket = io_future (WriteMethod (MCloseSocket raw_socket)) None RetUnit"

definition close_file_request :: "fd \<Rightarrow> io_future" where
  "close_file_request raw_file = io_future (WriteMethod (MCloseFile raw_file)) None RetUnit"

section \<open>What each future asks of the kernel\<close>

text \<open>
  All futures of single operations, and what they promise, independently of the methods of the worker: the entry of the submission queue with its
  arguments, the deadline, and the output made of a result that is not an error. \<open>Socket\<close> has a poll of its own, below.
\<close>

datatype lib_future =
    FRecv recv_future
  | FPeek peek_future
  | FSend send_future
  | FRecvFrom fd addr "nat option"
  | FPeekFrom fd addr "nat option"
  | FSendTo fd addr "nat option"
  | FAccept fd addr addr "nat option"
  | FConnect fd addr nat "nat option"
  | FPollRecv fd "nat option"
  | FPollSend fd "nat option"
  | FShutdown fd shutdown
  | FRead read_future
  | FWrite write_future
  | FOpen addr addr
  | FFallocate fd "64 word" "64 word" int
  | FSyncAll fd
  | FSyncData fd
  | FRename addr addr
  | FCreateDir addr "32 word"
  | FRemove addr
  | FRemoveDir addr
  | FCloseSocket fd
  | FCloseFile fd

fun lib_request :: "lib_future \<Rightarrow> io_future" where
  "lib_request (FRecv x) = recv_request x"
| "lib_request (FPeek x) = peek_request x"
| "lib_request (FSend x) = send_request x"
| "lib_request (FRecvFrom raw_socket msg_header deadline) = recv_from_request raw_socket msg_header deadline"
| "lib_request (FPeekFrom raw_socket msg_header deadline) = peek_from_request raw_socket msg_header deadline"
| "lib_request (FSendTo raw_socket msg_header deadline) = send_to_request raw_socket msg_header deadline"
| "lib_request (FAccept raw_socket storage len deadline) = accept_request raw_socket storage len deadline"
| "lib_request (FConnect raw_fd addr addr_len deadline) = connect_request raw_fd addr addr_len deadline"
| "lib_request (FPollRecv raw_socket deadline) = poll_recv_request raw_socket deadline"
| "lib_request (FPollSend raw_socket deadline) = poll_send_request raw_socket deadline"
| "lib_request (FShutdown raw_socket how) = shutdown_request raw_socket how"
| "lib_request (FRead x) = read_request x"
| "lib_request (FWrite x) = write_request x"
| "lib_request (FOpen path options) = open_request path options"
| "lib_request (FFallocate raw_file offset len flags) = fallocate_request raw_file offset len flags"
| "lib_request (FSyncAll raw_file) = sync_all_request raw_file"
| "lib_request (FSyncData raw_file) = sync_data_request raw_file"
| "lib_request (FRename old_path new_path) = rename_request old_path new_path"
| "lib_request (FCreateDir path mode) = create_dir_request path mode"
| "lib_request (FRemove path) = remove_request path"
| "lib_request (FRemoveDir path) = remove_dir_request path"
| "lib_request (FCloseSocket raw_socket) = close_socket_request raw_socket"
| "lib_request (FCloseFile raw_file) = close_file_request raw_file"

text \<open>A slice of \<open>len\<close> bytes is requested modulo \<open>2 ^ 32\<close>; a fixed buffer is addressed with its index; the position of a file is all ones.\<close>

fun kernel_op :: "lib_future \<Rightarrow> sqe_op" where
  "kernel_op (FRecv (RecvBytes s p len)) = SqRecv s p (of_nat len) 0"
| "kernel_op (FRecv (RecvBytesWithDeadline s p len d)) = SqRecv s p (of_nat len) 0"
| "kernel_op (FRecv (RecvFixed s p len i)) = SqReadFixed s p len i 0"
| "kernel_op (FRecv (RecvFixedWithDeadline s p len i d)) = SqReadFixed s p len i 0"
| "kernel_op (FPeek (PeekBytes s p len)) = SqRecv s p (of_nat len) MSG_PEEK"
| "kernel_op (FPeek (PeekBytesWithDeadline s p len d)) = SqRecv s p (of_nat len) MSG_PEEK"
| "kernel_op (FPeek (PeekFixed s p len i)) = SqRecv s p len MSG_PEEK"
| "kernel_op (FPeek (PeekFixedWithDeadline s p len i d)) = SqRecv s p len MSG_PEEK"
| "kernel_op (FSend (SendBytes s p len)) = SqSend s p (of_nat len)"
| "kernel_op (FSend (SendBytesWithDeadline s p len d)) = SqSend s p (of_nat len)"
| "kernel_op (FSend (SendFixed s p len i)) = SqWriteFixed s p len i 0"
| "kernel_op (FSend (SendFixedWithDeadline s p len i d)) = SqWriteFixed s p len i 0"
| "kernel_op (FRecvFrom s msg d) = SqRecvMsg s msg 0"
| "kernel_op (FPeekFrom s msg d) = SqRecvMsg s msg MSG_PEEK"
| "kernel_op (FSendTo s msg d) = SqSendMsg s msg"
| "kernel_op (FAccept s a len d) = SqAccept s a len"
| "kernel_op (FConnect s a len d) = SqConnect s a len"
| "kernel_op (FPollRecv s d) = SqPollAdd s POLLIN"
| "kernel_op (FPollSend s d) = SqPollAdd s POLLOUT"
| "kernel_op (FShutdown s ShutRead) = SqShutdown s 0"
| "kernel_op (FShutdown s ShutWrite) = SqShutdown s 1"
| "kernel_op (FShutdown s ShutBoth) = SqShutdown s 2"
| "kernel_op (FRead (ReadBytes h p len)) = SqRead h p (of_nat len) (- 1)"
| "kernel_op (FRead (ReadFixed h p len i)) = SqReadFixed h p len i (- 1)"
| "kernel_op (FRead (PositionedReadBytes h p len offset)) = SqRead h p (of_nat len) offset"
| "kernel_op (FRead (PositionedReadFixed h p len i offset)) = SqReadFixed h p len i offset"
| "kernel_op (FWrite (WriteBytes h p len)) = SqWrite h p (of_nat len) (- 1)"
| "kernel_op (FWrite (WriteFixed h p len i)) = SqWriteFixed h p len i (- 1)"
| "kernel_op (FWrite (PositionedWriteBytes h p len offset)) = SqWrite h p (of_nat len) offset"
| "kernel_op (FWrite (PositionedWriteFixed h p len i offset)) = SqWriteFixed h p len i offset"
| "kernel_op (FOpen path options) = SqOpenAt2 AT_FDCWD path options"
| "kernel_op (FFallocate h offset len flags) = SqFallocate h len offset flags"
| "kernel_op (FSyncAll h) = SqFsync h False"
| "kernel_op (FSyncData h) = SqFsync h True"
| "kernel_op (FRename old_path new_path) = SqRenameAt AT_FDCWD old_path AT_FDCWD new_path"
| "kernel_op (FCreateDir path mode) = SqMkDirAt AT_FDCWD path mode"
| "kernel_op (FRemove path) = SqUnlinkAt AT_FDCWD path 0"
| "kernel_op (FRemoveDir path) = SqUnlinkAt AT_FDCWD path AT_REMOVEDIR"
| "kernel_op (FCloseSocket s) = SqClose s"
| "kernel_op (FCloseFile h) = SqClose h"

fun future_deadline :: "lib_future \<Rightarrow> nat option" where
  "future_deadline (FRecv (RecvBytesWithDeadline s p len d)) = Some d"
| "future_deadline (FRecv (RecvFixedWithDeadline s p len i d)) = Some d"
| "future_deadline (FPeek (PeekBytesWithDeadline s p len d)) = Some d"
| "future_deadline (FPeek (PeekFixedWithDeadline s p len i d)) = Some d"
| "future_deadline (FSend (SendBytesWithDeadline s p len d)) = Some d"
| "future_deadline (FSend (SendFixedWithDeadline s p len i d)) = Some d"
| "future_deadline (FRecvFrom s msg d) = d"
| "future_deadline (FPeekFrom s msg d) = d"
| "future_deadline (FSendTo s msg d) = d"
| "future_deadline (FAccept s a len d) = d"
| "future_deadline (FConnect s a len d) = d"
| "future_deadline (FPollRecv s d) = d"
| "future_deadline (FPollSend s d) = d"
| "future_deadline _ = None"

text \<open>Slices give a length, fixed buffers a length of 32 bits, an open file and an accepted connection their descriptor, the others nothing.\<close>

fun future_output :: "lib_future \<Rightarrow> nat \<Rightarrow> nat \<Rightarrow> io_output" where
  "future_output (FRecv x) addr_len v =
     (case x of RecvBytes _ _ _ \<Rightarrow> OutUsize v | RecvBytesWithDeadline _ _ _ _ \<Rightarrow> OutUsize v | _ \<Rightarrow> OutU32 (of_nat v))"
| "future_output (FPeek x) addr_len v =
     (case x of PeekBytes _ _ _ \<Rightarrow> OutUsize v | PeekBytesWithDeadline _ _ _ _ \<Rightarrow> OutUsize v | _ \<Rightarrow> OutU32 (of_nat v))"
| "future_output (FSend x) addr_len v =
     (case x of SendBytes _ _ _ \<Rightarrow> OutUsize v | SendBytesWithDeadline _ _ _ _ \<Rightarrow> OutUsize v | _ \<Rightarrow> OutU32 (of_nat v))"
| "future_output (FRead x) addr_len v =
     (case x of ReadBytes _ _ _ \<Rightarrow> OutUsize v | PositionedReadBytes _ _ _ _ \<Rightarrow> OutUsize v | _ \<Rightarrow> OutU32 (of_nat v))"
| "future_output (FWrite x) addr_len v =
     (case x of WriteBytes _ _ _ \<Rightarrow> OutUsize v | PositionedWriteBytes _ _ _ _ \<Rightarrow> OutUsize v | _ \<Rightarrow> OutU32 (of_nat v))"
| "future_output (FRecvFrom _ _ _) addr_len v = OutFrom v addr_len"
| "future_output (FPeekFrom _ _ _) addr_len v = OutFrom v addr_len"
| "future_output (FSendTo _ _ _) addr_len v = OutUsize v"
| "future_output (FAccept _ _ _ _) addr_len v = OutAccept (sint (of_nat v :: 32 word)) addr_len"
| "future_output (FOpen _ _) addr_len v = OutFd (sint (of_nat v :: 32 word))"
| "future_output (FSyncAll _) addr_len v = OutUsize v"
| "future_output (FSyncData _) addr_len v = OutUsize v"
| "future_output _ addr_len v = OutUnit"

section \<open>Polls\<close>

text \<open>
  The future is at the address \<open>f\<close> and its task is \<open>t\<close>; \<open>addr_len\<close> is the length of an address that the kernel wrote. The result
  has the future after the poll, since a request may change its deadline.
\<close>

definition output_of :: "io_ret \<Rightarrow> nat \<Rightarrow> io_result \<Rightarrow> io_error + io_output" where
  "output_of c addr_len r = (case r of Inl err \<Rightarrow> Inl err | Inr ret \<Rightarrow> Inr (ret_output c addr_len ret))"

definition io_future_poll ::
  "bool \<Rightarrow> nat \<Rightarrow> task \<Rightarrow> request_ptr \<Rightarrow> io_future \<Rightarrow> request_memory \<times> io_uring_worker \<Rightarrow>
   (io_error + io_output) poll \<times> io_future \<times> request_memory \<times> io_uring_worker" where
  "io_future_poll dbg addr_len t f fut s =
     (case fu_deadline fut of
        None \<Rightarrow>
          (case poll_for_io_request dbg (io_uring_call (fu_method fut)) t f s of (r, s') \<Rightarrow>
            (map_poll (output_of (fu_ret fut) addr_len) r, fut, s'))
      | Some deadline \<Rightarrow>
          (case poll_for_time_bounded_io_request dbg (io_uring_call_with_deadline (fu_method fut))
                  deregister_time_bounded_io_task t f deadline s of (r, deadline', s') \<Rightarrow>
            (map_poll (output_of (fu_ret fut) addr_len) r, fut\<lparr>fu_deadline := Some deadline'\<rparr>, s')))"

text \<open>
  The future \<open>Socket\<close>. On a kernel without the opcode the worker writes the result into the request within the first poll and
  gives back the task to spawn.
\<close>

definition socket_future_poll ::
  "bool \<Rightarrow> io_result \<Rightarrow> int \<Rightarrow> int \<Rightarrow> int \<Rightarrow> task \<Rightarrow> request_ptr \<Rightarrow> request_memory \<times> io_uring_worker \<Rightarrow>
   ((io_error + fd) poll \<times> task option \<times> request_memory \<times> io_uring_worker) res" where
  "socket_future_poll dbg made domain socket_type protocol t f s =
     (case s of (mem, w) \<Rightarrow>
        (case mem f of
           Some io_request_data \<Rightarrow>
             Inr (Ready (map_sum id as_raw_fd (fst (io_request_ret dbg io_request_data))), None, mem(f := None), w)
         | None \<Rightarrow>
             bindR (io_uring_socket dbg made domain socket_type protocol f (w, mem(f \<mapsto> io_request_new t))) (\<lambda>(spawned, w', mem').
               Inr (Pending, spawned, mem', w'))))"

section \<open>From the first poll to the result\<close>

lemma complete_all_append:
  "complete_all dbg (a @ b) mem =
     bindR (complete_all dbg a mem) (\<lambda>(ws, m1). bindR (complete_all dbg b m1) (\<lambda>(ws', m2). Inr (ws @ ws', m2)))"
proof (induction a arbitrary: mem)
  case Nil
  show ?case by (cases "complete_all dbg b mem") auto
next
  case (Cons x a)
  obtain u ret where x: "x = (u, ret)" by fastforce
  show ?case
  proof (cases "u = ASYNC_CLOSE_DATA \<or> mem u = None")
    case True
    then show ?thesis using Cons.IH[of mem] x by auto
  next
    case False
    then obtain r where r: "mem u = Some r" by blast
    show ?thesis
    proof (cases "io_request_task dbg (io_request_set_ret (completion_result ret) r)")
      case (Inr p)
      obtain t r' where p: "p = (t, r')" by fastforce
      define m where "m = mem(u \<mapsto> r')"
      have e: "complete_all dbg (x # c) mem = bindR (complete_all dbg c m) (\<lambda>(ws, m'). Inr (wake_finished t # ws, m'))" for c
        using False r Inr p x by (simp add: m_def)
      show ?thesis
      proof (cases "complete_all dbg a m")
        case (Inr q)
        then show ?thesis unfolding append_Cons e using Cons.IH[of m]
          by (cases q; cases "complete_all dbg b (snd q)") auto
      qed (simp add: append_Cons e Cons.IH del: complete_all.simps)
    qed (use False r x in simp)
  qed
qed

lemma complete_all_other:
  assumes "complete_all dbg cq mem = Inr (wakes, mem')" and "f \<notin> fst ` set cq"
  shows "mem' f = mem f"
  using assms
proof (induction cq arbitrary: mem wakes)
  case (Cons x cq)
  obtain u ret where x: "x = (u, ret)" by fastforce
  show ?case
  proof (cases "u = ASYNC_CLOSE_DATA")
    case True
    with Cons x show ?thesis by simp
  next
    case False
    with Cons.prems(1) x obtain r where r: "mem u = Some r" by (auto split: option.splits)
    from Cons.prems(1) False x r obtain p where p: "io_request_task dbg (io_request_set_ret (completion_result ret) r) = Inr p"
      by (auto simp: bindR_Inr_conv split: sum.splits)
    obtain t r' where "p = (t, r')" by fastforce
    with Cons.prems(1) False x r p obtain ws where "complete_all dbg cq (mem(u \<mapsto> r')) = Inr (ws, mem')"
      by (auto simp: bindR_Inr_conv split: sum.splits)
    from Cons.IH[OF this] Cons.prems(2) x show ?thesis by auto
  qed
qed simp

lemma complete_all_at:
  assumes "complete_all dbg (a @ (f, ret) # b) mem = Inr (wakes, mem')" and "f \<notin> fst ` set (a @ b)"
    and "f \<noteq> ASYNC_CLOSE_DATA" and "mem f = Some r"
  shows "wake_finished (rd_task r) \<in> set wakes \<and> (\<exists>r'. mem' f = Some r' \<and> rd_ret r' = completion_result ret)"
proof -
  from assms(1) obtain ws m1 ws' where a: "complete_all dbg a mem = Inr (ws, m1)"
    and b: "complete_all dbg ((f, ret) # b) m1 = Inr (ws', mem')" and w: "wakes = ws @ ws'"
    by (auto simp: complete_all_append bindR_Inr_conv split: sum.splits)
  have m1: "m1 f = Some r" using complete_all_other[OF a, of f] assms(2,4) by auto
  from b assms(3) m1 obtain p where p: "io_request_task dbg (io_request_set_ret (completion_result ret) r) = Inr p"
    by (auto simp: bindR_Inr_conv split: sum.splits)
  obtain t r' where t: "p = (t, r')" by fastforce
  with p have r': "t = rd_task r" "rd_ret r' = completion_result ret"
    by (auto simp: io_request_task_def io_request_set_ret_def split: if_splits)
  from b assms(3) m1 p t obtain ws2 where c: "complete_all dbg b (m1(f \<mapsto> r')) = Inr (ws2, mem')" "ws' = wake_finished t # ws2"
    by (auto simp: bindR_Inr_conv split: sum.splits)
  have "mem' f = Some r'" using complete_all_other[OF c(1), of f] assms(2) by auto
  with r' c(2) w show ?thesis by auto
qed

text \<open>What the futures promise is what their requests do.\<close>

lemmas request_defs = io_future_def recv_from_request_def peek_from_request_def send_to_request_def accept_request_def connect_request_def
  poll_recv_request_def poll_send_request_def poll_fd_request_def shutdown_request_def open_request_def fallocate_request_def
  sync_all_request_def sync_data_request_def rename_request_def create_dir_request_def remove_request_def remove_dir_request_def
  close_socket_request_def close_file_request_def len_as_u32_def

lemma lib_request_deadline: "fu_deadline (lib_request x) = future_deadline x"
  by (cases x rule: kernel_op.cases) (simp_all add: request_defs)

lemma lib_request_output: "ret_output (fu_ret (lib_request x)) addr_len v = future_output x addr_len v"
  by (cases x rule: kernel_op.cases) (simp_all add: request_defs as_raw_fd_def)

lemma lib_request_call: "io_uring_call (fu_method (lib_request x)) f w = register_entry (kernel_op x) f w"
  by (cases x rule: kernel_op.cases) (simp_all add: request_defs io_uring_request_def)

lemma lib_request_call_with_deadline:
  assumes "future_deadline x = Some d" and "register_time_bounded_io_task f d w = (d', w')"
  shows "io_uring_call_with_deadline (fu_method (lib_request x)) f d w = (d', register_entry (kernel_op x) f w')"
  using assms by (cases x rule: kernel_op.cases) (simp_all add: request_defs io_uring_request_def)

lemma io_future_first_poll:
  assumes "mem f = None" and "io_future_poll dbg n t f fut (mem, w) = (r, fut', mem1, w1)"
  shows "r = Pending" and "mem1 = mem(f \<mapsto> io_request_new t)" and "fu_ret fut' = fu_ret fut"
    and "fu_deadline fut' = None \<longleftrightarrow> fu_deadline fut = None"
  using assms
  by (auto simp: io_future_poll_def poll_for_io_request_def poll_for_time_bounded_io_request_def split: option.splits prod.splits)

definition timed_out :: "io_result \<Rightarrow> bool" where
  "timed_out r = (case r of Inl err \<Rightarrow> io_error_kind_of err = TimedOut | Inr _ \<Rightarrow> False)"

lemma io_future_last_poll:
  assumes "mem f = Some d" and "io_future_poll dbg n t f fut (mem, w) = (r, fut', mem', w')"
  shows "r = Ready (output_of (fu_ret fut) n (rd_ret d))" and "mem' = mem(f := None)"
    and "case fu_deadline fut of None \<Rightarrow> w' = w
      | Some deadline \<Rightarrow> if timed_out (rd_ret d) then w' = w else w' = deregister_time_bounded_io_task deadline w"
  using assms
  by (auto simp: io_future_poll_def poll_for_io_request_def poll_for_time_bounded_io_request_def io_request_ret_def timed_out_def
      split: option.splits prod.splits sum.splits if_splits)

definition entered :: "lib_future \<Rightarrow> request_ptr \<Rightarrow> io_uring_worker \<Rightarrow> io_future \<Rightarrow> io_uring_worker \<Rightarrow> bool" where
  "entered x f w fut w1 \<longleftrightarrow>
     mset (iu_sq w1 @ iu_backlog w1) = add_mset \<lparr>sq_op = kernel_op x, sq_user_data = f\<rparr> (mset (iu_sq w @ iu_backlog w)) \<and>
     (case future_deadline x of
        None \<Rightarrow> fu_deadline fut = None \<and> iu_time_bounded_io_task_queue w1 = iu_time_bounded_io_task_queue w
      | Some d \<Rightarrow> \<exists>d'. d \<le> d' \<and> fu_deadline fut = Some d' \<and>
          mset (iu_time_bounded_io_task_queue w1) = add_mset (d', f) (mset (iu_time_bounded_io_task_queue w)))"

lemma register_entry_entered:
  "mset (iu_sq (register_entry op f w) @ iu_backlog (register_entry op f w)) =
     add_mset \<lparr>sq_op = op, sq_user_data = f\<rparr> (mset (iu_sq w @ iu_backlog w))"
  "iu_time_bounded_io_task_queue (register_entry op f w) = iu_time_bounded_io_task_queue w"
  by (simp_all add: register_entry_def)

lemma lib_future_entered:
  assumes "mem f = None" and "deadlines_wf (iu_time_bounded_io_task_queue w)"
    and "io_future_poll dbg n t f (lib_request x) (mem, w) = (r, fut', mem1, w1)"
  shows "entered x f w fut' w1"
proof (cases "future_deadline x")
  case None
  with assms(1,3) lib_request_deadline[of x] have "fut' = lib_request x" "w1 = register_entry (kernel_op x) f w"
    by (auto simp: io_future_poll_def poll_for_io_request_def lib_request_call)
  with None lib_request_deadline[of x] register_entry_entered show ?thesis by (simp add: entered_def)
next
  case (Some d)
  obtain d' w' where g: "register_time_bounded_io_task f d w = (d', w')" by fastforce
  then obtain q where q: "register_deadline d f (iu_time_bounded_io_task_queue w) = (d', q)" "w' = w\<lparr>iu_time_bounded_io_task_queue := q\<rparr>"
    by (auto simp: register_time_bounded_io_task_def split: prod.splits)
  note c = lib_request_call_with_deadline[OF Some g]
  have "fu_deadline fut' = Some d'" "w1 = register_entry (kernel_op x) f w'"
    using assms(1,3) c Some lib_request_deadline[of x] by (auto simp: io_future_poll_def poll_for_time_bounded_io_request_def)
  with register_deadline_ok[OF assms(2) q(1)] q(2) Some register_entry_entered[of "kernel_op x" f w'] show ?thesis
    by (simp add: entered_def)
qed

text \<open>
  C11. The futures of single operations, from the first poll to the result, with the io_uring worker. The first poll is pending, and
  hands the worker exactly one entry: the operation of this future with its descriptor, addresses, length and offset, under the address of its
  request. A future with a deadline also registers it, at its time or the next free one. When the worker then finds one completion of this
  request among those of any others and does not panic, it wakes the task, and the next poll is ready with the kernel's result in the type of this
  future, or with its error, a cancelled request being timed out; the request is gone, and so is the deadline, except after an error of the kind \<open>TimedOut\<close>, which
  leaves the queue of deadlines as it is. \<open>Socket\<close> is not among the futures.
\<close>

theorem io_future_completes:
  assumes "mem f = None" and "f \<noteq> ASYNC_CLOSE_DATA" and "deadlines_wf (iu_time_bounded_io_task_queue w)"
    and "io_future_poll dbg n t f (lib_request x) (mem, w) = (r, fut', mem1, w1)"
    and "io_uring_must_poll dbg submit now (a @ (f, ret) # b) (w1, k, mem1) = Inr (wakes, w2, k2, mem2)"
    and "f \<notin> fst ` set (a @ b)" and "io_future_poll dbg addr_len t f fut' (mem2, w2) = (r', fut'', mem3, w3)"
  shows "r = Pending \<and> entered x f w fut' w1 \<and> wake_finished t \<in> set wakes \<and>
    r' = Ready (map_sum id (future_output x addr_len) (completion_result ret)) \<and> mem3 f = None \<and>
    (case fu_deadline fut' of None \<Rightarrow> w3 = w2
     | Some d \<Rightarrow> if timed_out (completion_result ret) then w3 = w2 else d \<notin> fst ` set (iu_time_bounded_io_task_queue w3))"
proof -
  note first = io_future_first_poll[OF assms(1,4)]
  from assms(5) obtain wakes' where c: "complete_all dbg (a @ (f, ret) # b) mem1 = Inr (wakes, mem2)"
    by (auto simp: io_uring_must_poll_def bindR_Inr_conv split: prod.splits bool.splits sum.splits)
  have "mem1 f = Some (io_request_new t)" using first(2) by simp
  from complete_all_at[OF c assms(6,2) this] obtain d where d: "mem2 f = Some d" "rd_ret d = completion_result ret"
    and wake: "wake_finished t \<in> set wakes" by (auto simp: io_request_new_def)
  note last = io_future_last_poll[OF d(1) assms(7)]
  have "case fu_deadline fut' of None \<Rightarrow> w3 = w2
     | Some d \<Rightarrow> if timed_out (completion_result ret) then w3 = w2 else d \<notin> fst ` set (iu_time_bounded_io_task_queue w3)"
    using last(3) d(2) by (auto simp: deregister_time_bounded_io_task_def time_bounded_remove_def split: option.splits)
  moreover have "output_of (fu_ret (lib_request x)) addr_len q = map_sum id (future_output x addr_len) q" for q
    by (cases q) (simp_all add: output_of_def lib_request_output)
  ultimately show ?thesis using first last(1,2) d wake lib_future_entered[OF assms(1,3,4)] by simp
qed

definition demo_receive :: lib_future where
  "demo_receive = FRecv (RecvFixedWithDeadline 5 4096 64 3 1000)"

theorem io_future_completes_witness:
  "\<exists>mem1 fut' w1 wakes w2 k2 mem2 fut'' mem3 w3.
     io_future_poll True 0 demo_task 256 (lib_request demo_receive) (\<lambda>_. None, io_uring_new 1 True) = (Pending, fut', mem1, w1) \<and>
     mset (iu_sq w1 @ iu_backlog w1) = {#\<lparr>sq_op = SqReadFixed 5 4096 64 3 0, sq_user_data = 256\<rparr>#} \<and>
     io_uring_must_poll True take_all 0 [(256, 48)] (w1, [], mem1) = Inr (wakes, w2, k2, mem2) \<and>
     io_future_poll True 0 demo_task 256 fut' (mem2, w2) = (Ready (Inr (OutU32 48)), fut'', mem3, w3) \<and> wakes \<noteq> [] \<and>
     iu_time_bounded_io_task_queue w1 \<noteq> [] \<and> iu_time_bounded_io_task_queue w3 = []"
proof -
  note defs = demo_receive_def io_future_def io_future_poll_def io_uring_new_def poll_for_io_request_def poll_for_time_bounded_io_request_def
    io_uring_request_def register_entry_def add_sqe_def register_time_bounded_io_task_def register_deadline.simps time_bounded_insert_def
    io_uring_must_poll_def io_uring_check_deadlines_def submit_and_poll_def take_all_def
    io_request_task_def io_request_set_ret_def io_request_new_def io_request_ret_def ASYNC_CLOSE_DATA_def
    completion_result_def deregister_time_bounded_io_task_def time_bounded_remove_def Let_def
  obtain r fut' mem1 w1 where p: "io_future_poll True 0 demo_task 256 (lib_request demo_receive) (\<lambda>_. None, io_uring_new 1 True) = (r, fut', mem1, w1)"
    using prod_cases4 by blast
  obtain wakes w2 k2 mem2 where c: "io_uring_must_poll True take_all 0 ([] @ (256, 48) # []) (w1, [], mem1) = Inr (wakes, w2, k2, mem2)"
    using p by (auto simp: defs)
  obtain r' fut'' mem3 w3 where q: "io_future_poll True 0 demo_task 256 fut' (mem2, w2) = (r', fut'', mem3, w3)"
    using prod_cases4 by blast
  have f: "(256 :: request_ptr) \<noteq> ASYNC_CLOSE_DATA" "(256 :: request_ptr) \<notin> fst ` set ([] @ [] :: (request_ptr \<times> int) list)"
    "deadlines_wf (iu_time_bounded_io_task_queue (io_uring_new 1 True))"
    by (simp_all add: ASYNC_CLOSE_DATA_def io_uring_new_def)
  note t = io_future_completes[OF refl f(1,3) p c f(2) q]
  have o: "map_sum id (future_output demo_receive 0) (completion_result 48) = Inr (OutU32 48)"
    by (simp add: completion_result_def demo_receive_def)
  have e: "mset (iu_sq w1 @ iu_backlog w1) = {#\<lparr>sq_op = SqReadFixed 5 4096 64 3 0, sq_user_data = 256\<rparr>#}"
    using t by (simp add: entered_def demo_receive_def io_uring_new_def)
  have "iu_time_bounded_io_task_queue w1 \<noteq> []" "iu_time_bounded_io_task_queue w3 = []" using p c q by (auto simp: defs)
  with p c q t o e show ?thesis by auto
qed

text \<open>
  The cast of the length: a slice is requested as a whole exactly when it is shorter than 4 GiB, and a slice of a multiple of this
  length asks for nothing, so that the operation returns 0 at once.
\<close>

lemma len_as_u32_exact: "unat (len_as_u32 len) = len \<longleftrightarrow> len < 2 ^ 32"
  by (auto simp: len_as_u32_def unat_of_nat mod_eq_self_iff_div_eq_0)

lemma len_as_u32_nothing: "len_as_u32 (k * 2 ^ 32) = 0"
proof -
  have "unat (len_as_u32 (k * 2 ^ 32)) = 0" unfolding len_as_u32_def unat_of_nat by simp
  then show ?thesis by (simp only: unat_eq_0)
qed

end
