(* ===== verification/Sockets.thy ===== *)
theory Sockets
  imports Io_Methods
begin

text \<open>
  Sockets from their creation to their connection or binding: \<open>src/src/net/unix/addr.rs\<close>, \<open>src/src/net/creators_of_sockets.rs\<close>,
  \<open>src/src/net/bind_config.rs\<close>, \<open>src/src/utils/each_addr.rs\<close>, the traits of \<open>src/src/io/net/connect.rs\<close> and \<open>bind.rs\<close>, and what the types of
  \<open>src/src/net/tcp\<close>, \<open>udp\<close> and \<open>unix\<close> give them. The calls of the operating system are an argument; a log of them tells which
  descriptors were made and closed.
\<close>

section \<open>Addresses of Unix sockets\<close>

definition SUN_PATH_OFFSET :: nat where "SUN_PATH_OFFSET = 2"
definition SUN_PATH_LEN :: nat where "SUN_PATH_LEN = 108"

text \<open>The errors the code makes itself, all of the kind \<open>InvalidInput\<close>, and those of the operating system.\<close>

datatype sock_error = NullInPath | PathTooLong | NameTooLong | InvalidAddress | NoAddresses | OsError nat

text \<open>The array \<open>sun_path\<close> and the length of the whole address. A copy that ends behind the array is out of bounds.\<close>

record unix_addr =
  ua_sun_path :: "8 word list"
  ua_len :: nat

definition copy_into :: "nat \<Rightarrow> 8 word list \<Rightarrow> 8 word list \<Rightarrow> 8 word list res" where
  "copy_into i bytes arr =
     (if i + length bytes \<le> length arr then Inr (take i arr @ bytes @ drop (i + length bytes) arr) else Inl Undefined)"

definition sockaddr_un :: "8 word list \<Rightarrow> (sock_error + unix_addr) res" where
  "sockaddr_un bytes =
     (if 0 \<in> set bytes then Inr (Inl NullInPath)
      else if SUN_PATH_LEN \<le> length bytes then Inr (Inl PathTooLong)
      else bindR (copy_into 0 bytes (replicate SUN_PATH_LEN 0)) (\<lambda>sun_path.
        let len = SUN_PATH_OFFSET + length bytes in
        Inr (Inr \<lparr>ua_sun_path = sun_path, ua_len = (case bytes of [] \<Rightarrow> len | b # _ \<Rightarrow> if b = 0 then len else len + 1)\<rparr>)))"

definition unix_addr_from_pathname :: "8 word list \<Rightarrow> (sock_error + unix_addr) res" where
  "unix_addr_from_pathname path = sockaddr_un path"

definition unix_addr_from_abstract_name :: "8 word list \<Rightarrow> (sock_error + unix_addr) res" where
  "unix_addr_from_abstract_name name =
     (if SUN_PATH_LEN < length name + 1 then Inr (Inl NameTooLong)
      else bindR (copy_into 1 name (replicate SUN_PATH_LEN 0)) (\<lambda>sun_path.
        Inr (Inr \<lparr>ua_sun_path = sun_path, ua_len = SUN_PATH_OFFSET + 1 + length name\<rparr>)))"

datatype address_kind = Unnamed | Pathname "8 word list" | Abstract "8 word list"

text \<open>The slices panic when they end behind the array.\<close>

definition slice_of :: "nat \<Rightarrow> nat \<Rightarrow> 8 word list \<Rightarrow> 8 word list res" where
  "slice_of i j bytes = (if i \<le> j \<and> j \<le> length bytes then Inr (take (j - i) (drop i bytes)) else Inl Asserted)"

definition unix_addr_address :: "bool \<Rightarrow> unix_addr \<Rightarrow> address_kind res" where
  "unix_addr_address dbg a =
     bindR (usize_sub dbg (ua_len a) SUN_PATH_OFFSET) (\<lambda>len.
       if len = 0 then Inr Unnamed
       else if ua_sun_path a ! 0 = 0 then bindR (slice_of 1 len (ua_sun_path a)) (\<lambda>name. Inr (Abstract name))
       else bindR (slice_of 0 (len - 1) (ua_sun_path a)) (\<lambda>path. Inr (Pathname path)))"

definition unix_addr_as_pathname :: "bool \<Rightarrow> unix_addr \<Rightarrow> 8 word list option res" where
  "unix_addr_as_pathname dbg a =
     bindR (unix_addr_address dbg a) (\<lambda>k. Inr (case k of Pathname path \<Rightarrow> Some path | _ \<Rightarrow> None))"

definition unix_addr_is_unnamed :: "bool \<Rightarrow> unix_addr \<Rightarrow> bool res" where
  "unix_addr_is_unnamed dbg a = bindR (unix_addr_address dbg a) (\<lambda>k. Inr (k = Unnamed))"

definition unix_addr_as_abstract_name :: "bool \<Rightarrow> unix_addr \<Rightarrow> 8 word list option res" where
  "unix_addr_as_abstract_name dbg a =
     bindR (unix_addr_address dbg a) (\<lambda>k. Inr (case k of Abstract name \<Rightarrow> Some name | _ \<Rightarrow> None))"

text \<open>
  The sender of a received message: the kernel writes its path into a zeroed address and its length into the message header, and the
  address takes that length.
\<close>

definition recv_bytes_from_addr :: "8 word list \<Rightarrow> nat \<Rightarrow> unix_addr" where
  "recv_bytes_from_addr written addr_len =
     \<lparr>ua_sun_path = written @ replicate (SUN_PATH_LEN - length written) 0, ua_len = addr_len\<rparr>"

lemma slice_of_prefix: "slice_of 0 (length xs) (xs @ ys) = Inr xs"
  by (simp add: slice_of_def)

lemma slice_of_tail: "slice_of 1 (length xs + 1) (x # xs @ ys) = Inr xs"
  by (simp add: slice_of_def)

lemma sockaddr_un_address:
  assumes "0 \<notin> set path" and "length path < 108"
  shows "\<exists>a. sockaddr_un path = Inr (Inr a) \<and> unix_addr_address dbg a = Inr (if path = [] then Unnamed else Pathname path)"
proof -
  let ?p = "path @ replicate (SUN_PATH_LEN - length path) 0"
  let ?a = "\<lparr>ua_sun_path = ?p, ua_len = SUN_PATH_OFFSET + length path + (if path = [] then 0 else 1)\<rparr>"
  have "path = [] \<or> path ! 0 \<noteq> 0" using assms(1) by (cases path) auto
  then have "sockaddr_un path = Inr (Inr ?a)"
    using assms by (cases path) (auto simp: sockaddr_un_def copy_into_def SUN_PATH_LEN_def Let_def)
  moreover have "?p ! 0 \<noteq> 0" if "path \<noteq> []" using that assms(1) by (cases path) auto
  then have "unix_addr_address dbg ?a = Inr (if path = [] then Unnamed else Pathname path)"
    using slice_of_prefix[of path "replicate (SUN_PATH_LEN - length path) 0"] by (simp add: unix_addr_address_def)
  ultimately show ?thesis by blast
qed

lemma abstract_name_address:
  assumes "length name < 108"
  shows "\<exists>a. unix_addr_from_abstract_name name = Inr (Inr a) \<and> unix_addr_address dbg a = Inr (Abstract name)"
proof -
  let ?p = "0 # name @ replicate (SUN_PATH_LEN - 1 - length name) 0"
  let ?a = "\<lparr>ua_sun_path = ?p, ua_len = SUN_PATH_OFFSET + 1 + length name\<rparr>"
  have "unix_addr_from_abstract_name name = Inr (Inr ?a)"
    using assms by (simp add: unix_addr_from_abstract_name_def copy_into_def SUN_PATH_LEN_def)
  moreover have "unix_addr_address dbg ?a = Inr (Abstract name)"
    using slice_of_tail[of name 0 "replicate (SUN_PATH_LEN - 1 - length name) 0"] by (simp add: unix_addr_address_def)
  ultimately show ?thesis by blast
qed

text \<open>
  C32. A path is refused exactly when it has a zero byte or at least 108 bytes, and an abstract name exactly when it has at least 108
  bytes. Every other path and name is copied without leaving the array, and its address gives it back, in both
  kinds of build, and is of that kind alone; the empty path makes the unnamed address.
\<close>

theorem unix_addr_round_trip:
  "(if 0 \<in> set path then unix_addr_from_pathname path = Inr (Inl NullInPath)
    else if 108 \<le> length path then unix_addr_from_pathname path = Inr (Inl PathTooLong)
    else \<exists>a. unix_addr_from_pathname path = Inr (Inr a) \<and>
           unix_addr_as_pathname dbg a = Inr (if path = [] then None else Some path) \<and>
           unix_addr_as_abstract_name dbg a = Inr None \<and> unix_addr_is_unnamed dbg a = Inr (path = [])) \<and>
   (if 108 \<le> length name then unix_addr_from_abstract_name name = Inr (Inl NameTooLong)
    else \<exists>a. unix_addr_from_abstract_name name = Inr (Inr a) \<and>
           unix_addr_as_abstract_name dbg a = Inr (Some name) \<and>
           unix_addr_as_pathname dbg a = Inr None \<and> unix_addr_is_unnamed dbg a = Inr False)"
proof (intro conjI)
  show "if 0 \<in> set path then unix_addr_from_pathname path = Inr (Inl NullInPath)
    else if 108 \<le> length path then unix_addr_from_pathname path = Inr (Inl PathTooLong)
    else \<exists>a. unix_addr_from_pathname path = Inr (Inr a) \<and>
           unix_addr_as_pathname dbg a = Inr (if path = [] then None else Some path) \<and>
           unix_addr_as_abstract_name dbg a = Inr None \<and> unix_addr_is_unnamed dbg a = Inr (path = [])"
  proof (cases "0 \<in> set path \<or> 108 \<le> length path")
    case True
    then show ?thesis by (auto simp: unix_addr_from_pathname_def sockaddr_un_def SUN_PATH_LEN_def)
  next
    case False
    with sockaddr_un_address[of path dbg] show ?thesis
      by (auto simp: unix_addr_from_pathname_def unix_addr_as_pathname_def unix_addr_as_abstract_name_def unix_addr_is_unnamed_def)
  qed
  show "if 108 \<le> length name then unix_addr_from_abstract_name name = Inr (Inl NameTooLong)
    else \<exists>a. unix_addr_from_abstract_name name = Inr (Inr a) \<and>
           unix_addr_as_abstract_name dbg a = Inr (Some name) \<and>
           unix_addr_as_pathname dbg a = Inr None \<and> unix_addr_is_unnamed dbg a = Inr False"
  proof (cases "108 \<le> length name")
    case True
    then show ?thesis by (simp add: unix_addr_from_abstract_name_def SUN_PATH_LEN_def)
  next
    case False
    with abstract_name_address[of name dbg] show ?thesis
      by (auto simp: unix_addr_as_abstract_name_def unix_addr_as_pathname_def unix_addr_is_unnamed_def)
  qed
qed

text \<open>
  Linux gives an address of length 0 for a message from an unnamed Unix datagram socket. To ask for its kind panics: a debug build
  on the subtraction of the offset of the path, a release build on the slice up to the wrapped length.
\<close>

theorem unnamed_sender_address_panics:
  "unix_addr_is_unnamed True (recv_bytes_from_addr [] 0) = Inl Overflow \<and>
   unix_addr_is_unnamed False (recv_bytes_from_addr [] 0) = Inl Asserted"
  by (simp add: unix_addr_is_unnamed_def unix_addr_address_def recv_bytes_from_addr_def usize_sub_def SUN_PATH_OFFSET_def SUN_PATH_LEN_def
      slice_of_def usize_max_def)

section \<open>Calls of the operating system\<close>

datatype domain = IPV4 | IPV6 | UNIX
datatype sock_type = STREAM | DGRAM
datatype protocol = TCP | UDP | DefaultProtocol

text \<open>An address of the internet with its port, and an address of any family.\<close>

datatype socket_addr = V4 "32 word" "16 word" | V6 "128 word" "16 word"

datatype sock_addr = InetAddr socket_addr | UnixAddr unix_addr

text \<open>\<open>NAttachFilter\<close> is the option \<open>SO_ATTACH_REUSEPORT_CBPF\<close>; a connect may have a deadline.\<close>

datatype net_call =
    NSocket domain sock_type protocol
  | NConnect fd sock_addr "nat option"
  | NSetOnlyV6 fd
  | NSetReuseAddress fd
  | NSetReusePort fd
  | NBind fd sock_addr
  | NListen fd int
  | NAttachFilter fd
  | NClose fd

type_synonym 's net_os = "net_call \<Rightarrow> 's \<Rightarrow> (nat + int) \<times> 's"

text \<open>The state of the operating system, the log, and the descriptors whose closing task panicked.\<close>

record 's net =
  nt_os :: 's
  nt_log :: "(net_call \<times> (nat + int)) list"
  nt_panics :: "fd list"

definition net_sys :: "'s net_os \<Rightarrow> net_call \<Rightarrow> 's net \<Rightarrow> (sock_error + int) \<times> 's net" where
  "net_sys os call s =
     (case os call (nt_os s) of (r, os') \<Rightarrow> (map_sum OsError id r, s\<lparr>nt_os := os', nt_log := nt_log s @ [(call, r)]\<rparr>))"

text \<open>The operator \<open>?\<close>.\<close>

fun try_net :: "(sock_error + 'a) \<times> 's net \<Rightarrow> ('a \<Rightarrow> 's net \<Rightarrow> (sock_error + 'b) \<times> 's net) \<Rightarrow> (sock_error + 'b) \<times> 's net" where
  "try_net (Inl e, s) f = (Inl e, s)"
| "try_net (Inr x, s) f = f x s"

section \<open>Creating and dropping sockets\<close>

definition new_socket :: "'s net_os \<Rightarrow> socket_addr \<Rightarrow> sock_type \<Rightarrow> protocol \<Rightarrow> 's net \<Rightarrow> (sock_error + fd) \<times> 's net" where
  "new_socket os addr socket_type protocol =
     (case addr of
        V4 _ _ \<Rightarrow> net_sys os (NSocket IPV4 socket_type protocol)
      | V6 _ _ \<Rightarrow> net_sys os (NSocket IPV6 socket_type protocol))"

definition new_tcp_socket :: "'s net_os \<Rightarrow> socket_addr \<Rightarrow> 's net \<Rightarrow> (sock_error + fd) \<times> 's net" where
  "new_tcp_socket os addr = new_socket os addr STREAM TCP"

definition new_udp_socket :: "'s net_os \<Rightarrow> socket_addr \<Rightarrow> 's net \<Rightarrow> (sock_error + fd) \<times> 's net" where
  "new_udp_socket os addr = new_socket os addr DGRAM UDP"

definition new_unix_stream :: "'s net_os \<Rightarrow> 's net \<Rightarrow> (sock_error + fd) \<times> 's net" where
  "new_unix_stream os = net_sys os (NSocket UNIX STREAM DefaultProtocol)"

definition new_unix_datagram :: "'s net_os \<Rightarrow> 's net \<Rightarrow> (sock_error + fd) \<times> 's net" where
  "new_unix_datagram os = net_sys os (NSocket UNIX DGRAM DefaultProtocol)"

text \<open>
  The drop of a stream, a listener or a datagram socket executes a local future that closes its descriptor; that future panics when the
  close fails.
\<close>

definition socket_drop :: "'s net_os \<Rightarrow> fd \<Rightarrow> 's net \<Rightarrow> 's net" where
  "socket_drop os raw_socket s =
     (case net_sys os (NClose raw_socket) s of
        (Inl _, s') \<Rightarrow> s'\<lparr>nt_panics := nt_panics s' @ [raw_socket]\<rparr>
      | (Inr _, s') \<Rightarrow> s')"

definition tcp_stream_new_for_addr :: "'s net_os \<Rightarrow> socket_addr \<Rightarrow> 's net \<Rightarrow> (sock_error + fd) \<times> 's net" where
  "tcp_stream_new_for_addr os addr =
     (case addr of V4 _ _ \<Rightarrow> net_sys os (NSocket IPV4 STREAM TCP) | V6 _ _ \<Rightarrow> net_sys os (NSocket IPV6 STREAM TCP))"

definition unix_stream_new_for_addr :: "'s net_os \<Rightarrow> unix_addr \<Rightarrow> 's net \<Rightarrow> (sock_error + fd) \<times> 's net" where
  "unix_stream_new_for_addr os addr = new_unix_stream os"

section \<open>Trying each address\<close>

datatype 'r each_addr_res = EachOk 'r | EachErr sock_error | EachNone

fun each_addr_loop ::
  "('a \<Rightarrow> 's net \<Rightarrow> (sock_error + 'r) \<times> 's net) \<Rightarrow> 'a list \<Rightarrow> 'r each_addr_res \<Rightarrow> 's net \<Rightarrow> 'r each_addr_res \<times> 's net" where
  "each_addr_loop f [] res s = (res, s)"
| "each_addr_loop f (addr # addrs) res s =
     (case f addr s of
        (Inr connect_res, s') \<Rightarrow> (EachOk connect_res, s')
      | (Inl error, s') \<Rightarrow> each_addr_loop f addrs (EachErr error) s')"

definition each_addr ::
  "sock_error + 'a list \<Rightarrow> ('a \<Rightarrow> 's net \<Rightarrow> (sock_error + 'r) \<times> 's net) \<Rightarrow> 's net \<Rightarrow> (sock_error + 'r) \<times> 's net" where
  "each_addr addrs f s =
     (case addrs of
        Inl e \<Rightarrow> (Inl e, s)
      | Inr as \<Rightarrow>
          (case each_addr_loop f as EachNone s of
             (EachOk res, s') \<Rightarrow> (Inr res, s')
           | (EachErr err, s') \<Rightarrow> (Inl err, s')
           | (EachNone, s') \<Rightarrow> (Inl NoAddresses, s')))"

section \<open>Connecting\<close>

text \<open>
  The trait \<open>AsyncConnectStream\<close>, given by how a type makes a socket for an address and converts the address. When the connection fails,
  the stream is dropped with the error.
\<close>

definition stream_connect ::
  "'s net_os \<Rightarrow> ('a \<Rightarrow> 's net \<Rightarrow> (sock_error + fd) \<times> 's net) \<Rightarrow> ('a \<Rightarrow> sock_addr) \<Rightarrow> nat option \<Rightarrow> sock_error + 'a list \<Rightarrow>
   's net \<Rightarrow> (sock_error + fd) \<times> 's net" where
  "stream_connect os new_for_addr into_sock_addr deadline addrs =
     each_addr addrs (\<lambda>addr s.
       try_net (new_for_addr addr s) (\<lambda>stream s1.
         case net_sys os (NConnect stream (into_sock_addr addr) deadline) s1 of
           (Inl e, s2) \<Rightarrow> (Inl e, socket_drop os stream s2)
         | (Inr _, s2) \<Rightarrow> (Inr stream, s2)))"

text \<open>\<open>connect_with_timeout\<close> adds the timeout to the start of the round for deadlines.\<close>

definition stream_connect_with_timeout ::
  "'s net_os \<Rightarrow> ('a \<Rightarrow> 's net \<Rightarrow> (sock_error + fd) \<times> 's net) \<Rightarrow> ('a \<Rightarrow> sock_addr) \<Rightarrow> nat \<Rightarrow> nat \<Rightarrow> sock_error + 'a list \<Rightarrow>
   's net \<Rightarrow> (sock_error + fd) \<times> 's net" where
  "stream_connect_with_timeout os new_for_addr into_sock_addr start_round_time timeout =
     stream_connect os new_for_addr into_sock_addr (Some (start_round_time + timeout))"

text \<open>The trait \<open>AsyncConnectDatagram\<close>: the socket gives up its descriptor first, and only a success wraps it again.\<close>

definition datagram_connect ::
  "'s net_os \<Rightarrow> ('a \<Rightarrow> sock_addr) \<Rightarrow> nat option \<Rightarrow> fd \<Rightarrow> sock_error + 'a list \<Rightarrow> 's net \<Rightarrow> (sock_error + fd) \<times> 's net" where
  "datagram_connect os into_sock_addr deadline new_datagram_socket_raw_fd addrs =
     each_addr addrs (\<lambda>addr s.
       try_net (net_sys os (NConnect new_datagram_socket_raw_fd (into_sock_addr addr) deadline) s) (\<lambda>_ s1.
         (Inr new_datagram_socket_raw_fd, s1)))"

section \<open>Binding\<close>

datatype reuse_port = ReuseDisabled | ReuseDefault | ReuseCPU

record bind_config =
  bc_backlog_size :: "64 word"
  bc_only_v6 :: bool
  bc_reuse_address :: bool
  bc_reuse_port :: reuse_port

definition bind_config_new :: bind_config where
  "bind_config_new = \<lparr>bc_backlog_size = 128, bc_only_v6 = False, bc_reuse_address = True, bc_reuse_port = ReuseDefault\<rparr>"

text \<open>What the types give the trait \<open>AsyncBind\<close>; the backlog is cast to an \<open>i32\<close>.\<close>

definition tcp_bind_and_listen ::
  "'s net_os \<Rightarrow> fd \<Rightarrow> socket_addr \<Rightarrow> bind_config \<Rightarrow> 's net \<Rightarrow> (sock_error + int) \<times> 's net" where
  "tcp_bind_and_listen os raw_fd addr config s =
     try_net (net_sys os (NBind raw_fd (InetAddr addr)) s) (\<lambda>_.
       net_sys os (NListen raw_fd (sint (ucast (bc_backlog_size config) :: 32 word))))"

definition udp_bind_and_listen ::
  "'s net_os \<Rightarrow> fd \<Rightarrow> socket_addr \<Rightarrow> bind_config \<Rightarrow> 's net \<Rightarrow> (sock_error + int) \<times> 's net" where
  "udp_bind_and_listen os raw_fd addr config = net_sys os (NBind raw_fd (InetAddr addr))"

definition bind_with_config ::
  "'s net_os \<Rightarrow> ('a \<Rightarrow> 's net \<Rightarrow> (sock_error + fd) \<times> 's net) \<Rightarrow> (fd \<Rightarrow> 'a \<Rightarrow> bind_config \<Rightarrow> 's net \<Rightarrow> (sock_error + int) \<times> 's net) \<Rightarrow>
   bind_config \<Rightarrow> sock_error + 'a list \<Rightarrow> 's net \<Rightarrow> (sock_error + fd) \<times> 's net" where
  "bind_with_config os new_sock bind_and_listen_if_needed config addrs =
     each_addr addrs (\<lambda>addr s.
       try_net (new_sock addr s) (\<lambda>raw_fd s1.
       try_net (if bc_only_v6 config then net_sys os (NSetOnlyV6 raw_fd) s1 else (Inr 0, s1)) (\<lambda>_ s2.
       try_net (if bc_reuse_address config then net_sys os (NSetReuseAddress raw_fd) s2 else (Inr 0, s2)) (\<lambda>_ s3.
       try_net
         (case bc_reuse_port config of
            ReuseDisabled \<Rightarrow> bind_and_listen_if_needed raw_fd addr config s3
          | ReuseDefault \<Rightarrow>
              try_net (net_sys os (NSetReusePort raw_fd) s3) (\<lambda>_. bind_and_listen_if_needed raw_fd addr config)
          | ReuseCPU \<Rightarrow>
              try_net (net_sys os (NSetReusePort raw_fd) s3) (\<lambda>_ s4.
              try_net (bind_and_listen_if_needed raw_fd addr config s4) (\<lambda>_.
                net_sys os (NAttachFilter raw_fd))))
         (\<lambda>_ s5. (Inr raw_fd, s5))))))"

definition tcp_listener_bind_with_config ::
  "'s net_os \<Rightarrow> bind_config \<Rightarrow> sock_error + socket_addr list \<Rightarrow> 's net \<Rightarrow> (sock_error + fd) \<times> 's net" where
  "tcp_listener_bind_with_config os = bind_with_config os (new_tcp_socket os) (tcp_bind_and_listen os)"

definition udp_socket_bind_with_config ::
  "'s net_os \<Rightarrow> bind_config \<Rightarrow> sock_error + socket_addr list \<Rightarrow> 's net \<Rightarrow> (sock_error + fd) \<times> 's net" where
  "udp_socket_bind_with_config os = bind_with_config os (new_udp_socket os) (udp_bind_and_listen os)"

definition tcp_listener_bind :: "'s net_os \<Rightarrow> sock_error + socket_addr list \<Rightarrow> 's net \<Rightarrow> (sock_error + fd) \<times> 's net" where
  "tcp_listener_bind os = tcp_listener_bind_with_config os bind_config_new"

text \<open>\<open>UnixDatagram\<close> has a \<open>bind_with_config\<close> of its own, without the options.\<close>

definition unix_datagram_bind_with_config ::
  "'s net_os \<Rightarrow> bind_config \<Rightarrow> sock_error + unix_addr list \<Rightarrow> 's net \<Rightarrow> (sock_error + fd) \<times> 's net" where
  "unix_datagram_bind_with_config os config addrs =
     each_addr addrs (\<lambda>addr s.
       try_net (new_unix_datagram os s) (\<lambda>raw_socket s1.
       try_net (net_sys os (NBind raw_socket (UnixAddr addr)) s1) (\<lambda>_ s2. (Inr raw_socket, s2))))"

section \<open>Descriptors\<close>

text \<open>The descriptors that a log makes and closes.\<close>

fun created_by :: "net_call \<times> (nat + int) \<Rightarrow> fd list" where
  "created_by (NSocket _ _ _, Inr fd) = [fd]"
| "created_by _ = []"

fun closed_by :: "net_call \<times> (nat + int) \<Rightarrow> fd list" where
  "closed_by (NClose fd, _) = [fd]"
| "closed_by _ = []"

definition created :: "(net_call \<times> (nat + int)) list \<Rightarrow> fd list" where
  "created l = concat (map created_by l)"

definition closed :: "(net_call \<times> (nat + int)) list \<Rightarrow> fd list" where
  "closed l = concat (map closed_by l)"

lemma created_simps [simp]: "created [] = []" "created (x # l) = created_by x @ created l" "created (l @ l') = created l @ created l'"
  by (simp_all add: created_def)

lemma closed_simps [simp]: "closed [] = []" "closed (x # l) = closed_by x @ closed l" "closed (l @ l') = closed l @ closed l'"
  by (simp_all add: closed_def)

text \<open>\<open>logs P s r\<close>: what \<open>r\<close> adds to the log of \<open>s\<close>, together with its result, satisfies \<open>P\<close>.\<close>

definition logs :: "((net_call \<times> (nat + int)) list \<Rightarrow> sock_error + 'a \<Rightarrow> bool) \<Rightarrow> 's net \<Rightarrow> (sock_error + 'a) \<times> 's net \<Rightarrow> bool" where
  "logs P s r \<longleftrightarrow> (\<exists>l. nt_log (snd r) = nt_log s @ l \<and> P l (fst r))"

lemma logsI: "nt_log s' = nt_log s @ l \<Longrightarrow> P l x \<Longrightarrow> logs P s (x, s')"
  by (auto simp: logs_def)

lemma logsE:
  assumes "logs P s (x, s')"
  obtains l where "nt_log s' = nt_log s @ l" and "P l x"
  using assms by (auto simp: logs_def)

text \<open>A property of logs that holds of steps holds of their composition when it is kept by appending.\<close>

definition additive :: "('x list \<Rightarrow> bool) \<Rightarrow> bool" where
  "additive Q \<longleftrightarrow> Q [] \<and> (\<forall>l l'. Q l \<longrightarrow> Q l' \<longrightarrow> Q (l @ l'))"

abbreviation unclosed :: "(net_call \<times> (nat + int)) list \<Rightarrow> bool" where
  "unclosed l \<equiv> closed l = []"

lemma additive_unclosed: "additive unclosed"
  by (simp add: additive_def)

lemma logs_return: "additive Q \<Longrightarrow> logs (\<lambda>l _. Q l) s (x, s)"
  by (auto simp: additive_def intro: logsI[where l="[]"])

lemma logs_trans:
  assumes "additive Q" and "logs (\<lambda>l _. Q l) s (x, s1)" and "logs (\<lambda>l _. Q l) s1 r"
  shows "logs (\<lambda>l _. Q l) s r"
proof -
  obtain z s2 where r: "r = (z, s2)" by fastforce
  obtain l l' where "nt_log s1 = nt_log s @ l" "Q l" "nt_log s2 = nt_log s1 @ l'" "Q l'"
    using assms(2,3) unfolding r by (auto elim!: logsE)
  then show ?thesis using assms(1) unfolding r by (auto simp: additive_def intro!: logsI[where l="l @ l'"])
qed

lemma try_net_logs:
  assumes "additive Q" and "logs (\<lambda>l _. Q l) s r" and "\<And>x s1. logs (\<lambda>l _. Q l) s1 (f x s1)"
  shows "logs (\<lambda>l _. Q l) s (try_net r f)"
proof -
  obtain x s1 where r: "r = (x, s1)" by fastforce
  show ?thesis
  proof (cases x)
    case (Inl e)
    then show ?thesis using assms(2) r by (simp add: logs_def)
  next
    case (Inr y)
    then show ?thesis using logs_trans[OF assms(1) assms(2)[unfolded r] assms(3)[of s1 y]] r by simp
  qed
qed

lemma each_addr_loop_logs:
  assumes "additive Q" and "\<And>a s. logs (\<lambda>l _. Q l) s (f a s)"
  shows "\<exists>l. nt_log (snd (each_addr_loop f as res s)) = nt_log s @ l \<and> Q l"
proof (induction as arbitrary: res s)
  case (Cons a as)
  obtain x s1 where f: "f a s = (x, s1)" by fastforce
  with assms(2)[of s a] obtain l where l: "nt_log s1 = nt_log s @ l" "Q l" by (auto elim: logsE)
  show ?case
  proof (cases x)
    case (Inl e)
    from Cons.IH[of "EachErr e" s1] obtain l' where "nt_log (snd (each_addr_loop f as (EachErr e) s1)) = nt_log s1 @ l'" "Q l'" by blast
    with l f Inl assms(1) show ?thesis by (auto simp: additive_def intro!: exI[where x="l @ l'"])
  qed (use l f in auto)
qed (use assms(1) in \<open>auto simp: additive_def\<close>)

lemma map_sum_Inr_iff [simp]: "map_sum f id x = Inr y \<longleftrightarrow> x = Inr y"
  by (cases x) auto

lemma net_sys_unclosed: "closed_by (call, Inr 0) = [] \<Longrightarrow> logs (\<lambda>l _. unclosed l) s (net_sys os call s)"
  by (cases call) (auto simp: net_sys_def logs_def split: prod.splits)

lemma new_tcp_socket_log:
  assumes "new_tcp_socket os a s = (Inr fd, s1)"
  shows "\<exists>l. nt_log s1 = nt_log s @ l \<and> created l = [fd] \<and> closed l = []"
  using assms by (cases a) (auto simp: new_tcp_socket_def new_socket_def net_sys_def split: prod.splits)

lemma new_tcp_socket_unclosed: "logs (\<lambda>l _. unclosed l) s (new_tcp_socket os a s)"
  by (cases a) (simp_all add: new_tcp_socket_def new_socket_def net_sys_unclosed)

lemma tcp_bind_unclosed: "logs (\<lambda>l _. unclosed l) s (tcp_bind_and_listen os raw_fd addr config s)"
  unfolding tcp_bind_and_listen_def by (intro try_net_logs additive_unclosed net_sys_unclosed) simp_all

text \<open>What an attempt to bind does once it has its socket.\<close>

definition tcp_bind_rest :: "'s net_os \<Rightarrow> bind_config \<Rightarrow> socket_addr \<Rightarrow> fd \<Rightarrow> 's net \<Rightarrow> (sock_error + fd) \<times> 's net" where
  "tcp_bind_rest os config addr raw_fd s1 =
     try_net (if bc_only_v6 config then net_sys os (NSetOnlyV6 raw_fd) s1 else (Inr 0, s1)) (\<lambda>_ s2.
     try_net (if bc_reuse_address config then net_sys os (NSetReuseAddress raw_fd) s2 else (Inr 0, s2)) (\<lambda>_ s3.
     try_net
       (case bc_reuse_port config of
          ReuseDisabled \<Rightarrow> tcp_bind_and_listen os raw_fd addr config s3
        | ReuseDefault \<Rightarrow> try_net (net_sys os (NSetReusePort raw_fd) s3) (\<lambda>_. tcp_bind_and_listen os raw_fd addr config)
        | ReuseCPU \<Rightarrow>
            try_net (net_sys os (NSetReusePort raw_fd) s3) (\<lambda>_ s4.
            try_net (tcp_bind_and_listen os raw_fd addr config s4) (\<lambda>_. net_sys os (NAttachFilter raw_fd))))
       (\<lambda>_ s5. (Inr raw_fd, s5))))"

lemma tcp_listener_bind_eq:
  "tcp_listener_bind_with_config os config addrs =
     each_addr addrs (\<lambda>addr s. try_net (new_tcp_socket os addr s) (tcp_bind_rest os config addr))"
  by (simp add: tcp_listener_bind_with_config_def bind_with_config_def tcp_bind_rest_def[abs_def])

lemma tcp_bind_rest_unclosed: "logs (\<lambda>l _. unclosed l) s (tcp_bind_rest os config addr raw_fd s)"
proof -
  note steps = try_net_logs[OF additive_unclosed] tcp_bind_unclosed logs_return[OF additive_unclosed]
  have p: "logs (\<lambda>l _. unclosed l) s3
      (case bc_reuse_port config of
          ReuseDisabled \<Rightarrow> tcp_bind_and_listen os raw_fd addr config s3
        | ReuseDefault \<Rightarrow> try_net (net_sys os (NSetReusePort raw_fd) s3) (\<lambda>_. tcp_bind_and_listen os raw_fd addr config)
        | ReuseCPU \<Rightarrow>
            try_net (net_sys os (NSetReusePort raw_fd) s3) (\<lambda>_ s4.
            try_net (tcp_bind_and_listen os raw_fd addr config s4) (\<lambda>_. net_sys os (NAttachFilter raw_fd))))" for s3
    by (cases "bc_reuse_port config") (auto intro!: steps net_sys_unclosed)
  show ?thesis unfolding tcp_bind_rest_def by (intro steps p) (auto intro!: logs_return[OF additive_unclosed] net_sys_unclosed)
qed

text \<open>
  C35. A TCP listener that fails to bind leaks its socket. When the socket for the first address was made and binding fails, at an option, at
  the bind or at the listen call of every address, then the descriptor was made and nothing was closed.
\<close>

theorem bind_failure_leaks_socket:
  assumes "new_tcp_socket os a s = (Inr fd, s1)" and "tcp_listener_bind_with_config os config (Inr (a # addrs)) s = (Inl e, s')"
  shows "\<exists>l. nt_log s' = nt_log s @ l \<and> fd \<in> set (created l) \<and> closed l = []"
proof -
  let ?f = "\<lambda>addr s. try_net (new_tcp_socket os addr s) (tcp_bind_rest os config addr)"
  have f: "logs (\<lambda>l _. unclosed l) s (?f b s)" for b s
    by (intro try_net_logs additive_unclosed new_tcp_socket_unclosed tcp_bind_rest_unclosed)
  obtain x s2 where rest: "tcp_bind_rest os config a fd s1 = (x, s2)" by fastforce
  have one: "?f a s = (x, s2)" using assms(1) rest by simp
  with assms(2) obtain e1 where x: "x = Inl e1" by (cases x) (auto simp: tcp_listener_bind_eq each_addr_def)
  obtain l0 where l0: "nt_log s1 = nt_log s @ l0" "created l0 = [fd]" "closed l0 = []" using new_tcp_socket_log[OF assms(1)] by blast
  obtain l1 where l1: "nt_log s2 = nt_log s1 @ l1" "closed l1 = []"
    using tcp_bind_rest_unclosed[of s1 os config a fd] unfolding rest by (auto elim: logsE)
  obtain l2 where l2: "nt_log (snd (each_addr_loop ?f addrs (EachErr e1) s2)) = nt_log s2 @ l2" "closed l2 = []"
    using each_addr_loop_logs[where f="?f" and as=addrs and res="EachErr e1" and s=s2, OF additive_unclosed f] by blast
  have "s' = snd (each_addr_loop ?f addrs (EachErr e1) s2)"
    using assms(2) one x by (auto simp: tcp_listener_bind_eq each_addr_def split: prod.splits each_addr_res.splits)
  with l0 l1 l2 show ?thesis by (intro exI[where x="l0 @ l1 @ l2"]) simp
qed

definition refusing_os :: "nat net_os" where
  "refusing_os call n = (case call of NSocket _ _ _ \<Rightarrow> (Inr (int n), n + 1) | NBind _ _ \<Rightarrow> (Inl 98, n) | _ \<Rightarrow> (Inr 0, n))"

theorem bind_failure_leaks_socket_witness:
  "\<exists>s' l. tcp_listener_bind_with_config refusing_os bind_config_new (Inr [V4 0 80, V4 0 81]) \<lparr>nt_os = 3, nt_log = [], nt_panics = []\<rparr> = (Inl (OsError 98), s') \<and>
     nt_log s' = l \<and> 3 \<in> set (created l) \<and> closed l = []"
proof -
  let ?s = "\<lparr>nt_os = 3, nt_log = [], nt_panics = []\<rparr> :: nat net"
  obtain s1 where n: "new_tcp_socket refusing_os (V4 0 80) ?s = (Inr 3, s1)"
    by (simp add: new_tcp_socket_def new_socket_def net_sys_def refusing_os_def)
  obtain s' where b: "tcp_listener_bind_with_config refusing_os bind_config_new (Inr [V4 0 80, V4 0 81]) ?s = (Inl (OsError 98), s')"
    by (simp add: tcp_listener_bind_with_config_def bind_with_config_def bind_config_new_def each_addr_def new_tcp_socket_def new_socket_def
        net_sys_def refusing_os_def tcp_bind_and_listen_def)
  from bind_failure_leaks_socket[OF n b] b show ?thesis by auto
qed

text \<open>Every descriptor of the log was closed or is the result.\<close>

definition owned :: "(net_call \<times> (nat + int)) list \<Rightarrow> sock_error + fd \<Rightarrow> bool" where
  "owned l x \<longleftrightarrow> mset (created l) = mset (closed l) + (case x of Inr fd \<Rightarrow> {#fd#} | Inl _ \<Rightarrow> {#})"

lemma each_addr_loop_owned:
  assumes "\<And>a s. logs owned s (f a s)"
  shows "\<exists>l. nt_log (snd (each_addr_loop f as res s)) = nt_log s @ l \<and>
    (case fst (each_addr_loop f as res s) of EachOk fd \<Rightarrow> fst (each_addr_loop f as res s) = res \<and> l = [] \<or> owned l (Inr fd) | _ \<Rightarrow> owned l (Inl NoAddresses))"
proof (induction as arbitrary: res s)
  case Nil
  show ?case by (cases res) (auto simp: owned_def)
next
  case (Cons a as)
  obtain x s1 where f: "f a s = (x, s1)" by fastforce
  with assms[of s a] obtain l where l: "nt_log s1 = nt_log s @ l" "owned l x" by (auto elim: logsE)
  show ?case
  proof (cases x)
    case (Inl e)
    obtain r s2 where r: "each_addr_loop f as (EachErr e) s1 = (r, s2)" by fastforce
    with Cons.IH[of "EachErr e" s1] obtain l' where l': "nt_log s2 = nt_log s1 @ l'"
      "case r of EachOk fd \<Rightarrow> owned l' (Inr fd) | _ \<Rightarrow> owned l' (Inl NoAddresses)" by (cases r) auto
    have "case r of EachOk fd \<Rightarrow> owned (l @ l') (Inr fd) | _ \<Rightarrow> owned (l @ l') (Inl NoAddresses)"
      using l(2) l'(2) Inl by (auto simp: owned_def split: each_addr_res.splits)
    with l l' f r Inl show ?thesis by (auto split: each_addr_res.splits intro!: exI[where x="l @ l'"])
  qed (use l f in auto)
qed

lemma each_addr_owned:
  assumes "\<And>a s. logs owned s (f a s)"
  shows "logs owned s (each_addr addrs f s)"
proof (cases addrs)
  case (Inl e)
  then show ?thesis by (auto simp: each_addr_def owned_def intro: logsI[where l="[]"])
next
  case (Inr as)
  obtain r s1 where r: "each_addr_loop f as EachNone s = (r, s1)" by fastforce
  with each_addr_loop_owned[where f=f and as=as and res=EachNone and s=s, OF assms] obtain l where
    "nt_log s1 = nt_log s @ l" "case r of EachOk fd \<Rightarrow> owned l (Inr fd) | _ \<Rightarrow> owned l (Inl NoAddresses)"
    by (cases r) auto
  with r Inr show ?thesis by (cases r) (auto simp: each_addr_def owned_def intro!: logsI[where l=l])
qed

lemma connect_attempt_owned:
  assumes "\<And>s. logs (\<lambda>l x. created l = (case x of Inr fd \<Rightarrow> [fd] | Inl _ \<Rightarrow> []) \<and> closed l = []) s (new_for_addr s)"
  shows "logs owned s (try_net (new_for_addr s) (\<lambda>stream s1.
         case net_sys os (NConnect stream addr deadline) s1 of
           (Inl e, s2) \<Rightarrow> (Inl e, socket_drop os stream s2)
         | (Inr _, s2) \<Rightarrow> (Inr stream, s2)))"
proof -
  obtain x s1 where n: "new_for_addr s = (x, s1)" by fastforce
  with assms[of s] obtain l where l: "nt_log s1 = nt_log s @ l" "created l = (case x of Inr fd \<Rightarrow> [fd] | Inl _ \<Rightarrow> [])" "closed l = []"
    by (auto elim: logsE)
  show ?thesis
  proof (cases x)
    case (Inl e)
    then show ?thesis using n l by (auto simp: owned_def intro: logsI)
  next
    case (Inr fd)
    obtain r os1 where c: "os (NConnect fd addr deadline) (nt_os s1) = (r, os1)" by fastforce
    obtain r' os2 where d: "os (NClose fd) os1 = (r', os2)" by fastforce
    show ?thesis using n l Inr c d by (cases r; cases r') (auto simp: net_sys_def socket_drop_def owned_def logs_def)
  qed
qed

text \<open>The tasks that panic are those of the closes that fail.\<close>

fun failed_close :: "net_call \<times> (nat + int) \<Rightarrow> fd list" where
  "failed_close (NClose fd, Inl _) = [fd]"
| "failed_close _ = []"

definition failed_closes :: "(net_call \<times> (nat + int)) list \<Rightarrow> fd list" where
  "failed_closes l = concat (map failed_close l)"

definition accounted :: "'s net \<Rightarrow> 's net \<Rightarrow> bool" where
  "accounted s s' \<longleftrightarrow> (\<exists>l. nt_log s' = nt_log s @ l \<and> nt_panics s' = nt_panics s @ failed_closes l)"

lemma accounted_refl: "accounted s s"
  by (simp add: accounted_def failed_closes_def)

lemma accounted_trans: "accounted s s1 \<Longrightarrow> accounted s1 s2 \<Longrightarrow> accounted s s2"
  by (auto simp: accounted_def failed_closes_def)

lemma net_sys_accounted: "failed_close (call, Inl 0) = [] \<Longrightarrow> accounted s (snd (net_sys os call s))"
  by (cases call) (auto simp: net_sys_def accounted_def failed_closes_def split: prod.splits)

lemma socket_drop_accounted: "accounted s (socket_drop os fd s)"
proof -
  obtain r os' where "os (NClose fd) (nt_os s) = (r, os')" by fastforce
  then show ?thesis by (cases r) (auto simp: socket_drop_def net_sys_def accounted_def failed_closes_def)
qed

lemma try_net_accounted:
  assumes "accounted s (snd r)" and "\<And>x s1. accounted s1 (snd (f x s1))"
  shows "accounted s (snd (try_net r f))"
  using assms by (cases r; cases "fst r") (auto intro: accounted_trans)

lemma each_addr_accounted:
  assumes "\<And>a s. accounted s (snd (f a s))"
  shows "accounted s (snd (each_addr addrs f s))"
proof -
  have l: "accounted s (snd (each_addr_loop f as res s))" for as res s
  proof (induction as arbitrary: res s)
    case (Cons a as)
    obtain x s1 where f: "f a s = (x, s1)" by fastforce
    with assms[of s a] have "accounted s s1" by simp
    with f Cons.IH show ?case by (cases x) (auto intro: accounted_trans)
  qed (simp add: accounted_refl)
  show ?thesis
  proof (cases addrs)
    case (Inr as)
    obtain x s1 where "each_addr_loop f as EachNone s = (x, s1)" by fastforce
    with l[where s=s and as=as and res=EachNone] Inr show ?thesis by (cases x) (simp_all add: each_addr_def)
  qed (simp add: each_addr_def accounted_refl)
qed

lemma stream_connect_accounted:
  assumes "\<And>a s. accounted s (snd (new_for_addr a s))"
  shows "accounted s (snd (stream_connect os new_for_addr into_sock_addr deadline addrs s))"
proof -
  have "accounted s1 (snd (case net_sys os (NConnect fd a deadline) s1 of
      (Inl e, s2) \<Rightarrow> (Inl e, socket_drop os fd s2) | (Inr _, s2) \<Rightarrow> (Inr fd, s2)))" for fd a s1
  proof -
    obtain x s2 where c: "net_sys os (NConnect fd a deadline) s1 = (x, s2)" by fastforce
    then have "accounted s1 s2" using net_sys_accounted[of "NConnect fd a deadline" s1 os] by simp
    with c socket_drop_accounted[of s2 os fd] show ?thesis by (cases x) (auto intro: accounted_trans)
  qed
  then show ?thesis unfolding stream_connect_def by (intro each_addr_accounted try_net_accounted assms)
qed

text \<open>
  C28. Connecting a stream leaks no socket and closes none twice: whatever the operating system answers, and however many addresses are tried,
  with or without a deadline, every descriptor that was made was closed once, except the one that is the result. The drop of a stream
  panics in its closing task exactly when its close fails.
\<close>

theorem stream_connect_owns_sockets:
  "\<exists>l. nt_log (snd (stream_connect os (tcp_stream_new_for_addr os) InetAddr deadline addrs s)) = nt_log s @ l \<and>
     nt_panics (snd (stream_connect os (tcp_stream_new_for_addr os) InetAddr deadline addrs s)) = nt_panics s @ failed_closes l \<and>
     mset (created l) = mset (closed l) +
       (case fst (stream_connect os (tcp_stream_new_for_addr os) InetAddr deadline addrs s) of Inr fd \<Rightarrow> {#fd#} | Inl _ \<Rightarrow> {#})"
proof -
  have n: "logs (\<lambda>l x. created l = (case x of Inr fd \<Rightarrow> [fd] | Inl _ \<Rightarrow> []) \<and> closed l = []) s (tcp_stream_new_for_addr os a s)" for a s
    by (cases a; cases "fst (os (NSocket (case a of V4 _ _ \<Rightarrow> IPV4 | V6 _ _ \<Rightarrow> IPV6) STREAM TCP) (nt_os s))")
       (auto simp: tcp_stream_new_for_addr_def net_sys_def logs_def split: prod.splits)
  have "logs owned s (stream_connect os (tcp_stream_new_for_addr os) InetAddr deadline addrs s)"
    unfolding stream_connect_def by (intro each_addr_owned connect_attempt_owned n)
  moreover have "accounted s (snd (tcp_stream_new_for_addr os a s))" for a s
    by (cases a) (simp_all add: tcp_stream_new_for_addr_def net_sys_accounted)
  then have "accounted s (snd (stream_connect os (tcp_stream_new_for_addr os) InetAddr deadline addrs s))"
    by (rule stream_connect_accounted)
  ultimately show ?thesis by (auto simp: logs_def owned_def accounted_def)
qed

text \<open>
  Connecting a datagram socket gives up its descriptor before the first attempt; when every attempt fails, nothing closes it.
\<close>

lemma datagram_connect_failure_keeps_open:
  assumes "datagram_connect os into_sock_addr deadline fd addrs s = (Inl e, s')"
  shows "\<exists>l. nt_log s' = nt_log s @ l \<and> created l = [] \<and> closed l = []"
proof (cases addrs)
  case (Inr as)
  let ?f = "\<lambda>addr s. try_net (net_sys os (NConnect fd (into_sock_addr addr) deadline) s) (\<lambda>_ s1. (Inr fd, s1))"
  have q: "additive (\<lambda>l. created l = [] \<and> closed l = [])" by (simp add: additive_def)
  have "logs (\<lambda>l _. created l = [] \<and> closed l = []) s (net_sys os (NConnect fd a deadline) s)" for s a
    by (auto simp: net_sys_def logs_def split: prod.splits)
  then have f: "logs (\<lambda>l _. created l = [] \<and> closed l = []) s (?f a s)" for s a
    by (intro try_net_logs[OF q] logs_return[OF q])
  have "s' = snd (each_addr_loop ?f as EachNone s)"
    using assms Inr by (auto simp: datagram_connect_def each_addr_def split: prod.splits each_addr_res.splits)
  then show ?thesis using each_addr_loop_logs[where f="?f" and as=as and res=EachNone and s=s, OF q f] by blast
qed (use assms in \<open>auto simp: datagram_connect_def each_addr_def\<close>)

end
