(* ===== verification/Channel_Receivers.thy ===== *)
theory Channel_Receivers
  imports Local_Channel Shared_Channel
begin

text \<open>
  The methods that the trait \<open>AsyncReceiver\<close> builds from \<open>recv_in_ptr\<close> and \<open>try_recv_in_ptr\<close> (\<open>src/src/sync/channels/async_trait.rs\<close>), over the
  functions of either channel. A slot of type \<open>T\<close> is a cell of the memory; dropping its value leaves the cell without one.
\<close>

section \<open>Methods\<close>

definition drop_in_place :: "nat \<Rightarrow> 'v cells \<Rightarrow> 'v cells" where
  "drop_in_place slot m = write_mem slot None m"

text \<open>\<open>recv_in\<close> drops the old value when it is called, and gives the future at the address \<open>f\<close> to poll.\<close>

definition receiver_recv_in :: "(nat \<Rightarrow> 'v cells \<Rightarrow> 'v cells) \<Rightarrow> nat \<Rightarrow> nat \<Rightarrow> 'v cells \<Rightarrow> 'v cells" where
  "receiver_recv_in recv_in_ptr f slot m = recv_in_ptr f (drop_in_place slot m)"

definition receiver_try_recv_in ::
  "(nat \<Rightarrow> 'c \<Rightarrow> 'v cells \<Rightarrow> try_recv_in_result \<times> 'w \<times> 'c \<times> 'v cells) \<Rightarrow> nat \<Rightarrow> 'c \<Rightarrow> 'v cells \<Rightarrow>
   try_recv_in_result \<times> 'w \<times> 'c \<times> 'v cells" where
  "receiver_try_recv_in try_recv_in_ptr slot c m = try_recv_in_ptr slot c (drop_in_place slot m)"

text \<open>\<open>recv\<close> and \<open>try_recv\<close> have a slot of their own, without a value; \<open>assume_init\<close> reads it.\<close>

definition assume_init :: "nat \<Rightarrow> 'v cells \<Rightarrow> 'v res" where
  "assume_init slot m = (case mem m slot of Some v \<Rightarrow> Inr v | None \<Rightarrow> Inl Undefined)"

definition receiver_recv_poll ::
  "(nat \<Rightarrow> 'c \<Rightarrow> 'v cells \<Rightarrow> recv_in_result poll \<times> 'w \<times> 'c \<times> 'v cells) \<Rightarrow> nat \<Rightarrow> 'c \<Rightarrow> 'v cells \<Rightarrow>
   'v recv_result poll res \<times> 'w \<times> 'c \<times> 'v cells" where
  "receiver_recv_poll poll_recv_in slot c m =
     (case poll_recv_in slot c m of (r, w, c', m') \<Rightarrow>
       ((case r of
           Pending \<Rightarrow> Inr Pending
         | Ready RecvInOk \<Rightarrow> bindR (assume_init slot m') (\<lambda>v. Inr (Ready (RecvOk v)))
         | Ready RecvInClosed \<Rightarrow> Inr (Ready RecvClosed)), w, c', m'))"

definition receiver_try_recv ::
  "(nat \<Rightarrow> 'c \<Rightarrow> 'v cells \<Rightarrow> try_recv_in_result \<times> 'w \<times> 'c \<times> 'v cells) \<Rightarrow> nat \<Rightarrow> 'c \<Rightarrow> 'v cells \<Rightarrow>
   'v try_recv_result res \<times> 'w \<times> 'c \<times> 'v cells" where
  "receiver_try_recv try_recv_in_ptr slot c m =
     (case try_recv_in_ptr slot c (write_mem slot None m) of (r, w, c', m') \<Rightarrow>
       ((case r of
           TryRecvInOk \<Rightarrow> bindR (assume_init slot m') (\<lambda>v. Inr (TryRecvOk v))
         | TryRecvInEmpty \<Rightarrow> Inr TryRecvEmpty
         | TryRecvInLocked \<Rightarrow> Inr TryRecvLocked
         | TryRecvInClosed \<Rightarrow> Inr TryRecvClosed), w, c', m'))"

section \<open>What they return\<close>

text \<open>
  The value to receive next: the oldest stored one, or the one of the first waiting sender. A waiting sender keeps its value in its future,
  apart from the slot.
\<close>

definition next_value :: "('t, 'v) inner \<Rightarrow> 'v cells \<Rightarrow> 'v option" where
  "next_value c m =
     (case storage c of
        v # _ \<Rightarrow> Some v
      | [] \<Rightarrow> (case waiting_senders c of Waiter _ _ value_ptr # _ \<Rightarrow> mem m value_ptr | [] \<Rightarrow> None))"

lemma local_try_recv_returns_next:
  assumes "\<forall>w \<in> set (waiting_senders c). waiter_ptr w \<noteq> slot \<and> mem m (waiter_ptr w) \<noteq> None"
  shows "fst (receiver_try_recv local_channel_try_recv_in_ptr slot c m) =
    Inr (if is_closed c then TryRecvClosed else case next_value c m of Some v \<Rightarrow> TryRecvOk v | None \<Rightarrow> TryRecvEmpty)"
  using assms
  by (auto simp: receiver_try_recv_def local_channel_try_recv_in_ptr_def next_value_def assume_init_def Let_def
      split: list.splits waiter.splits option.splits)

lemma local_recv_returns_next:
  assumes "\<forall>w \<in> set (waiting_senders c). waiter_ptr w \<noteq> slot \<and> mem m (waiter_ptr w) \<noteq> None" and "recv_state m f = RecvFirstCall"
  shows "fst (receiver_recv_poll (wait_local_recv_poll t f) slot c m) =
    Inr (if is_closed c then Ready RecvClosed else case next_value c m of Some v \<Rightarrow> Ready (RecvOk v) | None \<Rightarrow> Pending)"
  using assms
  by (auto simp: receiver_recv_poll_def wait_local_recv_poll_def next_value_def assume_init_def Let_def
      split: list.splits waiter.splits option.splits)

lemma local_try_recv_in_keeps_nothing:
  assumes "receiver_try_recv_in local_channel_try_recv_in_ptr slot c m = (r, w, c', m')" and "r \<noteq> TryRecvInOk"
  shows "mem m' slot = None"
  using assms
  by (auto simp: receiver_try_recv_in_def local_channel_try_recv_in_ptr_def drop_in_place_def Let_def
      split: if_splits list.splits waiter.splits)

text \<open>
  C34. \<open>try_recv_in\<close> is a safe method with a reference to an initialised slot, but it drops the old value first. When the channel is
  locked, closed or empty it returns that, writes nothing, and leaves the caller's slot without a value, so that the caller uses or drops a
  value that was dropped.
\<close>

theorem try_recv_in_leaves_dropped_value:
  assumes "mem m slot = Some old" and "receiver_try_recv_in (channel_try_recv_in_ptr cas) slot c m = (r, w, c', m')" and "r \<noteq> TryRecvInOk"
  shows "mem m' slot = None \<and> w = []"
  using assms(2,3)
  by (auto simp: receiver_try_recv_in_def channel_try_recv_in_ptr_def drop_in_place_def Let_def
      split: if_splits list.splits waiter.splits option.splits)

theorem try_recv_in_leaves_dropped_value_witness:
  "\<exists>w c' m'. receiver_try_recv_in (channel_try_recv_in_ptr True) 7 (fst (channel_bounded 8 1 (\<lambda>_. []) :: (nat, nat) channel \<times> nat deques_pool))
       \<lparr>send_state = \<lambda>_. SendFirstCall, recv_state = \<lambda>_. RecvFirstCall, mem = \<lambda>_. Some 3\<rparr> = (TryRecvInEmpty, w, c', m') \<and>
     mem m' 7 = None"
proof -
  let ?c = "fst (channel_bounded 8 1 (\<lambda>_. []) :: (nat, nat) channel \<times> nat deques_pool)"
  let ?m = "\<lparr>send_state = \<lambda>_. SendFirstCall, recv_state = \<lambda>_. RecvFirstCall, mem = \<lambda>_. Some 3\<rparr> :: nat cells"
  obtain w c' m' where r: "receiver_try_recv_in (channel_try_recv_in_ptr True) 7 ?c ?m = (TryRecvInEmpty, w, c', m')"
    by (auto simp: receiver_try_recv_in_def channel_try_recv_in_ptr_def channel_try_lock_def channel_bounded_def deques_pool_get_def
        deques_new_def waiting_senders_def)
  have "mem ?m 7 = Some 3" by simp
  from try_recv_in_leaves_dropped_value[OF this r] r show ?thesis by simp
qed

end
