(* ===== verification/Channel_Equivalence.thy ===== *)
theory Channel_Equivalence
  imports Local_Channel Shared_Channel
begin

text \<open>
  The shared channel on one thread against the local channel. Both implement one interface
  (\<open>src/src/sync/channels/async_trait.rs\<close>); the code of \<open>shared.rs\<close> and \<open>local.rs\<close> differs in the lock, in the late
  actions and in how tasks are resumed.
\<close>

section \<open>The shared channel without interleaving\<close>

text \<open>A call takes the free lock at its first attempt, and its late actions follow at once.\<close>

fun run_posts ::
  "('t, 'v) post list \<Rightarrow> ('t, 'v) channel \<times> 'v cells \<Rightarrow> 't list \<times> ('t, 'v) channel \<times> 'v cells" where
  "run_posts [] s = ([], s)"
| "run_posts (p # ps) s = (case run_post p s of (ts, s') \<Rightarrow> case run_posts ps s' of (us, s'') \<Rightarrow> (ts @ us, s''))"

definition channel_alone_step ::
  "('t, 'v) chan_op \<Rightarrow> ('t, 'v) channel \<times> 'v cells \<Rightarrow> ('t, 'v) chan_report \<times> ('t, 'v) channel \<times> 'v cells" where
  "channel_alone_step q s =
     (case channel_call True q s of (r, ps, s') \<Rightarrow>
        case run_posts ps s' of (ts, s'') \<Rightarrow> (r\<lparr>resumed := resumed r @ ts\<rparr>, s''))"

text \<open>What a caller and the tasks see of a call, and the channel without its lock.\<close>

definition outcome :: "('t, 'v) chan_report \<Rightarrow> 'v chan_result \<times> 't list \<times> 't list" where
  "outcome r = (result r, suspended r, resumed r)"

definition forget_lock :: "('t, 'v) channel \<times> 'v cells \<Rightarrow> ('t, 'v) inner \<times> 'v cells" where
  "forget_lock s = (inner.truncate (fst s), snd s)"

lemma truncate_simps [simp]:
  "storage (inner.truncate c) = storage c" "is_closed (inner.truncate c) = is_closed c"
  "capacity (inner.truncate c) = capacity c" "deques (inner.truncate c) = deques c"
  "waiting_senders (inner.truncate c) = waiting_senders c" "waiting_receivers (inner.truncate c) = waiting_receivers c"
  by (simp_all add: inner.truncate_def waiting_senders_def waiting_receivers_def)

lemma truncate_updates [simp]:
  "inner.truncate (set_senders ws c) = set_senders ws (inner.truncate c)"
  "inner.truncate (set_receivers ws c) = set_receivers ws (inner.truncate c)"
  "inner.truncate (c\<lparr>storage := vs\<rparr>) = (inner.truncate c)\<lparr>storage := vs\<rparr>"
  "inner.truncate (c\<lparr>is_closed := b\<rparr>) = (inner.truncate c)\<lparr>is_closed := b\<rparr>"
  "inner.truncate (channel_unlock c) = inner.truncate c" "inner.truncate (c\<lparr>ch_is_locked := l\<rparr>) = inner.truncate c"
  by (simp_all add: inner.truncate_def set_senders_def set_receivers_def channel_unlock_def)

lemma writes_commute:
  "set_send_state a x (write_mem b v m) = write_mem b v (set_send_state a x m)"
  by (simp add: set_send_state_def write_mem_def)

lemma alone_step_local:
  assumes "\<not> ch_is_locked c"
  shows "case channel_alone_step q (c, m) of (r, c', m') \<Rightarrow>
    case local_channel_step q (inner.truncate c, m) of (r', s') \<Rightarrow>
      outcome r = outcome r' \<and> forget_lock (c', m') = s' \<and> \<not> ch_is_locked c'"
  using assms
  by (cases q)
     (auto simp: channel_alone_step_def channel_defs wait_local_send_poll_def wait_local_send_new_def
       wait_local_recv_poll_def wait_local_recv_new_def local_channel_try_send_def local_channel_try_recv_in_ptr_def
       channel_close_def local_channel_close_def outcome_def forget_lock_def writes_commute Let_def o_def
       split: send_call_state.splits recv_call_state.splits list.splits waiter.splits prod.splits)

lemma alone_run_local:
  "\<not> ch_is_locked (fst s) \<Longrightarrow> run_ops channel_alone_step qs s = (rs, s') \<Longrightarrow>
   run_ops local_channel_step qs (forget_lock s) = (rs', t') \<Longrightarrow>
   map outcome rs = map outcome rs' \<and> forget_lock s' = t' \<and> \<not> ch_is_locked (fst s')"
proof (induction qs arbitrary: s rs rs')
  case (Cons q qs)
  obtain c m where s: "s = (c, m)" by (cases s)
  from Cons.prems(2) obtain r u us where a: "channel_alone_step q s = (r, u)" "run_ops channel_alone_step qs u = (us, s')"
    "rs = r # us" by (auto simp del: run_ops.simps simp: run_ops_Cons_eq)
  from Cons.prems(3) obtain r' v vs where l: "local_channel_step q (forget_lock s) = (r', v)"
    "run_ops local_channel_step qs v = (vs, t')" "rs' = r' # vs" by (auto simp del: run_ops.simps simp: run_ops_Cons_eq)
  have "outcome r = outcome r'" "forget_lock u = v" "\<not> ch_is_locked (fst u)"
    using alone_step_local[of c q m] Cons.prems(1) a(1) l(1) by (auto simp: s forget_lock_def split: prod.splits)
  with Cons.IH[of u us vs] a l show ?case by simp
qed simp

text \<open>
  C16. A shared channel that is used without interference is a local channel: for the same capacity and any history of sends,
  receives, resumed futures, \<open>try_send\<close>, \<open>try_recv\<close> and \<open>close\<close>, both return the same results, suspend and resume the same tasks
  in the same order, leave the same memory and the same stored values and waiting tasks, and the lock ends up free.
\<close>

theorem channel_equals_local_channel:
  "(let (rs, s) = run_ops channel_alone_step qs (fst (channel_bounded sz cap pool), m);
        (rs', s') = run_ops local_channel_step qs (fst (local_channel_bounded sz cap pool), m)
    in map outcome rs = map outcome rs' \<and> forget_lock s = s' \<and> \<not> ch_is_locked (fst s))"
proof -
  let ?s = "(fst (channel_bounded sz cap pool), m)"
  obtain rs s rs' s' where r: "run_ops channel_alone_step qs ?s = (rs, s)"
    "run_ops local_channel_step qs (fst (local_channel_bounded sz cap pool), m) = (rs', s')" by (meson surj_pair)
  have "forget_lock ?s = (fst (local_channel_bounded sz cap pool), m)" and unlocked: "\<not> ch_is_locked (fst ?s)"
    by (simp_all add: forget_lock_def channel_bounded_def local_channel_bounded_def inner.truncate_def split: prod.splits)
  then have "run_ops local_channel_step qs (forget_lock ?s) = (rs', s')" using r(2) by simp
  from alone_run_local[OF unlocked r(1) this] r show ?thesis by simp
qed

end
