(* ===== verification/Exact_Io.thy ===== *)
theory Exact_Io
  imports Io_Requests
begin

text \<open>
  The methods of the I/O traits that go on until a buffer is full or written
  (\<open>src/src/io/fs/read.rs\<close>, \<open>write.rs\<close>, \<open>src/src/io/net/recv.rs\<close>, \<open>peek.rs\<close>, \<open>send.rs\<close>, \<open>send_to.rs\<close>), with the single
  transfers they repeat. What a transfer returns is an argument.
\<close>

section \<open>Transfers\<close>

text \<open>
  One awaited request: the index of a fixed buffer, the offset in the file, the deadline and the length. A transfer that
  reads returns the bytes it stored, one that writes gets the bytes and returns how many it took. \<open>'s\<close> is the state of
  the file or socket. Lengths are below \<open>2 ^ 32\<close>, so that the casts to \<open>u32\<close> keep them.
\<close>

type_synonym byte = "8 word"

record transfer =
  tr_fixed :: "16 word option"
  tr_offset :: "nat option"
  tr_deadline :: "nat option"
  tr_len :: nat

definition transfer :: "16 word option \<Rightarrow> nat option \<Rightarrow> nat option \<Rightarrow> nat \<Rightarrow> transfer" where
  "transfer fixed offset deadline len = \<lparr>tr_fixed = fixed, tr_offset = offset, tr_deadline = deadline, tr_len = len\<rparr>"

type_synonym 's read_fun = "transfer \<Rightarrow> 's \<Rightarrow> (io_error + byte list) \<times> 's"

type_synonym 's write_fun = "transfer \<Rightarrow> byte list \<Rightarrow> 's \<Rightarrow> (io_error + nat) \<times> 's"

definition store_at :: "nat \<Rightarrow> byte list \<Rightarrow> byte list \<Rightarrow> byte list" where
  "store_at i bs buf = take i buf @ bs @ drop (i + length bs) buf"

text \<open>
  The loops \<open>while read < buf.len() { read += ...await?; }\<close>. \<open>req\<close> says which transfer is asked for when a number of bytes is
  done and a number is left. A loop that does not end is \<open>None\<close>.
\<close>

partial_function (option) fill_loop ::
  "'s read_fun \<Rightarrow> (nat \<Rightarrow> nat \<Rightarrow> transfer) \<Rightarrow> byte list \<Rightarrow> nat \<Rightarrow> 's \<Rightarrow> ((io_error + unit) \<times> byte list \<times> 's) option" where
  "fill_loop rd req buf i s =
     (if i < length buf then
        (case rd (req i (length buf - i)) s of
           (Inl err, s') \<Rightarrow> Some (Inl err, buf, s')
         | (Inr bs, s') \<Rightarrow> fill_loop rd req (store_at i bs buf) (i + length bs) s')
      else Some (Inr (), buf, s))"

partial_function (option) drain_loop ::
  "'s write_fun \<Rightarrow> (nat \<Rightarrow> nat \<Rightarrow> transfer) \<Rightarrow> byte list \<Rightarrow> nat \<Rightarrow> 's \<Rightarrow> ((io_error + nat) \<times> 's) option" where
  "drain_loop wr req buf i s =
     (if i < length buf then
        (case wr (req i (length buf - i)) (drop i buf) s of
           (Inl err, s') \<Rightarrow> Some (Inl err, s')
         | (Inr n, s') \<Rightarrow> drain_loop wr req buf (i + n) s')
      else Some (Inr i, s))"

definition unit_result :: "((io_error + nat) \<times> 's) option \<Rightarrow> ((io_error + unit) \<times> 's) option" where
  "unit_result r = map_option (\<lambda>(x, s). (case x of Inl err \<Rightarrow> Inl err | Inr _ \<Rightarrow> Inr (), s)) r"

text \<open>One transfer into the buffer, and its length.\<close>

definition fill_once :: "'s read_fun \<Rightarrow> transfer \<Rightarrow> byte list \<Rightarrow> 's \<Rightarrow> (io_error + nat) \<times> byte list \<times> 's" where
  "fill_once rd x buf s =
     (case rd x s of (Inl err, s') \<Rightarrow> (Inl err, buf, s') | (Inr bs, s') \<Rightarrow> (Inr (length bs), store_at 0 bs buf, s'))"

section \<open>The methods of the traits\<close>

definition io_read_bytes ::
  "'s read_fun \<Rightarrow> byte list \<Rightarrow> 's \<Rightarrow> (io_error + nat) \<times> byte list \<times> 's" where
  "io_read_bytes rd buf s =
     fill_once rd (transfer None None None (length buf)) buf s"

definition io_read ::
  "'s read_fun \<Rightarrow> 16 word option \<Rightarrow> byte list \<Rightarrow> 's \<Rightarrow> (io_error + nat) \<times> byte list \<times> 's" where
  "io_read rd fixed buf s =
     (case fixed of
        Some index \<Rightarrow> fill_once rd (transfer (Some index) None None (length buf)) buf s
      | None \<Rightarrow> fill_once rd (transfer None None None (length buf)) buf s)"

definition io_pread_bytes ::
  "'s read_fun \<Rightarrow> nat \<Rightarrow> byte list \<Rightarrow> 's \<Rightarrow> (io_error + nat) \<times> byte list \<times> 's" where
  "io_pread_bytes rd offset buf s =
     fill_once rd (transfer None (Some offset) None (length buf)) buf s"

definition io_pread ::
  "'s read_fun \<Rightarrow> 16 word option \<Rightarrow> nat \<Rightarrow> byte list \<Rightarrow> 's \<Rightarrow> (io_error + nat) \<times> byte list \<times> 's" where
  "io_pread rd fixed offset buf s =
     (case fixed of
        Some index \<Rightarrow> fill_once rd (transfer (Some index) (Some offset) None (length buf)) buf s
      | None \<Rightarrow> fill_once rd (transfer None (Some offset) None (length buf)) buf s)"

definition io_read_bytes_exact ::
  "'s read_fun \<Rightarrow> byte list \<Rightarrow> 's \<Rightarrow> ((io_error + unit) \<times> byte list \<times> 's) option" where
  "io_read_bytes_exact rd buf s =
     fill_loop rd (\<lambda>i len. transfer None None None len) buf 0 s"

definition io_read_exact ::
  "'s read_fun \<Rightarrow> 16 word option \<Rightarrow> byte list \<Rightarrow> 's \<Rightarrow> ((io_error + unit) \<times> byte list \<times> 's) option" where
  "io_read_exact rd fixed buf s =
     (case fixed of
        Some index \<Rightarrow> fill_loop rd (\<lambda>i len. transfer (Some index) None None len) buf 0 s
      | None \<Rightarrow> fill_loop rd (\<lambda>i len. transfer None None None len) buf 0 s)"

definition io_pread_bytes_exact ::
  "'s read_fun \<Rightarrow> nat \<Rightarrow> byte list \<Rightarrow> 's \<Rightarrow> ((io_error + unit) \<times> byte list \<times> 's) option" where
  "io_pread_bytes_exact rd offset buf s =
     fill_loop rd (\<lambda>i len. transfer None (Some (offset + i)) None len) buf 0 s"

definition io_pread_exact ::
  "'s read_fun \<Rightarrow> 16 word option \<Rightarrow> nat \<Rightarrow> byte list \<Rightarrow> 's \<Rightarrow> ((io_error + unit) \<times> byte list \<times> 's) option" where
  "io_pread_exact rd fixed offset buf s =
     (case fixed of
        Some index \<Rightarrow> fill_loop rd (\<lambda>i len. transfer (Some index) (Some (offset + i)) None len) buf 0 s
      | None \<Rightarrow> fill_loop rd (\<lambda>i len. transfer None (Some (offset + i)) None len) buf 0 s)"

definition io_write_bytes ::
  "'s write_fun \<Rightarrow> byte list \<Rightarrow> 's \<Rightarrow> (io_error + nat) \<times> 's" where
  "io_write_bytes wr buf s =
     wr (transfer None None None (length buf)) buf s"

definition io_write ::
  "'s write_fun \<Rightarrow> 16 word option \<Rightarrow> byte list \<Rightarrow> 's \<Rightarrow> (io_error + nat) \<times> 's" where
  "io_write wr fixed buf s =
     (case fixed of
        Some index \<Rightarrow> wr (transfer (Some index) None None (length buf)) buf s
      | None \<Rightarrow> wr (transfer None None None (length buf)) buf s)"

definition io_pwrite_bytes ::
  "'s write_fun \<Rightarrow> nat \<Rightarrow> byte list \<Rightarrow> 's \<Rightarrow> (io_error + nat) \<times> 's" where
  "io_pwrite_bytes wr offset buf s =
     wr (transfer None (Some offset) None (length buf)) buf s"

definition io_pwrite ::
  "'s write_fun \<Rightarrow> 16 word option \<Rightarrow> nat \<Rightarrow> byte list \<Rightarrow> 's \<Rightarrow> (io_error + nat) \<times> 's" where
  "io_pwrite wr fixed offset buf s =
     (case fixed of
        Some index \<Rightarrow> wr (transfer (Some index) (Some offset) None (length buf)) buf s
      | None \<Rightarrow> wr (transfer None (Some offset) None (length buf)) buf s)"

definition io_write_all_bytes ::
  "'s write_fun \<Rightarrow> byte list \<Rightarrow> 's \<Rightarrow> ((io_error + unit) \<times> 's) option" where
  "io_write_all_bytes wr buf s =
     unit_result (drain_loop wr (\<lambda>i len. transfer None None None len) buf 0 s)"

definition io_write_all ::
  "'s write_fun \<Rightarrow> 16 word option \<Rightarrow> byte list \<Rightarrow> 's \<Rightarrow> ((io_error + unit) \<times> 's) option" where
  "io_write_all wr fixed buf s =
     (case fixed of
        Some index \<Rightarrow> unit_result (drain_loop wr (\<lambda>i len. transfer (Some index) None None len) buf 0 s)
      | None \<Rightarrow> unit_result (drain_loop wr (\<lambda>i len. transfer None None None len) buf 0 s))"

definition io_pwrite_all_bytes ::
  "'s write_fun \<Rightarrow> nat \<Rightarrow> byte list \<Rightarrow> 's \<Rightarrow> ((io_error + unit) \<times> 's) option" where
  "io_pwrite_all_bytes wr offset buf s =
     unit_result (drain_loop wr (\<lambda>i len. transfer None (Some (offset + i)) None len) buf 0 s)"

definition io_pwrite_all ::
  "'s write_fun \<Rightarrow> 16 word option \<Rightarrow> nat \<Rightarrow> byte list \<Rightarrow> 's \<Rightarrow> ((io_error + unit) \<times> 's) option" where
  "io_pwrite_all wr fixed offset buf s =
     (case fixed of
        Some index \<Rightarrow> unit_result (drain_loop wr (\<lambda>i len. transfer (Some index) (Some (offset + i)) None len) buf 0 s)
      | None \<Rightarrow> unit_result (drain_loop wr (\<lambda>i len. transfer None (Some (offset + i)) None len) buf 0 s))"

definition io_recv_bytes ::
  "'s read_fun \<Rightarrow> byte list \<Rightarrow> 's \<Rightarrow> (io_error + nat) \<times> byte list \<times> 's" where
  "io_recv_bytes rd buf s =
     fill_once rd (transfer None None None (length buf)) buf s"

definition io_recv ::
  "'s read_fun \<Rightarrow> 16 word option \<Rightarrow> byte list \<Rightarrow> 's \<Rightarrow> (io_error + nat) \<times> byte list \<times> 's" where
  "io_recv rd fixed buf s =
     (case fixed of
        Some index \<Rightarrow> fill_once rd (transfer (Some index) None None (length buf)) buf s
      | None \<Rightarrow> fill_once rd (transfer None None None (length buf)) buf s)"

definition io_recv_bytes_with_deadline ::
  "'s read_fun \<Rightarrow> nat \<Rightarrow> byte list \<Rightarrow> 's \<Rightarrow> (io_error + nat) \<times> byte list \<times> 's" where
  "io_recv_bytes_with_deadline rd deadline buf s =
     fill_once rd (transfer None None (Some deadline) (length buf)) buf s"

definition io_recv_with_deadline ::
  "'s read_fun \<Rightarrow> 16 word option \<Rightarrow> nat \<Rightarrow> byte list \<Rightarrow> 's \<Rightarrow> (io_error + nat) \<times> byte list \<times> 's" where
  "io_recv_with_deadline rd fixed deadline buf s =
     (case fixed of
        Some index \<Rightarrow> fill_once rd (transfer (Some index) None (Some deadline) (length buf)) buf s
      | None \<Rightarrow> fill_once rd (transfer None None (Some deadline) (length buf)) buf s)"

definition io_recv_bytes_with_timeout ::
  "'s read_fun \<Rightarrow> nat \<Rightarrow> nat \<Rightarrow> byte list \<Rightarrow> 's \<Rightarrow> (io_error + nat) \<times> byte list \<times> 's" where
  "io_recv_bytes_with_timeout rd now timeout buf s =
     io_recv_bytes_with_deadline rd (now + timeout) buf s"

definition io_recv_with_timeout ::
  "'s read_fun \<Rightarrow> nat \<Rightarrow> nat \<Rightarrow> 16 word option \<Rightarrow> byte list \<Rightarrow> 's \<Rightarrow> (io_error + nat) \<times> byte list \<times> 's" where
  "io_recv_with_timeout rd now timeout fixed buf s =
     io_recv_with_deadline rd fixed (now + timeout) buf s"

definition io_recv_bytes_exact ::
  "'s read_fun \<Rightarrow> byte list \<Rightarrow> 's \<Rightarrow> ((io_error + unit) \<times> byte list \<times> 's) option" where
  "io_recv_bytes_exact rd buf s =
     fill_loop rd (\<lambda>i len. transfer None None None len) buf 0 s"

definition io_recv_exact ::
  "'s read_fun \<Rightarrow> 16 word option \<Rightarrow> byte list \<Rightarrow> 's \<Rightarrow> ((io_error + unit) \<times> byte list \<times> 's) option" where
  "io_recv_exact rd fixed buf s =
     (case fixed of
        Some index \<Rightarrow> fill_loop rd (\<lambda>i len. transfer (Some index) None None len) buf 0 s
      | None \<Rightarrow> fill_loop rd (\<lambda>i len. transfer None None None len) buf 0 s)"

definition io_recv_bytes_exact_with_deadline ::
  "'s read_fun \<Rightarrow> nat \<Rightarrow> byte list \<Rightarrow> 's \<Rightarrow> ((io_error + unit) \<times> byte list \<times> 's) option" where
  "io_recv_bytes_exact_with_deadline rd deadline buf s =
     fill_loop rd (\<lambda>i len. transfer None None (Some deadline) len) buf 0 s"

definition io_recv_exact_with_deadline ::
  "'s read_fun \<Rightarrow> 16 word option \<Rightarrow> nat \<Rightarrow> byte list \<Rightarrow> 's \<Rightarrow> ((io_error + unit) \<times> byte list \<times> 's) option" where
  "io_recv_exact_with_deadline rd fixed deadline buf s =
     (case fixed of
        Some index \<Rightarrow> fill_loop rd (\<lambda>i len. transfer (Some index) None (Some deadline) len) buf 0 s
      | None \<Rightarrow> fill_loop rd (\<lambda>i len. transfer None None (Some deadline) len) buf 0 s)"

definition io_recv_bytes_exact_with_timeout ::
  "'s read_fun \<Rightarrow> nat \<Rightarrow> nat \<Rightarrow> byte list \<Rightarrow> 's \<Rightarrow> ((io_error + unit) \<times> byte list \<times> 's) option" where
  "io_recv_bytes_exact_with_timeout rd now timeout buf s =
     io_recv_bytes_exact_with_deadline rd (now + timeout) buf s"

definition io_recv_exact_with_timeout ::
  "'s read_fun \<Rightarrow> nat \<Rightarrow> nat \<Rightarrow> 16 word option \<Rightarrow> byte list \<Rightarrow> 's \<Rightarrow> ((io_error + unit) \<times> byte list \<times> 's) option" where
  "io_recv_exact_with_timeout rd now timeout fixed buf s =
     io_recv_exact_with_deadline rd fixed (now + timeout) buf s"

definition io_peek_bytes ::
  "'s read_fun \<Rightarrow> byte list \<Rightarrow> 's \<Rightarrow> (io_error + nat) \<times> byte list \<times> 's" where
  "io_peek_bytes rd buf s =
     fill_once rd (transfer None None None (length buf)) buf s"

definition io_peek ::
  "'s read_fun \<Rightarrow> 16 word option \<Rightarrow> byte list \<Rightarrow> 's \<Rightarrow> (io_error + nat) \<times> byte list \<times> 's" where
  "io_peek rd fixed buf s =
     (case fixed of
        Some index \<Rightarrow> fill_once rd (transfer (Some index) None None (length buf)) buf s
      | None \<Rightarrow> fill_once rd (transfer None None None (length buf)) buf s)"

definition io_peek_bytes_with_deadline ::
  "'s read_fun \<Rightarrow> nat \<Rightarrow> byte list \<Rightarrow> 's \<Rightarrow> (io_error + nat) \<times> byte list \<times> 's" where
  "io_peek_bytes_with_deadline rd deadline buf s =
     fill_once rd (transfer None None (Some deadline) (length buf)) buf s"

definition io_peek_with_deadline ::
  "'s read_fun \<Rightarrow> 16 word option \<Rightarrow> nat \<Rightarrow> byte list \<Rightarrow> 's \<Rightarrow> (io_error + nat) \<times> byte list \<times> 's" where
  "io_peek_with_deadline rd fixed deadline buf s =
     (case fixed of
        Some index \<Rightarrow> fill_once rd (transfer (Some index) None (Some deadline) (length buf)) buf s
      | None \<Rightarrow> fill_once rd (transfer None None (Some deadline) (length buf)) buf s)"

definition io_peek_bytes_with_timeout ::
  "'s read_fun \<Rightarrow> nat \<Rightarrow> nat \<Rightarrow> byte list \<Rightarrow> 's \<Rightarrow> (io_error + nat) \<times> byte list \<times> 's" where
  "io_peek_bytes_with_timeout rd now timeout buf s =
     io_peek_bytes_with_deadline rd (now + timeout) buf s"

definition io_peek_with_timeout ::
  "'s read_fun \<Rightarrow> nat \<Rightarrow> nat \<Rightarrow> 16 word option \<Rightarrow> byte list \<Rightarrow> 's \<Rightarrow> (io_error + nat) \<times> byte list \<times> 's" where
  "io_peek_with_timeout rd now timeout fixed buf s =
     io_peek_with_deadline rd fixed (now + timeout) buf s"

definition io_peek_bytes_exact ::
  "'s read_fun \<Rightarrow> byte list \<Rightarrow> 's \<Rightarrow> ((io_error + unit) \<times> byte list \<times> 's) option" where
  "io_peek_bytes_exact rd buf s =
     fill_loop rd (\<lambda>i len. transfer None None None len) buf 0 s"

definition io_peek_exact ::
  "'s read_fun \<Rightarrow> 16 word option \<Rightarrow> byte list \<Rightarrow> 's \<Rightarrow> ((io_error + unit) \<times> byte list \<times> 's) option" where
  "io_peek_exact rd fixed buf s =
     (case fixed of
        Some index \<Rightarrow> fill_loop rd (\<lambda>i len. transfer (Some index) None None len) buf 0 s
      | None \<Rightarrow> fill_loop rd (\<lambda>i len. transfer None None None len) buf 0 s)"

definition io_peek_bytes_exact_with_deadline ::
  "'s read_fun \<Rightarrow> nat \<Rightarrow> byte list \<Rightarrow> 's \<Rightarrow> ((io_error + unit) \<times> byte list \<times> 's) option" where
  "io_peek_bytes_exact_with_deadline rd deadline buf s =
     fill_loop rd (\<lambda>i len. transfer None None (Some deadline) len) buf 0 s"

definition io_peek_exact_with_deadline ::
  "'s read_fun \<Rightarrow> 16 word option \<Rightarrow> nat \<Rightarrow> byte list \<Rightarrow> 's \<Rightarrow> ((io_error + unit) \<times> byte list \<times> 's) option" where
  "io_peek_exact_with_deadline rd fixed deadline buf s =
     (case fixed of
        Some index \<Rightarrow> fill_loop rd (\<lambda>i len. transfer (Some index) None (Some deadline) len) buf 0 s
      | None \<Rightarrow> fill_loop rd (\<lambda>i len. transfer None None (Some deadline) len) buf 0 s)"

definition io_peek_bytes_exact_with_timeout ::
  "'s read_fun \<Rightarrow> nat \<Rightarrow> nat \<Rightarrow> byte list \<Rightarrow> 's \<Rightarrow> ((io_error + unit) \<times> byte list \<times> 's) option" where
  "io_peek_bytes_exact_with_timeout rd now timeout buf s =
     io_peek_bytes_exact_with_deadline rd (now + timeout) buf s"

definition io_peek_exact_with_timeout ::
  "'s read_fun \<Rightarrow> nat \<Rightarrow> nat \<Rightarrow> 16 word option \<Rightarrow> byte list \<Rightarrow> 's \<Rightarrow> ((io_error + unit) \<times> byte list \<times> 's) option" where
  "io_peek_exact_with_timeout rd now timeout fixed buf s =
     io_peek_exact_with_deadline rd fixed (now + timeout) buf s"

definition io_send_bytes ::
  "'s write_fun \<Rightarrow> byte list \<Rightarrow> 's \<Rightarrow> (io_error + nat) \<times> 's" where
  "io_send_bytes wr buf s =
     wr (transfer None None None (length buf)) buf s"

definition io_send ::
  "'s write_fun \<Rightarrow> 16 word option \<Rightarrow> byte list \<Rightarrow> 's \<Rightarrow> (io_error + nat) \<times> 's" where
  "io_send wr fixed buf s =
     (case fixed of
        Some index \<Rightarrow> wr (transfer (Some index) None None (length buf)) buf s
      | None \<Rightarrow> wr (transfer None None None (length buf)) buf s)"

definition io_send_bytes_with_deadline ::
  "'s write_fun \<Rightarrow> nat \<Rightarrow> byte list \<Rightarrow> 's \<Rightarrow> (io_error + nat) \<times> 's" where
  "io_send_bytes_with_deadline wr deadline buf s =
     wr (transfer None None (Some deadline) (length buf)) buf s"

definition io_send_with_deadline ::
  "'s write_fun \<Rightarrow> 16 word option \<Rightarrow> nat \<Rightarrow> byte list \<Rightarrow> 's \<Rightarrow> (io_error + nat) \<times> 's" where
  "io_send_with_deadline wr fixed deadline buf s =
     (case fixed of
        Some index \<Rightarrow> wr (transfer (Some index) None (Some deadline) (length buf)) buf s
      | None \<Rightarrow> wr (transfer None None (Some deadline) (length buf)) buf s)"

definition io_send_bytes_with_timeout ::
  "'s write_fun \<Rightarrow> nat \<Rightarrow> nat \<Rightarrow> byte list \<Rightarrow> 's \<Rightarrow> (io_error + nat) \<times> 's" where
  "io_send_bytes_with_timeout wr now timeout buf s =
     io_send_bytes_with_deadline wr (now + timeout) buf s"

definition io_send_with_timeout ::
  "'s write_fun \<Rightarrow> nat \<Rightarrow> nat \<Rightarrow> 16 word option \<Rightarrow> byte list \<Rightarrow> 's \<Rightarrow> (io_error + nat) \<times> 's" where
  "io_send_with_timeout wr now timeout fixed buf s =
     io_send_with_deadline wr fixed (now + timeout) buf s"

definition io_send_all_bytes ::
  "'s write_fun \<Rightarrow> byte list \<Rightarrow> 's \<Rightarrow> ((io_error + unit) \<times> 's) option" where
  "io_send_all_bytes wr buf s =
     unit_result (drain_loop wr (\<lambda>i len. transfer None None None len) buf 0 s)"

definition io_send_all ::
  "'s write_fun \<Rightarrow> 16 word option \<Rightarrow> byte list \<Rightarrow> 's \<Rightarrow> ((io_error + unit) \<times> 's) option" where
  "io_send_all wr fixed buf s =
     (case fixed of
        Some index \<Rightarrow> unit_result (drain_loop wr (\<lambda>i len. transfer (Some index) None None len) buf 0 s)
      | None \<Rightarrow> unit_result (drain_loop wr (\<lambda>i len. transfer None None None len) buf 0 s))"

definition io_send_all_bytes_with_deadline ::
  "'s write_fun \<Rightarrow> nat \<Rightarrow> byte list \<Rightarrow> 's \<Rightarrow> ((io_error + unit) \<times> 's) option" where
  "io_send_all_bytes_with_deadline wr deadline buf s =
     unit_result (drain_loop wr (\<lambda>i len. transfer None None (Some deadline) len) buf 0 s)"

definition io_send_all_with_deadline ::
  "'s write_fun \<Rightarrow> 16 word option \<Rightarrow> nat \<Rightarrow> byte list \<Rightarrow> 's \<Rightarrow> ((io_error + unit) \<times> 's) option" where
  "io_send_all_with_deadline wr fixed deadline buf s =
     (case fixed of
        Some index \<Rightarrow> unit_result (drain_loop wr (\<lambda>i len. transfer (Some index) None (Some deadline) len) buf 0 s)
      | None \<Rightarrow> unit_result (drain_loop wr (\<lambda>i len. transfer None None (Some deadline) len) buf 0 s))"

definition io_send_all_bytes_with_timeout ::
  "'s write_fun \<Rightarrow> nat \<Rightarrow> nat \<Rightarrow> byte list \<Rightarrow> 's \<Rightarrow> ((io_error + unit) \<times> 's) option" where
  "io_send_all_bytes_with_timeout wr now timeout buf s =
     io_send_all_bytes_with_deadline wr (now + timeout) buf s"

definition io_send_all_with_timeout ::
  "'s write_fun \<Rightarrow> nat \<Rightarrow> nat \<Rightarrow> 16 word option \<Rightarrow> byte list \<Rightarrow> 's \<Rightarrow> ((io_error + unit) \<times> 's) option" where
  "io_send_all_with_timeout wr now timeout fixed buf s =
     io_send_all_with_deadline wr fixed (now + timeout) buf s"

text \<open>
  Datagrams: the address is resolved first, which may fail. A fixed buffer is sent as its bytes.
\<close>

definition io_send_bytes_to ::
  "'s write_fun \<Rightarrow> io_error + unit \<Rightarrow> byte list \<Rightarrow> 's \<Rightarrow> (io_error + nat) \<times> 's" where
  "io_send_bytes_to wr addr buf s =
     (case addr of Inl err \<Rightarrow> (Inl err, s) | Inr _ \<Rightarrow> wr (transfer None None None (length buf)) buf s)"

definition io_send_to ::
  "'s write_fun \<Rightarrow> io_error + unit \<Rightarrow> byte list \<Rightarrow> 's \<Rightarrow> (io_error + nat) \<times> 's" where
  "io_send_to wr addr buf s =
     io_send_bytes_to wr addr buf s"

definition io_send_bytes_to_with_deadline ::
  "'s write_fun \<Rightarrow> io_error + unit \<Rightarrow> nat \<Rightarrow> byte list \<Rightarrow> 's \<Rightarrow> (io_error + nat) \<times> 's" where
  "io_send_bytes_to_with_deadline wr addr deadline buf s =
     (case addr of Inl err \<Rightarrow> (Inl err, s) | Inr _ \<Rightarrow> wr (transfer None None (Some deadline) (length buf)) buf s)"

definition io_send_to_with_deadline ::
  "'s write_fun \<Rightarrow> io_error + unit \<Rightarrow> nat \<Rightarrow> byte list \<Rightarrow> 's \<Rightarrow> (io_error + nat) \<times> 's" where
  "io_send_to_with_deadline wr addr deadline buf s =
     io_send_bytes_to_with_deadline wr addr deadline buf s"

definition io_send_bytes_to_with_timeout ::
  "'s write_fun \<Rightarrow> nat \<Rightarrow> io_error + unit \<Rightarrow> nat \<Rightarrow> byte list \<Rightarrow> 's \<Rightarrow> (io_error + nat) \<times> 's" where
  "io_send_bytes_to_with_timeout wr now addr timeout buf s =
     (case addr of Inl err \<Rightarrow> (Inl err, s) | Inr _ \<Rightarrow> wr (transfer None None (Some (now + timeout)) (length buf)) buf s)"

definition io_send_to_with_timeout ::
  "'s write_fun \<Rightarrow> nat \<Rightarrow> io_error + unit \<Rightarrow> nat \<Rightarrow> byte list \<Rightarrow> 's \<Rightarrow> (io_error + nat) \<times> 's" where
  "io_send_to_with_timeout wr now addr timeout buf s =
     io_send_bytes_to_with_timeout wr now addr timeout buf s"

definition io_send_all_bytes_to ::
  "'s write_fun \<Rightarrow> io_error + unit \<Rightarrow> byte list \<Rightarrow> 's \<Rightarrow> ((io_error + nat) \<times> 's) option" where
  "io_send_all_bytes_to wr addr buf s =
     (case addr of Inl err \<Rightarrow> Some (Inl err, s) | Inr _ \<Rightarrow> drain_loop wr (\<lambda>i len. transfer None None None len) buf 0 s)"

definition io_send_all_to ::
  "'s write_fun \<Rightarrow> io_error + unit \<Rightarrow> byte list \<Rightarrow> 's \<Rightarrow> ((io_error + nat) \<times> 's) option" where
  "io_send_all_to wr addr buf s =
     io_send_all_bytes_to wr addr buf s"

definition io_send_all_bytes_to_with_deadline ::
  "'s write_fun \<Rightarrow> io_error + unit \<Rightarrow> nat \<Rightarrow> byte list \<Rightarrow> 's \<Rightarrow> ((io_error + nat) \<times> 's) option" where
  "io_send_all_bytes_to_with_deadline wr addr deadline buf s =
     (case addr of Inl err \<Rightarrow> Some (Inl err, s) | Inr _ \<Rightarrow> drain_loop wr (\<lambda>i len. transfer None None (Some deadline) len) buf 0 s)"

definition io_send_all_to_with_deadline ::
  "'s write_fun \<Rightarrow> io_error + unit \<Rightarrow> nat \<Rightarrow> byte list \<Rightarrow> 's \<Rightarrow> ((io_error + nat) \<times> 's) option" where
  "io_send_all_to_with_deadline wr addr deadline buf s =
     io_send_all_bytes_to_with_deadline wr addr deadline buf s"

definition io_send_all_bytes_to_with_timeout ::
  "'s write_fun \<Rightarrow> nat \<Rightarrow> io_error + unit \<Rightarrow> nat \<Rightarrow> byte list \<Rightarrow> 's \<Rightarrow> ((io_error + nat) \<times> 's) option" where
  "io_send_all_bytes_to_with_timeout wr now addr timeout buf s =
     io_send_all_bytes_to_with_deadline wr addr (now + timeout) buf s"

definition io_send_all_to_with_timeout ::
  "'s write_fun \<Rightarrow> nat \<Rightarrow> io_error + unit \<Rightarrow> nat \<Rightarrow> byte list \<Rightarrow> 's \<Rightarrow> ((io_error + nat) \<times> 's) option" where
  "io_send_all_to_with_timeout wr now addr timeout buf s =
     io_send_all_bytes_to_with_timeout wr now addr timeout buf s"

section \<open>Streams\<close>

text \<open>
  What a read from a file or a connection does: the bytes it stores are the next ones of the stream, at most as many as asked for,
  and at least one as long as the stream has bytes and the transfer has room. \<open>upcoming s\<close> are the bytes still to come.
\<close>

definition reads_stream :: "('s \<Rightarrow> byte list) \<Rightarrow> 's read_fun \<Rightarrow> bool" where
  "reads_stream upcoming rd \<longleftrightarrow>
     (\<forall>x s bs s'. rd x s = (Inr bs, s') \<longrightarrow>
        upcoming s = bs @ upcoming s' \<and> length bs \<le> tr_len x \<and> (tr_len x > 0 \<and> upcoming s \<noteq> [] \<longrightarrow> bs \<noteq> []))"

text \<open>A write takes a number of bytes from the front of what it is given, and at least one if there is one.\<close>

definition writes_stream :: "('s \<Rightarrow> byte list) \<Rightarrow> 's write_fun \<Rightarrow> bool" where
  "writes_stream written wr \<longleftrightarrow>
     (\<forall>x bs s n s'. wr x bs s = (Inr n, s') \<longrightarrow>
        n \<le> length bs \<and> written s' = written s @ take n bs \<and> (bs \<noteq> [] \<longrightarrow> n > 0))"

lemma length_store_at: "i + length bs \<le> length buf \<Longrightarrow> length (store_at i bs buf) = length buf"
  by (simp add: store_at_def)

lemma take_store_at: "i + length bs \<le> length buf \<Longrightarrow> take (i + length bs) (store_at i bs buf) = take i buf @ bs"
  by (simp add: store_at_def)

lemma fill_loop_stream:
  assumes "reads_stream upcoming rd" "\<And>i n. tr_len (req i n) = n"
  shows "i \<le> length buf \<Longrightarrow> length buf - i \<le> length (upcoming s) \<Longrightarrow>
    \<exists>r buf' s'. fill_loop rd req buf i s = Some (r, buf', s') \<and> length buf' = length buf \<and>
      (r = Inr () \<longrightarrow> buf' = take i buf @ take (length buf - i) (upcoming s) \<and> upcoming s' = drop (length buf - i) (upcoming s)) \<and>
      (\<forall>err. r = Inl err \<longrightarrow> (\<exists>x t t'. rd x t = (Inl err, t')))"
proof (induction "length buf - i" arbitrary: i buf s rule: less_induct)
  case less
  show ?case
  proof (cases "i < length buf")
    case False
    with less.prems show ?thesis by (auto simp: fill_loop.simps[of rd req buf "length buf"])
  next
    case True
    obtain o' s1 where o': "rd (req i (length buf - i)) s = (o', s1)" by fastforce
    show ?thesis
    proof (cases o')
      case (Inl err)
      with True o' show ?thesis by (auto simp: fill_loop.simps[of rd req buf i])
    next
      case (Inr bs)
      let ?b = "store_at i bs buf"
      have st: "upcoming s = bs @ upcoming s1" "length bs \<le> length buf - i" "bs \<noteq> []"
        using assms o' Inr True less.prems(2) unfolding reads_stream_def by fastforce+
      have l: "length ?b = length buf" "take (i + length bs) ?b = take i buf @ bs"
        using st(2) True by (simp_all add: length_store_at take_store_at)
      have "0 < length bs" using st(3) by simp
      then have "length ?b - (i + length bs) < length buf - i" "i + length bs \<le> length ?b"
        "length ?b - (i + length bs) \<le> length (upcoming s1)"
        unfolding l(1) using st(1,2) True less.prems(2) by (linarith, linarith, simp)
      from less.hyps[OF this] st l True show ?thesis
        by (auto simp: fill_loop.simps[of rd req buf i] o' Inr)
    qed
  qed
qed

lemma drain_loop_stream:
  assumes "writes_stream written wr"
  shows "i \<le> length buf \<Longrightarrow> \<exists>r s'. drain_loop wr req buf i s = Some (r, s') \<and>
    (r = Inr (length buf) \<and> written s' = written s @ drop i buf \<or>
     (\<exists>err x bs t t'. r = Inl err \<and> wr x bs t = (Inl err, t')))"
proof (induction "length buf - i" arbitrary: i s rule: less_induct)
  case less
  show ?case
  proof (cases "i < length buf")
    case False
    with less.prems show ?thesis by (auto simp: drain_loop.simps[of wr req buf "length buf"])
  next
    case True
    obtain o' s1 where o': "wr (req i (length buf - i)) (drop i buf) s = (o', s1)" by fastforce
    show ?thesis
    proof (cases o')
      case (Inl err)
      with True o' show ?thesis by (auto simp: drain_loop.simps[of wr req buf i])
    next
      case (Inr n)
      have n: "n \<le> length buf - i" "written s1 = written s @ take n (drop i buf)" "n > 0"
        using assms o' Inr True unfolding writes_stream_def by fastforce+
      have "take n (drop i buf) @ drop (i + n) buf = drop i buf"
        by (metis add.commute append_take_drop_id drop_drop)
      moreover have "length buf - (i + n) < length buf - i" "i + n \<le> length buf" using n True by auto
      note less.hyps[OF this, of s1]
      ultimately show ?thesis using n True by (auto simp: drain_loop.simps[of wr req buf i] o' Inr)
    qed
  qed
qed

lemma transfer_len [simp]: "tr_len (transfer f off d n) = n"
  by (simp add: transfer_def)

lemma fill_loop_returns:
  assumes "fill_loop rd req buf i s = Some r"
  shows "(\<forall>x. rd x s = (Inr [], s)) \<longrightarrow> \<not> i < length buf"
proof (rule fill_loop.raw_induct[where P = "\<lambda>rd req buf i s r. (\<forall>x. rd x s = (Inr [], s)) \<longrightarrow> \<not> i < length buf", OF _ assms])
  fix loop and rd' :: "'a read_fun" and req' buf' i' s' r'
  assume IH: "\<And>req buf i s b y. loop req buf i s b = Some y \<Longrightarrow> (\<forall>x. req x b = (Inr [], b)) \<longrightarrow> \<not> s < length i"
    and body: "(if i' < length buf' then case rd' (req' i' (length buf' - i')) s' of (Inl err, t) \<Rightarrow> Some (Inl err, buf', t)
        | (Inr bs, t) \<Rightarrow> loop rd' req' (store_at i' bs buf') (i' + length bs) t else Some (Inr (), buf', s')) = Some r'"
  show "(\<forall>x. rd' x s' = (Inr [], s')) \<longrightarrow> \<not> i' < length buf'"
  proof
    assume e: "\<forall>x. rd' x s' = (Inr [], s')"
    show "\<not> i' < length buf'"
    proof
      assume "i' < length buf'"
      with body e have "loop rd' req' buf' i' s' = Some r'" by (simp add: store_at_def)
      with IH e \<open>i' < length buf'\<close> show False by blast
    qed
  qed
qed

lemma fill_loop_stuck:
  assumes "\<forall>x. rd x s = (Inr [], s)" "i < length buf" shows "fill_loop rd req buf i s = None"
proof (cases "fill_loop rd req buf i s")
  case (Some r)
  from fill_loop_returns[OF this] assms show ?thesis by blast
qed

section \<open>Properties\<close>

text \<open>
  C17. \<open>read_exact\<close> and \<open>recv_exact\<close>, on fixed and other buffers, return if the stream has enough bytes. They fail only with the error of a
  transfer; otherwise the buffer holds exactly the next bytes of the stream in order, however they were split over transfers, and no byte after
  them is consumed.
\<close>

theorem read_exact_fills_buffer:
  assumes "reads_stream upcoming rd" and "length buf \<le> length (upcoming s)"
    and "method = io_read_exact rd fixed buf s \<or> method = io_recv_exact rd fixed buf s \<or>
      method = io_recv_exact_with_deadline rd fixed deadline buf s"
  shows "\<exists>r buf' s'. method = Some (r, buf', s') \<and> length buf' = length buf \<and>
    (r = Inr () \<longrightarrow> buf' = take (length buf) (upcoming s) \<and> upcoming s' = drop (length buf) (upcoming s)) \<and>
    (\<forall>err. r = Inl err \<longrightarrow> (\<exists>x t t'. rd x t = (Inl err, t')))"
proof -
  have "\<exists>r buf' s'. fill_loop rd (\<lambda>i len. transfer fx None d len) buf 0 s = Some (r, buf', s') \<and> length buf' = length buf \<and>
    (r = Inr () \<longrightarrow> buf' = take (length buf) (upcoming s) \<and> upcoming s' = drop (length buf) (upcoming s)) \<and>
    (\<forall>err. r = Inl err \<longrightarrow> (\<exists>x t t'. rd x t = (Inl err, t')))" for fx d
    using fill_loop_stream[OF assms(1), of "\<lambda>i len. transfer fx None d len" 0 buf s] assms(2) by simp
  with assms(3) show ?thesis
    by (cases fixed) (auto simp: io_read_exact_def io_recv_exact_def io_recv_exact_with_deadline_def)
qed

text \<open>A file of which each transfer reads or writes at most two bytes.\<close>

definition two_by_two :: "byte list read_fun" where
  "two_by_two x s = (Inr (take (min 2 (tr_len x)) s), drop (min 2 (tr_len x)) s)"

definition pairwise :: "byte list write_fun" where
  "pairwise x bs s = (Inr (min 2 (length bs)), s @ take 2 bs)"

theorem read_exact_fills_buffer_witness:
  "io_read_exact two_by_two None [0, 0, 0] [1, 2, 3, 4] = Some (Inr (), [1, 2, 3], [4])"
proof -
  have "reads_stream id two_by_two" by (auto simp: reads_stream_def two_by_two_def)
  from read_exact_fills_buffer[OF this, of "[0, 0, 0]" "[1, 2, 3, 4]"
      "io_read_exact two_by_two None [0, 0, 0] [1, 2, 3, 4]" None 0]
  obtain r buf' s' where r: "io_read_exact two_by_two None [0, 0, 0] [1, 2, 3, 4] = Some (r, buf', s')"
    "r = Inr () \<longrightarrow> buf' = [1, 2, 3] \<and> s' = [4]" "\<forall>err. r = Inl err \<longrightarrow> (\<exists>x t t'. two_by_two x t = (Inl err, t'))"
    by auto
  moreover from r(3) have "r = Inr ()" by (cases r) (auto simp: two_by_two_def)
  ultimately show ?thesis by simp
qed

text \<open>
  C18. \<open>write_all\<close> and \<open>send_all\<close>, on fixed and other buffers, always return. They fail only with the error of a transfer; otherwise the whole
  buffer has been written in order, exactly once. \<open>send_all_to\<close> in addition reports the length of the buffer.
\<close>

theorem write_all_writes_buffer:
  assumes "writes_stream written wr"
  shows "(\<exists>r s'. io_write_all wr fixed buf s = Some (r, s') \<and>
       (r = Inr () \<and> written s' = written s @ buf \<or> (\<exists>err x bs t t'. r = Inl err \<and> wr x bs t = (Inl err, t')))) \<and>
    (\<exists>r s'. io_send_all wr fixed buf s = Some (r, s') \<and>
       (r = Inr () \<and> written s' = written s @ buf \<or> (\<exists>err x bs t t'. r = Inl err \<and> wr x bs t = (Inl err, t')))) \<and>
    (\<exists>r s'. io_send_all_to wr (Inr ()) buf s = Some (r, s') \<and>
       (r = Inr (length buf) \<and> written s' = written s @ buf \<or> (\<exists>err x bs t t'. r = Inl err \<and> wr x bs t = (Inl err, t'))))"
proof -
  have loop: "\<exists>r s'. drain_loop wr (\<lambda>i len. transfer fx None None len) buf 0 s = Some (r, s') \<and>
    (r = Inr (length buf) \<and> written s' = written s @ buf \<or> (\<exists>err x bs t t'. r = Inl err \<and> wr x bs t = (Inl err, t')))" for fx
    using drain_loop_stream[OF assms, of 0 buf "\<lambda>i len. transfer fx None None len" s] by simp
  have unit: "\<exists>r s'. unit_result (drain_loop wr (\<lambda>i len. transfer fx None None len) buf 0 s) = Some (r, s') \<and>
    (r = Inr () \<and> written s' = written s @ buf \<or> (\<exists>err x bs t t'. r = Inl err \<and> wr x bs t = (Inl err, t')))" for fx
    using loop[of fx] by (fastforce simp: unit_result_def)
  show ?thesis using loop[of None] unit
    by (cases fixed) (simp_all add: io_write_all_def io_send_all_def io_send_all_to_def io_send_all_bytes_to_def)
qed

theorem write_all_writes_buffer_witness:
  "\<exists>s'. io_write_all pairwise (Some 4) [1, 2, 3] [9] = Some (Inr (), s') \<and> s' = [9, 1, 2, 3]"
proof -
  have "writes_stream id pairwise" by (auto simp: writes_stream_def pairwise_def min_def)
  from write_all_writes_buffer[OF this, of "Some 4" "[1, 2, 3]" "[9]"] show ?thesis by (simp add: pairwise_def)
qed

text \<open>
  C37. At the end of a file or of a connection, where transfers succeed with no bytes, the methods that fill a buffer do not return, for any
  buffer that is not empty. The documentation of those that read files promises an error.
\<close>

theorem read_exact_end_of_file_hangs:
  assumes "\<And>x. rd x s = (Inr [], s)" and "buf \<noteq> []"
  shows "io_read_exact rd fixed buf s = None \<and> io_read_bytes_exact rd buf s = None \<and>
    io_pread_exact rd fixed offset buf s = None \<and> io_recv_exact rd fixed buf s = None \<and> io_recv_bytes_exact rd buf s = None"
  using fill_loop_stuck[of rd s 0 buf] assms
  by (cases fixed) (simp_all add: io_read_exact_def io_read_bytes_exact_def io_pread_exact_def io_recv_exact_def io_recv_bytes_exact_def)

theorem read_exact_end_of_file_hangs_witness:
  "io_read_exact two_by_two None [0, 0, 0] [] = None"
  using read_exact_end_of_file_hangs[of two_by_two "[]" "[0, 0, 0]" None 0] by (simp add: two_by_two_def)

text \<open>
  \<open>peek_exact\<close> repeats what it already has: a peek does not consume, so if fewer bytes are available than the buffer
  takes, each further peek returns the same bytes. With half of the buffer available, the buffer ends up with these bytes twice
  and the method reports success.
\<close>

theorem peek_exact_repeats_bytes:
  assumes "\<And>x. rd x s = (Inr (take (tr_len x) available), s)"
    and "available \<noteq> []" and "length buf = 2 * length available"
  shows "io_peek_exact rd fixed buf s = Some (Inr (), available @ available, s) \<and>
    io_peek_bytes_exact rd buf s = Some (Inr (), available @ available, s)"
proof -
  let ?n = "length available"
  have "fill_loop rd (\<lambda>i len. transfer fx None None len) buf 0 s = Some (Inr (), available @ available, s)" for fx
  proof -
    let ?L = "fill_loop rd (\<lambda>i len. transfer fx None None len)"
    have n: "0 < ?n" using assms(2) by simp
    have "?L buf 0 s = ?L (store_at 0 available buf) ?n s"
      using assms(3) n by (subst fill_loop.simps) (simp add: assms(1))
    also have "\<dots> = ?L (available @ available) (2 * ?n) s"
      using assms(3) n by (subst fill_loop.simps) (simp add: assms(1) store_at_def mult_2)
    also have "\<dots> = Some (Inr (), available @ available, s)" by (subst fill_loop.simps) simp
    finally show ?thesis .
  qed
  then show ?thesis by (cases fixed) (simp_all add: io_peek_exact_def io_peek_bytes_exact_def)
qed

theorem peek_exact_repeats_bytes_witness:
  "io_peek_exact (\<lambda>x s. (Inr (take (tr_len x) s), s)) None [0, 0, 0, 0] [1, 2] = Some (Inr (), [1, 2, 1, 2], [1, 2])"
  using peek_exact_repeats_bytes[of "\<lambda>x s. (Inr (take (tr_len x) s), s)" "[1, 2]" "[1, 2]" "[0, 0, 0, 0]" None] by simp

end
