(* ===== verification/Local_Cell.thy ===== *)
theory Local_Cell
  imports Transition_Systems
begin

text \<open>
  \<open>Local\<close> (\<open>src/src/local.rs\<close>): a counted pointer for the tasks of one executor, with the borrow checks of builds with
  debug assertions.
\<close>

section \<open>The pointer\<close>

datatype borrowing_state = BorrowNone | BorrowShared nat | BorrowExclusive

record 'v local_inner =
  li_counter :: nat
  li_data :: "'v option"
  li_borrowing_state :: borrowing_state
  li_parent_executor_id :: nat

text \<open>\<open>li_data\<close> is \<open>None\<close> once the memory is deallocated; then every access is undefined. \<open>ex\<close> is the executor of the thread.\<close>

definition local_new :: "nat \<Rightarrow> 'v \<Rightarrow> 'v local_inner" where
  "local_new ex data =
     \<lparr>li_counter = 1, li_data = Some data, li_borrowing_state = BorrowNone, li_parent_executor_id = ex\<rparr>"

definition debug_check_parent_executor_id :: "bool \<Rightarrow> nat \<Rightarrow> 'v local_inner \<Rightarrow> 'v local_inner res" where
  "debug_check_parent_executor_id dbg ex l = (if dbg \<and> li_parent_executor_id l \<noteq> ex then Inl Asserted else Inr l)"

definition live_inner :: "'v local_inner \<Rightarrow> 'v local_inner res" where
  "live_inner l = (if li_data l = None then Inl Undefined else Inr l)"

definition local_inc_counter :: "bool \<Rightarrow> nat \<Rightarrow> 'v local_inner \<Rightarrow> 'v local_inner res" where
  "local_inc_counter dbg ex l =
     bindR (debug_check_parent_executor_id dbg ex l) (\<lambda>_. bindR (live_inner l) (\<lambda>_.
     bindR (usize_add dbg (li_counter l) 1) (\<lambda>n. Inr (l\<lparr>li_counter := n\<rparr>))))"

definition local_dec_counter :: "bool \<Rightarrow> nat \<Rightarrow> 'v local_inner \<Rightarrow> (nat \<times> 'v local_inner) res" where
  "local_dec_counter dbg ex l =
     bindR (debug_check_parent_executor_id dbg ex l) (\<lambda>_. bindR (live_inner l) (\<lambda>_.
     bindR (usize_sub dbg (li_counter l) 1) (\<lambda>n. Inr (n, l\<lparr>li_counter := n\<rparr>))))"

definition local_borrow :: "bool \<Rightarrow> nat \<Rightarrow> 'v local_inner \<Rightarrow> 'v local_inner res" where
  "local_borrow dbg ex l =
     bindR (debug_check_parent_executor_id dbg ex l) (\<lambda>_. bindR (live_inner l) (\<lambda>_.
       if \<not> dbg then Inr l
       else (case li_borrowing_state l of
               BorrowNone \<Rightarrow> Inr (l\<lparr>li_borrowing_state := BorrowShared 1\<rparr>)
             | BorrowShared n \<Rightarrow> bindR (usize_add dbg n 1) (\<lambda>n'. Inr (l\<lparr>li_borrowing_state := BorrowShared n'\<rparr>))
             | BorrowExclusive \<Rightarrow> Inl Asserted)))"

definition local_borrow_mut :: "bool \<Rightarrow> nat \<Rightarrow> 'v local_inner \<Rightarrow> 'v local_inner res" where
  "local_borrow_mut dbg ex l =
     bindR (debug_check_parent_executor_id dbg ex l) (\<lambda>_. bindR (live_inner l) (\<lambda>_.
       if \<not> dbg then Inr l
       else (case li_borrowing_state l of
               BorrowNone \<Rightarrow> Inr (l\<lparr>li_borrowing_state := BorrowExclusive\<rparr>)
             | BorrowShared _ \<Rightarrow> Inl Asserted
             | BorrowExclusive \<Rightarrow> Inl Asserted)))"

definition local_ref_drop :: "bool \<Rightarrow> 'v local_inner \<Rightarrow> 'v local_inner res" where
  "local_ref_drop dbg l =
     (if \<not> dbg then Inr l
      else bindR (live_inner l) (\<lambda>_.
        case li_borrowing_state l of
          BorrowShared n \<Rightarrow>
            if n = 1 then Inr (l\<lparr>li_borrowing_state := BorrowNone\<rparr>)
            else bindR (usize_sub dbg n 1) (\<lambda>n'. Inr (l\<lparr>li_borrowing_state := BorrowShared n'\<rparr>))
        | _ \<Rightarrow> Inl Asserted))"

definition local_ref_mut_drop :: "bool \<Rightarrow> 'v local_inner \<Rightarrow> 'v local_inner res" where
  "local_ref_mut_drop dbg l =
     (if \<not> dbg then Inr l
      else bindR (live_inner l) (\<lambda>_.
        case li_borrowing_state l of
          BorrowExclusive \<Rightarrow> Inr (l\<lparr>li_borrowing_state := BorrowNone\<rparr>)
        | _ \<Rightarrow> Inl Asserted))"

definition local_clone :: "bool \<Rightarrow> nat \<Rightarrow> 'v local_inner \<Rightarrow> 'v local_inner res" where
  "local_clone dbg ex l = local_inc_counter dbg ex l"

definition local_drop :: "bool \<Rightarrow> nat \<Rightarrow> 'v local_inner \<Rightarrow> 'v local_inner res" where
  "local_drop dbg ex l =
     bindR (debug_check_parent_executor_id dbg ex l) (\<lambda>_.
     bindR (local_dec_counter dbg ex l) (\<lambda>(n, l').
       Inr (if n = 0 then l'\<lparr>li_data := None\<rparr> else l')))"

section \<open>Histories\<close>

text \<open>
  The program holds a number of handles and of references. A reference borrows a handle, so the last handle is
  dropped only without references; an operation needs a handle, the end of a reference that reference. Every operation comes with the
  executor whose thread makes it. A report says which operation panicked; a handle whose drop panicked still counts.
\<close>

datatype local_op = LBorrow | LBorrowMut | LDropRef | LDropRefMut | LClone | LDrop

record 'v local_world =
  lw_inner :: "'v local_inner"
  lw_handles :: nat
  lw_shared :: nat
  lw_exclusive :: nat

fun local_step :: "bool \<Rightarrow> nat \<times> local_op \<Rightarrow> 'v local_world \<Rightarrow> panic option \<times> 'v local_world" where
  "local_step dbg (ex, LBorrow) w = (case local_borrow dbg ex (lw_inner w) of
     Inl p \<Rightarrow> (Some p, w) | Inr l \<Rightarrow> (None, w\<lparr>lw_inner := l, lw_shared := lw_shared w + 1\<rparr>))"
| "local_step dbg (ex, LBorrowMut) w = (case local_borrow_mut dbg ex (lw_inner w) of
     Inl p \<Rightarrow> (Some p, w) | Inr l \<Rightarrow> (None, w\<lparr>lw_inner := l, lw_exclusive := lw_exclusive w + 1\<rparr>))"
| "local_step dbg (ex, LDropRef) w = (case local_ref_drop dbg (lw_inner w) of
     Inl p \<Rightarrow> (Some p, w) | Inr l \<Rightarrow> (None, w\<lparr>lw_inner := l, lw_shared := lw_shared w - 1\<rparr>))"
| "local_step dbg (ex, LDropRefMut) w = (case local_ref_mut_drop dbg (lw_inner w) of
     Inl p \<Rightarrow> (Some p, w) | Inr l \<Rightarrow> (None, w\<lparr>lw_inner := l, lw_exclusive := lw_exclusive w - 1\<rparr>))"
| "local_step dbg (ex, LClone) w = (case local_clone dbg ex (lw_inner w) of
     Inl p \<Rightarrow> (Some p, w) | Inr l \<Rightarrow> (None, w\<lparr>lw_inner := l, lw_handles := lw_handles w + 1\<rparr>))"
| "local_step dbg (ex, LDrop) w = (case local_drop dbg ex (lw_inner w) of
     Inl p \<Rightarrow> (Some p, w) | Inr l \<Rightarrow> (None, w\<lparr>lw_inner := l, lw_handles := lw_handles w - 1\<rparr>))"

fun local_ok :: "nat \<times> local_op \<Rightarrow> 'v local_world \<Rightarrow> bool" where
  "local_ok (ex, LBorrow) w \<longleftrightarrow> lw_handles w > 0 \<and> lw_shared w < usize_max"
| "local_ok (ex, LBorrowMut) w \<longleftrightarrow> lw_handles w > 0"
| "local_ok (ex, LDropRef) w \<longleftrightarrow> lw_shared w > 0"
| "local_ok (ex, LDropRefMut) w \<longleftrightarrow> lw_exclusive w > 0"
| "local_ok (ex, LClone) w \<longleftrightarrow> lw_handles w > 0 \<and> lw_handles w < usize_max"
| "local_ok (ex, LDrop) w \<longleftrightarrow> lw_handles w > 0 \<and> (lw_handles w = 1 \<longrightarrow> lw_shared w = 0 \<and> lw_exclusive w = 0)"

definition local_inv :: "bool \<Rightarrow> nat \<Rightarrow> 'v \<Rightarrow> 'v local_world \<Rightarrow> bool" where
  "local_inv dbg home v w \<longleftrightarrow>
     li_parent_executor_id (lw_inner w) = home \<and> li_counter (lw_inner w) = lw_handles w \<and>
     li_data (lw_inner w) = (if lw_handles w = 0 then None else Some v) \<and>
     (lw_handles w = 0 \<longrightarrow> lw_shared w = 0 \<and> lw_exclusive w = 0) \<and>
     (dbg \<longrightarrow> (case li_borrowing_state (lw_inner w) of
        BorrowNone \<Rightarrow> lw_shared w = 0 \<and> lw_exclusive w = 0
      | BorrowShared n \<Rightarrow> n > 0 \<and> lw_shared w = n \<and> lw_exclusive w = 0
      | BorrowExclusive \<Rightarrow> lw_shared w = 0 \<and> lw_exclusive w = 1))"

lemmas local_defs = local_borrow_def local_borrow_mut_def local_ref_drop_def local_ref_mut_drop_def local_clone_def
  local_drop_def local_inc_counter_def local_dec_counter_def debug_check_parent_executor_id_def live_inner_def

lemma local_step_inv:
  assumes "local_inv dbg home v w" "local_ok p w" "local_step dbg p w = (r, w')"
  shows "local_inv dbg home v w'"
  using assms
  by (cases p; cases "snd p"; cases dbg; cases "li_borrowing_state (lw_inner w)")
     (auto simp: local_inv_def local_defs split: if_splits)

text \<open>
  What a debug build refuses: a borrow that conflicts with a living reference, and an operation on a handle by the thread of another executor.
\<close>

fun conflict :: "nat \<Rightarrow> nat \<times> local_op \<Rightarrow> 'v local_world \<Rightarrow> bool" where
  "conflict home (ex, p) w \<longleftrightarrow> ex \<noteq> home \<and> p \<notin> {LDropRef, LDropRefMut} \<or>
     p = LBorrow \<and> lw_exclusive w > 0 \<or> p = LBorrowMut \<and> lw_shared w + lw_exclusive w > 0"

lemma local_step_panics:
  assumes "local_inv dbg home v w" "local_ok p w" "local_step dbg p w = (r, w')"
  shows "r = (if dbg \<and> conflict home p w then Some Asserted else None)"
  using assms
  by (cases p; cases "snd p"; cases dbg; cases "li_borrowing_state (lw_inner w)")
     (auto simp: local_inv_def local_defs split: if_splits)

interpretation loc: op_system "local_step dbg" local_ok "local_inv dbg home v"
  by unfold_locales (rule local_step_inv)

definition local_world_new :: "nat \<Rightarrow> 'v \<Rightarrow> 'v local_world" where
  "local_world_new ex v = \<lparr>lw_inner = local_new ex v, lw_handles = 1, lw_shared = 0, lw_exclusive = 0\<rparr>"

text \<open>
  C36. In a debug and in a release build, after any history of clones, drops, borrows and ends of borrows of a \<open>Local\<close>, made one after the other by the
  threads of any executors, the counter is the number of handles and the data lives exactly as long as a handle does. With debug
  assertions, besides, an exclusive reference excludes every other one, and a further operation panics exactly if it is a borrow that conflicts with a
  living reference or an operation on a handle by another executor than that of the \<open>Local\<close>. Without them no operation panics, and nothing excludes conflicting references.
  There are fewer than \<open>2 ^ 64\<close> handles and shared references, and the last handle is dropped only without references.
\<close>

theorem local_borrow_rules:
  assumes "oks local_ok (local_step dbg) ps (local_world_new home v)"
    and "run_ops (local_step dbg) ps (local_world_new home v) = (rs, w)" and "local_ok p w"
  shows "li_counter (lw_inner w) = lw_handles w \<and> (li_data (lw_inner w) = (if lw_handles w = 0 then None else Some v)) \<and>
    (dbg \<longrightarrow> lw_exclusive w \<le> 1 \<and> (lw_exclusive w = 1 \<longrightarrow> lw_shared w = 0)) \<and>
    fst (local_step dbg p w) = (if dbg \<and> conflict home p w then Some Asserted else None)"
proof -
  have "local_inv dbg home v (local_world_new home v)" by (simp add: local_inv_def local_world_new_def local_new_def)
  then have i: "local_inv dbg home v w" by (rule loc.run_inv[OF _ assms(1,2)])
  obtain r w' where st: "local_step dbg p w = (r, w')" by (cases "local_step dbg p w")
  from i local_step_panics[OF i assms(3) st] st show ?thesis
    by (auto simp: local_inv_def split: borrowing_state.splits)
qed

theorem local_borrow_rules_witness:
  "\<exists>rs w. run_ops (local_step True) [(7, LClone), (7, LBorrow), (8, LClone), (7, LBorrow)] (local_world_new 7 (5 :: nat)) = (rs, w) \<and>
     rs = [None, None, Some Asserted, None] \<and> li_counter (lw_inner w) = 2 \<and> fst (local_step True (7, LBorrowMut) w) = Some Asserted"
proof -
  let ?ps = "[(7, LClone), (7, LBorrow), (8, LClone), (7, LBorrow)]"
  obtain rs w where r: "run_ops (local_step True) ?ps (local_world_new 7 (5 :: nat)) = (rs, w)" by fastforce
  have ok: "oks local_ok (local_step True) ?ps (local_world_new 7 (5 :: nat))"
    by (simp add: local_world_new_def local_new_def local_defs usize_max_def)
  have "lw_handles w = 2" "lw_shared w = 2" "rs = [None, None, Some Asserted, None]"
    using r by (auto simp: local_world_new_def local_new_def local_defs usize_max_def)
  with local_borrow_rules[OF ok r, of "(7, LBorrowMut)"] r show ?thesis by simp
qed

end
