(* ===== verification/Fs_Options.thy ===== *)
theory Fs_Options
  imports Orengine_Prelude "HOL-Library.Word"
begin

unbundle bit_operations_syntax

text \<open>
  The parts of \<open>src/src/fs\<close> that compute: \<open>open_options.rs\<close> on Linux and \<open>dir_builder.rs\<close>. System calls are arguments.
\<close>

section \<open>Options of a file\<close>

text \<open>The flags of Linux on x86-64.\<close>

definition O_RDONLY :: "32 word" where "O_RDONLY = 0"
definition O_WRONLY :: "32 word" where "O_WRONLY = 1"
definition O_RDWR :: "32 word" where "O_RDWR = 2"
definition O_ACCMODE :: "32 word" where "O_ACCMODE = 3"
definition O_CREAT :: "32 word" where "O_CREAT = 0x40"
definition O_EXCL :: "32 word" where "O_EXCL = 0x80"
definition O_TRUNC :: "32 word" where "O_TRUNC = 0x200"
definition O_APPEND :: "32 word" where "O_APPEND = 0x400"
definition O_CLOEXEC :: "32 word" where "O_CLOEXEC = 0x80000"

record open_options =
  oo_read :: bool
  oo_write :: bool
  oo_append :: bool
  oo_truncate :: bool
  oo_create :: bool
  oo_create_new :: bool
  oo_custom_flags :: "32 word"
  oo_mode :: "32 word"

definition open_options_new :: open_options where
  "open_options_new = \<lparr>oo_read = False, oo_write = False, oo_append = False, oo_truncate = False, oo_create = False,
     oo_create_new = False, oo_custom_flags = 0, oo_mode = 438\<rparr>"

definition open_options_read :: "bool \<Rightarrow> open_options \<Rightarrow> open_options" where
  "open_options_read b opts = opts\<lparr>oo_read := b\<rparr>"

definition open_options_write :: "bool \<Rightarrow> open_options \<Rightarrow> open_options" where
  "open_options_write b opts = opts\<lparr>oo_write := b\<rparr>"

definition open_options_append :: "bool \<Rightarrow> open_options \<Rightarrow> open_options" where
  "open_options_append b opts = opts\<lparr>oo_append := b\<rparr>"

definition open_options_truncate :: "bool \<Rightarrow> open_options \<Rightarrow> open_options" where
  "open_options_truncate b opts = opts\<lparr>oo_truncate := b\<rparr>"

definition open_options_create :: "bool \<Rightarrow> open_options \<Rightarrow> open_options" where
  "open_options_create b opts = opts\<lparr>oo_create := b\<rparr>"

definition open_options_create_new :: "bool \<Rightarrow> open_options \<Rightarrow> open_options" where
  "open_options_create_new b opts = opts\<lparr>oo_create_new := b\<rparr>"

definition open_options_custom_flags :: "32 word \<Rightarrow> open_options \<Rightarrow> open_options" where
  "open_options_custom_flags flags opts = opts\<lparr>oo_custom_flags := flags\<rparr>"

definition open_options_mode :: "32 word \<Rightarrow> open_options \<Rightarrow> open_options" where
  "open_options_mode mode opts = opts\<lparr>oo_mode := mode\<rparr>"

text \<open>The result is an error number or the flags and the mode of \<open>openat2\<close>. The flags are a signed number, which is extended.\<close>

definition EINVAL :: nat where "EINVAL = 22"

definition into_os_options :: "open_options \<Rightarrow> nat + 64 word \<times> 64 word" where
  "into_os_options opts =
     (case (case (oo_read opts, oo_write opts, oo_append opts) of
              (True, False, False) \<Rightarrow> Some O_RDONLY
            | (False, True, False) \<Rightarrow> Some O_WRONLY
            | (True, True, False) \<Rightarrow> Some O_RDWR
            | (False, _, True) \<Rightarrow> Some (O_WRONLY OR O_APPEND)
            | (True, _, True) \<Rightarrow> Some (O_RDWR OR O_APPEND)
            | (False, False, False) \<Rightarrow> None) of
        None \<Rightarrow> Inl EINVAL
      | Some access_mode \<Rightarrow>
          (case (case (oo_create opts, oo_truncate opts, oo_create_new opts) of
                   (False, False, False) \<Rightarrow> (0, 0)
                 | (False, True, False) \<Rightarrow> (0, O_TRUNC)
                 | (True, False, False) \<Rightarrow> (oo_mode opts, O_CREAT)
                 | (True, True, False) \<Rightarrow> (oo_mode opts, O_CREAT OR O_TRUNC)
                 | (_, _, True) \<Rightarrow> (oo_mode opts, O_CREAT OR O_EXCL)) of
             (mode, creation_flags) \<Rightarrow>
               Inr (scast (O_CLOEXEC OR access_mode OR creation_flags OR (oo_custom_flags opts AND NOT O_ACCMODE)),
                    ucast mode)))"

section \<open>Directories\<close>

text \<open>
  Paths are lists of bytes that are valid text, so that \<open>to_string_lossy\<close> keeps them. \<open>get_offset\<close> looks for the separator before
  the last one found; an index below zero panics, in a release build by the bounds check.
\<close>

type_synonym path = "8 word list"

definition DOT :: "8 word" where "DOT = 46"
definition COLON :: "8 word" where "COLON = 58"
definition SEPARATOR :: "8 word" where "SEPARATOR = 47"

datatype dir_error = NotFound | InvalidData | InvalidInput | OtherDirError nat

record dir_builder =
  db_mode :: "32 word"
  db_recursive :: bool

definition dir_builder_new :: dir_builder where
  "dir_builder_new = \<lparr>db_mode = 438, db_recursive = False\<rparr>"

definition dir_builder_recursive :: "bool \<Rightarrow> dir_builder \<Rightarrow> dir_builder" where
  "dir_builder_recursive r b = b\<lparr>db_recursive := r\<rparr>"

definition dir_builder_mode :: "32 word \<Rightarrow> dir_builder \<Rightarrow> dir_builder" where
  "dir_builder_mode mode b = b\<lparr>db_mode := mode\<rparr>"

definition stops_at :: "path \<Rightarrow> nat \<Rightarrow> bool" where
  "stops_at bytes i \<longleftrightarrow>
     (i = 1 \<or> bytes ! i = DOT \<or> bytes ! i = COLON) \<and>
     (bytes ! i = DOT \<longrightarrow> i + 1 = length bytes \<or> bytes ! (i + 1) = SEPARATOR)"

fun get_offset_loop :: "bool \<Rightarrow> path \<Rightarrow> nat \<Rightarrow> nat option res" where
  "get_offset_loop dbg bytes 0 =
     (if bytes = [] then Inl Asserted
      else if stops_at bytes 0 then Inr None
      else if bytes ! 0 = SEPARATOR then Inr (Some 0)
      else Inl (if dbg then Overflow else Asserted))"
| "get_offset_loop dbg bytes (Suc i) =
     (if length bytes \<le> Suc i then Inl Asserted
      else if stops_at bytes (Suc i) then Inr None
      else if bytes ! Suc i = SEPARATOR then Inr (Some (Suc i))
      else get_offset_loop dbg bytes i)"

definition get_offset :: "bool \<Rightarrow> nat list \<Rightarrow> path \<Rightarrow> (nat option \<times> nat list) res" where
  "get_offset dbg offsets path =
     bindR (if offsets = [] then usize_sub dbg (length path) 1 else usize_sub dbg (last offsets) 1) (\<lambda>path_index.
     bindR (get_offset_loop dbg path path_index) (\<lambda>r.
       Inr (case r of None \<Rightarrow> (None, offsets) | Some i \<Rightarrow> (Some i, offsets @ [i]))))"

definition get_os_path :: "path \<Rightarrow> dir_error + path" where
  "get_os_path path = (if 0 \<in> set path then Inl InvalidInput else Inr path)"

text \<open>\<open>mkdir\<close> is the request for one directory, \<open>is_dir\<close> the test of a path, \<open>'s\<close> the file system.\<close>

type_synonym 's mkdir_fun = "path \<Rightarrow> 32 word \<Rightarrow> 's \<Rightarrow> (dir_error + unit) \<times> 's"

text \<open>
  One turn of the loop: it returns, or goes on with another path, mode and stack of offsets.
\<close>

datatype dir_turn = Return "(dir_error + unit) res" | Continue path "32 word" "nat list"

definition create_dir_all_turn ::
  "bool \<Rightarrow> 's mkdir_fun \<Rightarrow> (path \<Rightarrow> 's \<Rightarrow> bool) \<Rightarrow> path \<Rightarrow> 32 word \<Rightarrow> path \<Rightarrow> 32 word \<Rightarrow> nat list \<Rightarrow> 's \<Rightarrow> dir_turn \<times> 's" where
  "create_dir_all_turn dbg mkdir is_dir path mode tmp_path tmp_mode path_stack s =
     (case get_os_path tmp_path of
        Inl err \<Rightarrow> (Return (Inr (Inl err)), s)
      | Inr os_path \<Rightarrow>
          (case mkdir os_path tmp_mode s of
             (Inr _, s') \<Rightarrow>
               if path_stack = [] then (Return (Inr (Inr ())), s')
               else if length path_stack = 1 then (Continue path mode [], s')
               else (Continue (take (last (butlast path_stack)) path) tmp_mode (butlast path_stack), s')
           | (Inl err, s') \<Rightarrow>
               if err = NotFound then
                 (case get_offset dbg path_stack path of
                    Inl p \<Rightarrow> (Return (Inl p), s')
                  | Inr (None, _) \<Rightarrow> (Return (Inr (Inl InvalidData)), s')
                  | Inr (Some offset, stack) \<Rightarrow> (Continue (take offset path) 511 stack, s'))
               else if is_dir path s' then
                 if path_stack = [] then (Return (Inr (Inr ())), s') else (Continue tmp_path tmp_mode path_stack, s')
               else (Return (Inr (Inl err)), s')))"

partial_function (option) create_dir_all_loop ::
  "(path \<Rightarrow> 32 word \<Rightarrow> nat list \<Rightarrow> 's \<Rightarrow> dir_turn \<times> 's) \<Rightarrow> path \<Rightarrow> 32 word \<Rightarrow> nat list \<Rightarrow> 's \<Rightarrow>
   ((dir_error + unit) res \<times> 's) option" where
  "create_dir_all_loop turn tmp_path tmp_mode path_stack s =
     (case turn tmp_path tmp_mode path_stack s of (t, s') \<Rightarrow>
        (case t of
           Return r \<Rightarrow> Some (r, s')
         | Continue tmp_path' tmp_mode' path_stack' \<Rightarrow> create_dir_all_loop turn tmp_path' tmp_mode' path_stack' s'))"

definition create_dir_all ::
  "bool \<Rightarrow> 's mkdir_fun \<Rightarrow> (path \<Rightarrow> 's \<Rightarrow> bool) \<Rightarrow> path \<Rightarrow> 32 word \<Rightarrow> 's \<Rightarrow> ((dir_error + unit) res \<times> 's) option" where
  "create_dir_all dbg mkdir is_dir path mode s =
     (if path = [] then Some (Inr (Inr ()), s)
      else create_dir_all_loop (create_dir_all_turn dbg mkdir is_dir path mode) path mode [] s)"

definition dir_builder_create ::
  "bool \<Rightarrow> 's mkdir_fun \<Rightarrow> (path \<Rightarrow> 's \<Rightarrow> bool) \<Rightarrow> dir_builder \<Rightarrow> path \<Rightarrow> 's \<Rightarrow> ((dir_error + unit) res \<times> 's) option" where
  "dir_builder_create dbg mkdir is_dir b path s =
     (if db_recursive b then create_dir_all dbg mkdir is_dir path (db_mode b) s
      else (case get_os_path path of
              Inl err \<Rightarrow> Some (Inr (Inl err), s)
            | Inr os_path \<Rightarrow> (case mkdir os_path (db_mode b) s of (r, s') \<Rightarrow> Some (Inr r, s'))))"

section \<open>Properties\<close>

text \<open>The access mode of the options is the one asked for, whatever the custom flags are, and a mode is only passed on with \<open>O_CREAT\<close>.\<close>

lemma into_os_options_error:
  "(\<exists>e. into_os_options opts = Inl e) \<longleftrightarrow> \<not> oo_read opts \<and> \<not> oo_write opts \<and> \<not> oo_append opts"
  by (auto simp: into_os_options_def split: bool.splits prod.splits)

lemma get_offset_loop_plain:
  assumes "1 \<le> i" "i < length bytes" "\<forall>j. 1 < j \<and> j \<le> i \<longrightarrow> bytes ! j \<notin> {DOT, COLON, SEPARATOR}" "bytes ! 1 \<noteq> DOT"
  shows "get_offset_loop dbg bytes i = Inr None"
  using assms
proof (induction i)
  case (Suc i)
  show ?case
  proof (cases "i = 0")
    case True
    with Suc.prems show ?thesis by (simp add: stops_at_def)
  next
    case False
    with Suc.prems have "\<not> stops_at bytes (Suc i)" "bytes ! Suc i \<noteq> SEPARATOR" by (auto simp: stops_at_def)
    with Suc False show ?thesis by auto
  qed
qed simp

text \<open>
  \<open>create_dir_all\<close> does not create a parent whose name is one byte: for a path such as \<open>a/b\<close>, whose parent does not exist, it fails with
  \<open>InvalidData\<close> without asking for the parent, since the search stops at index 1 before it looks for the separator there.
\<close>

theorem create_dir_all_short_parent_fails:
  assumes "name \<noteq> []" and "set name \<inter> {DOT, COLON, SEPARATOR} = {}" and "0 \<notin> set (c # SEPARATOR # name)"
    and "mkdir (c # SEPARATOR # name) mode s = (Inl NotFound, s')"
  shows "dir_builder_create dbg mkdir is_dir \<lparr>db_mode = mode, db_recursive = True\<rparr> (c # SEPARATOR # name) s =
    Some (Inr (Inl InvalidData), s')"
proof -
  let ?p = "c # SEPARATOR # name"
  have "\<forall>j. 1 < j \<and> j \<le> length name + 1 \<longrightarrow> ?p ! j \<notin> {DOT, COLON, SEPARATOR}"
  proof (intro allI impI)
    fix j assume "1 < j \<and> j \<le> length name + 1"
    then have "?p ! j = name ! (j - 2)" "j - 2 < length name" by (auto simp: nth_Cons split: nat.splits)
    then have "?p ! j \<in> set name" by simp
    with assms(2) show "?p ! j \<notin> {DOT, COLON, SEPARATOR}" by blast
  qed
  moreover have "?p ! 1 \<noteq> DOT" by (simp add: SEPARATOR_def DOT_def)
  ultimately have "get_offset_loop dbg ?p (length name + 1) = Inr None" by (intro get_offset_loop_plain) auto
  then have "get_offset dbg [] ?p = Inr (None, [])" by (simp add: get_offset_def)
  with assms(3,4) show ?thesis
    by (simp add: dir_builder_create_def create_dir_all_def get_os_path_def create_dir_all_turn_def
        create_dir_all_loop.simps[of _ ?p])
qed

text \<open>A file system without directories, in which only a path without a separator can be created.\<close>

definition flat_mkdir :: "path list mkdir_fun" where
  "flat_mkdir p mode s = (if SEPARATOR \<in> set p then (Inl NotFound, s) else (Inr (), s @ [p]))"

theorem create_dir_all_short_parent_fails_witness:
  "dir_builder_create True flat_mkdir (\<lambda>_ _. False) \<lparr>db_mode = 438, db_recursive = True\<rparr> [97, SEPARATOR, 98] [] =
     Some (Inr (Inl InvalidData), [])"
  by (rule create_dir_all_short_parent_fails)
     (simp_all add: DOT_def COLON_def SEPARATOR_def flat_mkdir_def)

end
