(* ===== verification/Spec2Isabelle.thy ===== *)
theory Spec2Isabelle
  imports Local_Channel Shared_Channel Cond_Var RW_Locks Wait_Groups Onces Executor_Config Executor_Run Buffers Io_Pool_Safety
    Io_Futures Sockets Channel_Receivers Channel_Equivalence Exact_Io Local_Cell Fs_Options
begin

text \<open>
  A verification development for \<^bold>\<open>orengine\<close>, an asynchronous runtime for Rust: executors that run
  tasks, one per thread, synchronisation primitives for tasks of one executor (local) and of
  several (shared), and I/O workers. Paths are those of the repository under \<open>src/src\<close>.

  \<^bold>\<open>How the parts interact.\<close> An executor (\<open>runtime/executor\<close>) keeps queues of local and shared tasks and
  polls their futures. A future that has to wait parks its task in a primitive (\<open>sync\<close>), in the
  set of sleeping tasks, in the thread pool or in the I/O worker, and leaves a call for the
  executor where the task may only be touched after its poll returned. Executors exchange tasks
  through lists others take from and through batches that an interactor flushes
  (\<open>runtime/interaction_between_executors\<close>); the global state (\<open>runtime/global_state\<close>) tells them
  about each other. I/O works on buffers of a pool (\<open>io/buf\<close>), some of which the kernel knows.

  \<^bold>\<open>Conventions.\<close> A function that may panic returns a sum whose left part is the panic; \<open>dbg\<close> says whether debug
  assertions are on. \<open>Undefined\<close> stands for undefined behaviour. Operations of one thread, or under a
  lock, are functions from a state to a state and a report, with the tasks they wake in order; atomics are step
  relations. What other threads, the clock, a lock attempt or the kernel decide is an argument. \<open>usize\<close>
  values are naturals with their limit written out, or 64-bit words where bits matter.

  \<^bold>\<open>The library.\<close>

  \<^item> \<open>Orengine_Prelude\<close>: panics, \<open>usize\<close>, ends of deques, polls, wake-ups.

  \<^item> \<open>Transition_Systems\<close>: reachability with an invariant (locale \<open>invariant_system\<close>), histories of operations
  (\<open>op_system\<close>), refinement of a specification along a history (\<open>refinement\<close>) and the balance of parked and resumed tasks
  (\<open>parking\<close>).

  \<^item> \<open>Vec_Map\<close>: the map from executor numbers (\<open>utils/vec_map.rs\<close>), with the locale \<open>index_map\<close>.

  \<^bold>\<open>The components.\<close>

  \<^item> \<open>Channel_Types\<close>, \<open>Local_Channel\<close>, \<open>Shared_Channel\<close> model \<open>sync/channels\<close>: the polls of send and receive, try
  operations and close, over memory cells for the slots of waiting tasks. Along every history values are
  received in the order they were sent, none is lost or duplicated, no sender and receiver wait together, and
  each parked task is resumed once. The shared channel has in addition what a poll leaves to do after it released the
  lock, interleaved in any order. \<open>Channel_Equivalence\<close> shows that without interference it does what the local channel does.
  \<open>Channel_Receivers\<close> has the methods of \<open>async_trait.rs\<close> that are built from the operations of either channel.
  \<^item> \<open>Spin_Locks\<close>, \<open>Task_Lists\<close>, \<open>Async_Mutex\<close>, \<open>Local_Mutex\<close>, \<open>Smart_Mutex\<close>, \<open>Cond_Var\<close>, \<open>RW_Locks\<close>, \<open>Wait_Groups\<close>, \<open>Onces\<close> model
  \<open>utils\<close> locks, \<open>sync_task_queue.rs\<close> and the rest of \<open>sync\<close>: mutual exclusion, no waiter left behind, wait groups that resume
  their waiters when and only when their work is done, scopes that wait for all their tasks, and the races that the code has. In \<open>Smart_Mutex\<close> each access to
  the unsynchronised cell \<open>expected_count\<close> is a step of its own; no waiter is left behind in histories where these accesses do not
  race, and lemma \<open>mutex_cell_race\<close> reaches two of them at once.
  \<^item> \<open>Task_Data\<close> models \<open>runtime/task\<close>: the tag bit of a future's pointer and the pool of task memory.
  \<^item> \<open>Executor_Config\<close>, \<open>Global_State\<close>, \<open>Task_Exchange\<close> model the configuration and its counters, the registry of
  executors with its versions, and the exchange of tasks: configurations that share work agree, an
  executor's view is current after a check, no task is lost.
  \<^item> \<open>Executor_Core\<close> models the executor itself with \<open>sleep.rs\<close>, \<open>yield_now.rs\<close>, \<open>asyncify\<close>, the thread pool and the
  progressive timeout: the work of a round keeps all tasks, sleeping tasks are woken when due, waits are bounded.
  \<^item> \<open>Executor_Run\<close> models the body of the loop of \<open>Executor::run\<close>: the check of the version, the stop, the work, the wait and the poll of the io_uring
  worker. A round accounts for every task, including those in batches that the check clears and those that the worker resumes.
  \<^item> \<open>Buffers\<close> models \<open>io/buf\<close> over an explicit memory: every history of buffer operations refines operations on
  lists of bytes.
  \<^item> \<open>Io_Methods\<close>, \<open>Io_Requests\<close>, \<open>Io_Uring\<close> model the interface of the workers (\<open>io/worker.rs\<close>), the requests, their deadlines, the polls
  the macros generate and the io_uring worker: every request is completed once and the worker's count is exact.
  \<^item> \<open>Io_Futures\<close> models the futures of single operations in \<open>io/net\<close>, \<open>io/fs\<close> and \<open>io/close.rs\<close>: the request, the deadline and the output of each.
  The future \<open>Socket\<close>, which has a poll of its own, is modelled but not among the futures of the theorem on requests.
  \<^item> \<open>Io_Calls\<close>, \<open>Io_Fallback\<close> model the worker of other systems (\<open>io/sys/fallback\<close>) with its calls and its poller: without error events its count is the
  number of sockets in the poller. An error event is counted twice, and a shared task whose call the executor's poll retries
  is lost.
  \<^item> \<open>Io_Pool_Worker\<close>, \<open>Io_Pool_Safety\<close> model the fallback worker with a thread pool (\<open>io/sys/fallback/with_thread_pool\<close>), whose threads interleave
  with it in any order: it resumes every task once, on sockets that have one request at a time.
  \<^item> \<open>Exact_Io\<close> models the methods of the I/O traits (\<open>io/fs/read.rs\<close>, \<open>write.rs\<close>, \<open>io/net/recv.rs\<close>, \<open>peek.rs\<close>, \<open>send.rs\<close>, \<open>send_to.rs\<close>): those that fill or
  write a whole buffer do so on a stream; they hang at its end, and peeking repeats bytes.
  \<^item> \<open>Sockets\<close> models the addresses of Unix sockets (\<open>net/unix/addr.rs\<close>), connecting and binding (\<open>net/creators_of_sockets.rs\<close>, \<open>net/bind_config.rs\<close>,
  \<open>utils/each_addr.rs\<close>, \<open>io/net/connect.rs\<close>, \<open>bind.rs\<close>), over a log of the calls of the operating system: a path is refused exactly when it does not
  fit, and a socket that is not returned is closed.
  \<^item> \<open>Local_Cell\<close> models \<open>local.rs\<close>: the counter, the borrow rules and the checks of the executor of \<open>Local\<close>, with and without debug assertions.
  \<^item> \<open>Fs_Options\<close> models \<open>fs/open_options.rs\<close> on Linux and \<open>fs/dir_builder.rs\<close>: the flags of a file and the creation of all parents of a directory.

  \<^bold>\<open>Bounds and fuel.\<close> \<open>exec_task\<close> has fuel for the chain of hand-overs. 64 is enough where no poll lowers the counter of the series, as the depth limit is 63
  (lemma \<open>exec_task_bounded\<close>). A poll that itself executes tasks may lower it, since a call at the limit sets it to 0, and then no fixed fuel is enough: the statements on rounds
  hold for every fuel and say what holds when the round ends. The pass over sleeping tasks has fuel; one more than the number of sleeping tasks is enough
  for tasks that do not sleep again (\<open>sleep_wakes_due_tasks\<close>). \<open>notify_all\<close> of the local condition variable and the spin loops of locks take
  the states they see as a list, whose end means that the loop goes on; so do the retries of an interrupted call in the fallback worker.
  The loops of \<open>Exact_Io\<close> and of \<open>create_dir_all\<close> are partial functions, where \<open>None\<close> is a loop that does not end. The counter of the smart mutex is kept
  below \<open>2 ^ 64\<close> by a guard, the number of readers below the limit of \<open>isize\<close>, versions below that of \<open>usize\<close>. Nanoseconds are
  naturals; the progressive timeout is a 64-bit word.

  \<^bold>\<open>Modelled in part.\<close> The I/O worker of a round is that of Linux; a poll of a future is an argument, and in the fallback workers the tasks that a step executes
  are recorded and do not run within it. The errors of the library \<open>mio\<close> are left out. The methods of the I/O traits that only construct a future, the
  setters of the socket configuration, \<open>UnixListener\<close> and the conversions of addresses and descriptors to and from the types of \<open>std\<close> are
  left out, as are the file options of Windows.

  \<^bold>\<open>Not modelled.\<close> System calls, whose results are arguments (\<open>io/sys/fallback/operations.rs\<close>). The wrappers of descriptors and of their options (\<open>fs/file.rs\<close>,
  the streams and listeners of \<open>net\<close> apart from their creation, \<open>io/sys/sockets_and_files\<close>). Buffers that are sent between threads
  (\<open>io/buf/sendable_buffer.rs\<close>, \<open>with_buffer.rs\<close>). Thread creation, pinning to cores, thread locals and the wrappers \<open>run_with\<close> around the loop of the executor. Pointer utilities.
  The memory orders of atomics: every step is sequentially consistent. Test support, benchmarks and examples.
\<close>

end
